(* ===== verification/Prelude.thy ===== *)
theory Prelude
  imports Main "HOL-Library.Word"
begin

text \<open>
  Shared vocabulary of the development: the machine integers of the 32-bit kernel, the outcome of
  running a kernel routine on one CPU, and the generic facts on lists and words that the component
  theories use.

  Conventions. C's \<^verbatim>\<open>uint\<close>, \<^verbatim>\<open>ushort\<close> and \<^verbatim>\<open>uchar\<close> are words of their width and wrap
  around. C's \<^verbatim>\<open>int\<close> is HOL's \<^typ>\<open>int\<close>: signed overflow is undefined in C, and where a claim
  depends on a sum staying in range the bound is proved.
\<close>

unbundle bit_operations_syntax

type_synonym u8 = "8 word"
type_synonym u16 = "16 word"
type_synonym u32 = "32 word"

named_theorems c_consts \<open>definitions of the C preprocessor constants\<close>
named_theorems kern_simps \<open>unfolding of straight-line kernel routines\<close>

subsection \<open>The outcome of a kernel routine\<close>

text \<open>
  A routine either returns a value in a new machine state, calls \<^verbatim>\<open>panic\<close> (which freezes the
  machine), gives up the CPU inside \<^verbatim>\<open>sched()\<close> (the state is the one \<^verbatim>\<open>swtch\<close> leaves behind),
  spins (on a spinlock that another CPU holds, or for ever after a panic elsewhere), or runs into
  behaviour that C leaves undefined (a jump through a null function pointer, an access outside an
  array).
\<close>

datatype ('s, 'a) outcome =
    Ret 'a 's
  | Panic string
  | Sleep 's
  | Spin
  | Undef

primrec obind :: "('s, 'a) outcome \<Rightarrow> ('a \<Rightarrow> 's \<Rightarrow> ('s, 'b) outcome) \<Rightarrow> ('s, 'b) outcome" where
  "obind (Ret a s) f = f a s"
| "obind (Panic m) f = Panic m"
| "obind (Sleep s) f = Sleep s"
| "obind Spin f = Spin"
| "obind Undef f = Undef"

lemma obind_cong [fundef_cong]:
  assumes "m = m'" and "\<And>a s. m' = Ret a s \<Longrightarrow> f a s = g a s"
  shows "obind m f = obind m' g"
  using assms by (cases m') auto

lemma obind_assoc: "obind (obind m f) g = obind m (\<lambda>a s. obind (f a s) g)"
  by (cases m) simp_all

lemma obind_Ret [simp]: "obind m Ret = m"
  by (cases m) simp_all

lemma obind_unit [simp]: "obind m (\<lambda>_. Ret ()) = m"
  by (cases m) simp_all

lemma obind_eq_Ret_iff:
  "obind m f = Ret b t \<longleftrightarrow> (\<exists>a s. m = Ret a s \<and> f a s = Ret b t)"
  by (cases m) simp_all

lemma obind_RetE [elim?]:
  assumes "obind m f = Ret b t"
  obtains a s where "m = Ret a s" and "f a s = Ret b t"
  using assms by (auto simp: obind_eq_Ret_iff)

text \<open>A property of the state an outcome leaves behind, whether the routine returned or switched away.\<close>

primrec osat :: "('s \<Rightarrow> bool) \<Rightarrow> ('s, 'a) outcome \<Rightarrow> bool" where
  "osat P (Ret a s) = P s"
| "osat P (Panic m) = True"
| "osat P (Sleep s) = P s"
| "osat P Spin = True"
| "osat P Undef = True"

lemma osat_obind: "osat Q m \<Longrightarrow> (\<And>a s. Q s \<Longrightarrow> osat P (f a s)) \<Longrightarrow> (\<And>s. Q s \<Longrightarrow> P s) \<Longrightarrow> osat P (obind m f)"
  by (cases m) simp_all

lemma osat_mono: "osat P m \<Longrightarrow> (\<And>s. P s \<Longrightarrow> Q s) \<Longrightarrow> osat Q m"
  by (cases m) simp_all

subsection \<open>C integer operations\<close>

text \<open>C's \<^verbatim>\<open>%\<close> on \<^verbatim>\<open>int\<close> has the sign of the dividend; \<^verbatim>\<open>/\<close> truncates towards zero.\<close>

definition c_rem :: "int \<Rightarrow> int \<Rightarrow> int" where
  "c_rem a b = sgn a * (\<bar>a\<bar> mod \<bar>b\<bar>)"

definition c_div :: "int \<Rightarrow> int \<Rightarrow> int" where
  "c_div a b = sgn a * sgn b * (\<bar>a\<bar> div \<bar>b\<bar>)"

lemma c_rem_nonneg: "0 \<le> a \<Longrightarrow> 0 < b \<Longrightarrow> c_rem a b = a mod b"
  by (cases "a = 0") (simp_all add: c_rem_def)

lemma c_div_nonneg: "0 \<le> a \<Longrightarrow> 0 < b \<Longrightarrow> c_div a b = a div b"
  by (cases "a = 0") (simp_all add: c_div_def)

subsection \<open>Scanning a table\<close>

text \<open>
  Most kernel tables are scanned from the front for the first entry with a property.
  \<open>find_idx\<close> is that loop; the three lemmas below are what every scan proof needs.
\<close>

fun find_idx :: "('a \<Rightarrow> bool) \<Rightarrow> 'a list \<Rightarrow> nat option" where
  "find_idx P [] = None"
| "find_idx P (x # xs) = (if P x then Some 0 else map_option Suc (find_idx P xs))"

lemma find_idx_None_iff: "find_idx P xs = None \<longleftrightarrow> (\<forall>x \<in> set xs. \<not> P x)"
  by (induction xs) auto

lemma find_idx_SomeD:
  "find_idx P xs = Some i \<Longrightarrow> i < length xs \<and> P (xs ! i) \<and> (\<forall>j < i. \<not> P (xs ! j))"
proof (induction xs arbitrary: i)
  case Nil
  then show ?case by simp
next
  case (Cons x xs)
  show ?case
  proof (cases "P x")
    case True
    with Cons.prems show ?thesis by simp
  next
    case False
    with Cons.prems obtain k where k: "find_idx P xs = Some k" "i = Suc k" by auto
    have "\<not> P ((x # xs) ! j)" if "j < i" for j
      using that Cons.IH [OF k(1)] False k(2) by (cases j) auto
    with Cons.IH [OF k(1)] k(2) show ?thesis by simp
  qed
qed

lemma find_idx_eqI:
  assumes "i < length xs" and "P (xs ! i)" and "\<And>j. j < i \<Longrightarrow> \<not> P (xs ! j)"
  shows "find_idx P xs = Some i"
proof (cases "find_idx P xs")
  case None
  with assms(1,2) show ?thesis by (auto simp: find_idx_None_iff)
next
  case (Some k)
  from find_idx_SomeD [OF this] assms have "k = i"
    by (metis linorder_neqE_nat)
  with Some show ?thesis by simp
qed

subsection \<open>Lists\<close>

lemma sum_list_update_nat:
  "i < length xs \<Longrightarrow> sum_list (xs[i := (v::nat)]) + xs ! i = sum_list xs + v"
  by (induction xs arbitrary: i) (auto split: nat.splits)

lemma list_update_same_conv_id: "i < length xs \<Longrightarrow> xs[i := xs ! i] = xs"
  by simp

subsection \<open>Words\<close>

lemma unat_u32_less [simp]: "unat (x :: u32) < 4294967296"
  using unsigned_less [of x] by simp

lemma unat_add_u32: "unat (x + y :: u32) = (unat x + unat y) mod 4294967296"
  by (simp add: unat_word_ariths)

lemma unat_sub_u32:
  "unat (x - y :: u32) =
     (if unat y \<le> unat x then unat x - unat y else unat x + 4294967296 - unat y)"
  using unat_sub_if_size [of x y] by (simp add: word_size)

lemma unat_add_no_wrap: "unat x + unat y < 4294967296 \<Longrightarrow> unat (x + y :: u32) = unat x + unat y"
  by (simp add: unat_add_u32)

lemma unat_of_nat_u32: "n < 4294967296 \<Longrightarrow> unat (of_nat n :: u32) = n"
  by (simp add: unat_of_nat)

lemma u32_eqI: "unat x = unat y \<Longrightarrow> x = (y :: u32)"
  by (simp add: word_unat_eq_iff)

lemma unat_diff_pos: "x \<noteq> y \<Longrightarrow> 0 < unat (x - y :: u32)"
  by (metis eq_iff_diff_eq_0 unat_gt_0)

lemma sint_eq_unat: "unat (x :: u32) < 2147483648 \<Longrightarrow> sint x = int (unat x)"
proof -
  assume "unat x < 2147483648"
  then have "int (unat x) < 2147483648" by linarith
  then have "uint x < 2 ^ 31" by simp
  then have "signed_take_bit 31 (uint x) = uint x"
    by (intro signed_take_bit_int_eq_self) (use uint_ge_0 [of x] in linarith, simp)
  then show ?thesis by (simp add: sint_uint)
qed

lemma sint_nonneg: "unat (x :: u32) < 2147483648 \<Longrightarrow> 0 \<le> sint x"
  by (simp only: sint_eq_unat of_nat_0_le_iff)

end
