(* ===== verification/Params.thy ===== *)
theory Params
  imports Prelude
begin

text \<open>
  The kernel's constants (\<^verbatim>\<open>param.h\<close>), the address-space layout (\<^verbatim>\<open>memlayout.h\<close>) and the address
  arithmetic of the x86 paging unit (\<^verbatim>\<open>mmu.h\<close>), at 32 bits. The lemmas say when page rounding
  rounds and when it wraps, that a virtual address is its directory index, table index and offset,
  and that a page table entry is its address and its flags.
\<close>

subsection \<open>param.h\<close>

abbreviation (input) NPROC :: nat where "NPROC \<equiv> 64"
abbreviation (input) KSTACKSIZE :: u32 where "KSTACKSIZE \<equiv> 4096"
abbreviation (input) NCPU :: nat where "NCPU \<equiv> 8"
abbreviation (input) NOFILE :: nat where "NOFILE \<equiv> 16"
abbreviation (input) NFILE :: nat where "NFILE \<equiv> 100"
abbreviation (input) NINODE :: nat where "NINODE \<equiv> 50"
abbreviation (input) NDEV :: int where "NDEV \<equiv> 10"
abbreviation (input) ROOTDEV :: u32 where "ROOTDEV \<equiv> 1"
abbreviation (input) MAXARG :: nat where "MAXARG \<equiv> 32"
abbreviation (input) MAXOPBLOCKS :: nat where "MAXOPBLOCKS \<equiv> 10"
abbreviation (input) LOGSIZE :: nat where "LOGSIZE \<equiv> 30"
abbreviation (input) NBUF :: nat where "NBUF \<equiv> 30"
abbreviation (input) FSSIZE :: nat where "FSSIZE \<equiv> 1000"

subsection \<open>fs.h, stat.h, fcntl.h and buf.h\<close>

abbreviation (input) ROOTINO :: u32 where "ROOTINO \<equiv> 1"
abbreviation (input) BSIZE :: u32 where "BSIZE \<equiv> 512"
abbreviation (input) NDIRECT :: nat where "NDIRECT \<equiv> 12"
abbreviation (input) NINDIRECT :: nat where "NINDIRECT \<equiv> 128"
abbreviation (input) MAXFILE :: nat where "MAXFILE \<equiv> NDIRECT + NINDIRECT"
abbreviation (input) IPB :: u32 where "IPB \<equiv> 8"
abbreviation (input) BPB :: u32 where "BPB \<equiv> 4096"
abbreviation (input) DIRSIZ :: nat where "DIRSIZ \<equiv> 14"

abbreviation (input) T_DIR :: u16 where "T_DIR \<equiv> 1"
abbreviation (input) T_FILE :: u16 where "T_FILE \<equiv> 2"
abbreviation (input) T_DEV :: u16 where "T_DEV \<equiv> 3"

abbreviation (input) O_RDONLY :: u32 where "O_RDONLY \<equiv> 0x000"
abbreviation (input) O_WRONLY :: u32 where "O_WRONLY \<equiv> 0x001"
abbreviation (input) O_RDWR :: u32 where "O_RDWR \<equiv> 0x002"
abbreviation (input) O_CREATE :: u32 where "O_CREATE \<equiv> 0x200"

subsection \<open>memlayout.h\<close>

abbreviation (input) EXTMEM :: u32 where "EXTMEM \<equiv> 0x100000"
abbreviation (input) PHYSTOP :: u32 where "PHYSTOP \<equiv> 0xE000000"
abbreviation (input) DEVSPACE :: u32 where "DEVSPACE \<equiv> 0xFE000000"
abbreviation (input) KERNBASE :: u32 where "KERNBASE \<equiv> 0x80000000"
abbreviation (input) KERNLINK :: u32 where "KERNLINK \<equiv> KERNBASE + EXTMEM"

definition V2P :: "u32 \<Rightarrow> u32" where
  "V2P a = a - KERNBASE"

definition P2V :: "u32 \<Rightarrow> u32" where
  "P2V a = a + KERNBASE"

subsection \<open>mmu.h\<close>

abbreviation (input) NPDENTRIES :: nat where "NPDENTRIES \<equiv> 1024"
abbreviation (input) NPTENTRIES :: nat where "NPTENTRIES \<equiv> 1024"
abbreviation (input) PGSIZE :: u32 where "PGSIZE \<equiv> 4096"
abbreviation (input) PTXSHIFT :: nat where "PTXSHIFT \<equiv> 12"
abbreviation (input) PDXSHIFT :: nat where "PDXSHIFT \<equiv> 22"

abbreviation (input) PTE_P :: u32 where "PTE_P \<equiv> 0x001"
abbreviation (input) PTE_W :: u32 where "PTE_W \<equiv> 0x002"
abbreviation (input) PTE_U :: u32 where "PTE_U \<equiv> 0x004"

definition PDX :: "u32 \<Rightarrow> u32" where
  "PDX va = drop_bit PDXSHIFT va AND 0x3FF"

definition PTX :: "u32 \<Rightarrow> u32" where
  "PTX va = drop_bit PTXSHIFT va AND 0x3FF"

definition PGADDR :: "u32 \<Rightarrow> u32 \<Rightarrow> u32 \<Rightarrow> u32" where
  "PGADDR d t off = push_bit PDXSHIFT d OR push_bit PTXSHIFT t OR off"

definition PGROUNDUP :: "u32 \<Rightarrow> u32" where
  "PGROUNDUP sz = (sz + PGSIZE - 1) AND NOT (PGSIZE - 1)"

definition PGROUNDDOWN :: "u32 \<Rightarrow> u32" where
  "PGROUNDDOWN a = a AND NOT (PGSIZE - 1)"

definition PTE_ADDR :: "u32 \<Rightarrow> u32" where
  "PTE_ADDR pte = pte AND NOT 0xFFF"

definition PTE_FLAGS :: "u32 \<Rightarrow> u32" where
  "PTE_FLAGS pte = pte AND 0xFFF"

subsection \<open>Masks as arithmetic\<close>

lemma mask_12: "(0xFFF :: u32) = mask 12"
  by (simp add: mask_eq_exp_minus_1)

lemma mask_10: "(0x3FF :: u32) = mask 10"
  by (simp add: mask_eq_exp_minus_1)

lemma and_0xFFF: "a AND 0xFFF = take_bit 12 (a :: u32)"
  by (simp only: mask_12 take_bit_eq_mask)

lemma and_not_0xFFF: "a AND NOT 0xFFF = push_bit 12 (drop_bit 12 (a :: u32))"
  by (simp only: mask_12) (rule bit_eqI, auto simp: bit_simps)



lemma unat_mod_4096: "unat (a mod 4096 :: u32) = unat a mod 4096"
  by (simp add: unat_mod_distrib)

lemma not_4095: "NOT (0xFFF :: u32) = - 4096"
  by simp

lemma unat_and_m4096 [simp]: "unat (a AND - 4096 :: u32) = unat a div 4096 * 4096"
proof -
  have "(a AND - 4096) = push_bit 12 (drop_bit 12 a)"
    using and_not_0xFFF [of a] by (metis not_4095)
  moreover have "unat a div 4096 * 4096 < 4294967296"
    using unat_u32_less [of a] by (meson div_times_less_eq_dividend le_less_trans)
  ultimately show ?thesis
    by (simp add: push_bit_eq_mult drop_bit_eq_div unat_word_ariths unat_div_distrib)
qed

lemma and_0x3FF: "a AND 0x3FF = take_bit 10 (a :: u32)"
  by (simp only: mask_10 take_bit_eq_mask)

subsection \<open>Page rounding\<close>

lemma unat_PGROUNDDOWN: "unat (PGROUNDDOWN a) = unat a div 4096 * 4096"
  by (simp add: PGROUNDDOWN_def)

lemma unat_PGROUNDUP:
  "unat (PGROUNDUP a) = (unat a + 4095) mod 4294967296 div 4096 * 4096"
proof -
  have "PGROUNDUP a = (a + 4095) AND - 4096" by (simp add: PGROUNDUP_def add.commute)
  then show ?thesis by (simp add: unat_add_u32)
qed

lemma unat_PGROUNDUP_no_wrap:
  "unat a \<le> 4294963200 \<Longrightarrow> unat (PGROUNDUP a) = (unat a + 4095) div 4096 * 4096"
  by (simp add: unat_PGROUNDUP)

lemma unat_PDX: "unat (PDX va) = unat va div 4194304"
proof -
  have "unat va div 4194304 < 1024" using unat_u32_less [of va] by (simp add: less_mult_imp_div_less)
  then show ?thesis
    by (simp add: PDX_def and_0x3FF unat_mod_distrib unat_div_distrib drop_bit_eq_div take_bit_eq_mod)
qed

lemma unat_PTX: "unat (PTX va) = unat va div 4096 mod 1024"
  by (simp add: PTX_def and_0x3FF unat_mod_distrib unat_div_distrib drop_bit_eq_div take_bit_eq_mod)

subsection \<open>Splitting addresses and entries\<close>

lemma bit_less_pow: "(d :: u32) < 2 ^ k \<Longrightarrow> k < 32 \<Longrightarrow> bit d n \<Longrightarrow> n < k"
  by (metis bit_take_bit_iff less_mask_eq take_bit_eq_mask)

lemmas bit_less_1024 = bit_less_pow [of _ 10, simplified]
lemmas bit_less_4096 = bit_less_pow [of _ 12, simplified]

lemma PGADDR_split: "PGADDR (PDX va) (PTX va) (va AND 0xFFF) = va"
proof (rule bit_word_eqI)
  fix n
  assume "n < LENGTH(32)"
  then show "bit (PGADDR (PDX va) (PTX va) (va AND 0xFFF)) n \<longleftrightarrow> bit va n"
    unfolding PGADDR_def PDX_def PTX_def and_0x3FF and_0xFFF
    by (cases "n < 12"; cases "n < 22") (auto simp: bit_simps)
qed

lemma PDX_PGADDR: "d < 1024 \<Longrightarrow> t < 1024 \<Longrightarrow> off < 4096 \<Longrightarrow> PDX (PGADDR d t off) = d"
  unfolding PGADDR_def PDX_def and_0x3FF
  by (rule bit_word_eqI) (auto simp: bit_simps dest: bit_less_1024 bit_less_4096)

lemma PTX_PGADDR: "d < 1024 \<Longrightarrow> t < 1024 \<Longrightarrow> off < 4096 \<Longrightarrow> PTX (PGADDR d t off) = t"
  unfolding PGADDR_def PTX_def and_0x3FF
  by (rule bit_word_eqI) (auto simp: bit_simps dest: bit_less_1024 bit_less_4096)

lemma off_PGADDR: "off < 4096 \<Longrightarrow> PGADDR d t off AND 0xFFF = off"
  unfolding PGADDR_def and_0xFFF
  by (rule bit_word_eqI) (auto simp: bit_simps dest: bit_less_4096)

lemma PTE_split: "PTE_ADDR pte OR PTE_FLAGS pte = pte"
  unfolding PTE_ADDR_def PTE_FLAGS_def mask_12 by (rule bit_word_eqI) (auto simp: bit_simps)

lemma PTE_ADDR_idem [simp]: "PTE_ADDR (PTE_ADDR pte) = PTE_ADDR pte"
  unfolding PTE_ADDR_def mask_12 by (rule bit_word_eqI) (auto simp: bit_simps)

lemma PTE_ADDR_mk:
  assumes "PTE_ADDR pa = pa" and "fl < 4096"
  shows "PTE_ADDR (pa OR fl) = pa"
proof -
  have "PTE_ADDR (PTE_ADDR pa OR fl) = PTE_ADDR pa"
    using assms(2) unfolding PTE_ADDR_def mask_12
    by (intro bit_word_eqI) (auto simp: bit_simps dest: bit_less_4096)
  with assms(1) show ?thesis by simp
qed

lemma PTE_FLAGS_mk:
  assumes "PTE_ADDR pa = pa" and "fl < 4096"
  shows "PTE_FLAGS (pa OR fl) = fl"
proof -
  have "PTE_FLAGS (PTE_ADDR pa OR fl) = fl"
    using assms(2) unfolding PTE_ADDR_def PTE_FLAGS_def mask_12
    by (intro bit_word_eqI) (auto simp: bit_simps dest: bit_less_4096)
  with assms(1) show ?thesis by simp
qed

lemma PTE_ADDR_aligned_iff: "PTE_ADDR a = a \<longleftrightarrow> 4096 dvd unat a"
  by (auto simp: PTE_ADDR_def word_unat_eq_iff dvd_eq_mod_eq_0 minus_mod_eq_div_mult [symmetric])

lemma V2P_P2V [simp]: "V2P (P2V a) = a"
  by (simp add: V2P_def P2V_def)

lemma P2V_V2P [simp]: "P2V (V2P a) = a"
  by (simp add: V2P_def P2V_def)

end
