(* ===== verification/Spinlock.thy ===== *)
theory Spinlock
  imports Params
begin

text \<open>
  Spinlocks (\<^verbatim>\<open>spinlock.c\<close>): the per-CPU interrupt state with its \<^verbatim>\<open>pushcli\<close>/\<^verbatim>\<open>popcli\<close> nesting, and
  \<^verbatim>\<open>acquire\<close>, \<^verbatim>\<open>release\<close> and \<^verbatim>\<open>holding\<close> as one CPU executes them. All spinlocks of the kernel are kept
  in one table indexed by \<open>lockid\<close>. The record \<open>cpust\<close> is the root of the machine state: every later
  component extends it with its own fields. The second half models several CPUs competing for
  one lock at the granularity of the atomic \<^verbatim>\<open>xchg\<close> and proves mutual exclusion.

  The debugging array \<^verbatim>\<open>pcs\<close> of a lock is left out: nothing reads it but the panic message.
\<close>

datatype lockid =
    PTABLE | TICKSLOCK | KMEM | BCACHE | LOGLOCK | ICACHE | FTABLE | CONS | IDELOCK
  | PIPELOCK u32  \<comment> \<open>the lock of the pipe at this address\<close>
  | BUFLK nat     \<comment> \<open>\<^verbatim>\<open>buf[i].lock.lk\<close>\<close>
  | INODELK nat   \<comment> \<open>\<^verbatim>\<open>icache.inode[i].lock.lk\<close>\<close>

record spinlock =
  sl_locked :: u32
  sl_name :: string
  sl_cpu :: "nat option"  \<comment> \<open>the CPU holding the lock, \<open>None\<close> for 0\<close>

record cpust =
  cpu_id :: nat
  ncli :: int
  intena :: bool
  fl_if :: bool   \<comment> \<open>the bit \<^verbatim>\<open>FL_IF\<close> of eflags: interrupts enabled\<close>
  locks :: "lockid \<Rightarrow> spinlock"

definition initlock :: "lockid \<Rightarrow> string \<Rightarrow> 'a cpust_scheme \<Rightarrow> 'a cpust_scheme" where
  "initlock lk nm s =
     s\<lparr>locks := (locks s)(lk := \<lparr>sl_locked = 0, sl_name = nm, sl_cpu = None\<rparr>)\<rparr>"

definition holding :: "lockid \<Rightarrow> 'a cpust_scheme \<Rightarrow> bool" where
  "holding lk s \<longleftrightarrow> sl_locked (locks s lk) \<noteq> 0 \<and> sl_cpu (locks s lk) = Some (cpu_id s)"

definition cli :: "'a cpust_scheme \<Rightarrow> 'a cpust_scheme" where
  "cli s = s\<lparr>fl_if := False\<rparr>"

definition sti :: "'a cpust_scheme \<Rightarrow> 'a cpust_scheme" where
  "sti s = s\<lparr>fl_if := True\<rparr>"

definition pushcli :: "'a cpust_scheme \<Rightarrow> 'a cpust_scheme" where
  "pushcli s =
     (let eflags = fl_if s;
          s1 = cli s;
          s2 = (if ncli s1 = 0 then s1\<lparr>intena := eflags\<rparr> else s1)
      in s2\<lparr>ncli := ncli s2 + 1\<rparr>)"

definition popcli :: "'a cpust_scheme \<Rightarrow> ('a cpust_scheme, unit) outcome" where
  "popcli s =
     (if fl_if s then Panic ''popcli - interruptible''
      else let s1 = s\<lparr>ncli := ncli s - 1\<rparr>
        in if ncli s1 < 0 then Panic ''popcli''
           else Ret () (if ncli s1 = 0 \<and> intena s1 then sti s1 else s1))"

definition acquire :: "lockid \<Rightarrow> 'a cpust_scheme \<Rightarrow> ('a cpust_scheme, unit) outcome" where
  "acquire lk s =
     (let s1 = pushcli s
      in if holding lk s1 then Panic ''acquire''
         else if sl_locked (locks s1 lk) \<noteq> 0 then Spin
         else Ret () (s1\<lparr>locks := (locks s1)(lk := (locks s1 lk)
                \<lparr>sl_locked := 1, sl_cpu := Some (cpu_id s1)\<rparr>)\<rparr>))"

definition release :: "lockid \<Rightarrow> 'a cpust_scheme \<Rightarrow> ('a cpust_scheme, unit) outcome" where
  "release lk s =
     (if \<not> holding lk s then Panic ''release''
      else popcli (s\<lparr>locks := (locks s)(lk := (locks s lk)\<lparr>sl_cpu := None, sl_locked := 0\<rparr>)\<rparr>))"

lemmas spinlock_defs [kern_simps] =
  acquire_def release_def pushcli_def popcli_def holding_def cli_def sti_def Let_def

subsection \<open>Quiet states\<close>

text \<open>
  A routine called outside every critical section finds all spinlocks free and \<^verbatim>\<open>ncli\<close> 0. From the
  first critical section on, \<^verbatim>\<open>intena\<close> then agrees with the interrupt flag, and an
  \<^verbatim>\<open>acquire\<close>/\<^verbatim>\<open>release\<close> pair is exactly the identity.
\<close>

definition lock_free :: "spinlock \<Rightarrow> bool" where
  "lock_free l \<longleftrightarrow> sl_locked l = 0 \<and> sl_cpu l = None"

definition quiet :: "'a cpust_scheme \<Rightarrow> bool" where
  "quiet s \<longleftrightarrow> ncli s = 0 \<and> intena s = fl_if s \<and> (\<forall>lk. lock_free (locks s lk))"

lemma spinlock_restore: "lock_free l \<Longrightarrow> l\<lparr>sl_locked := 0, sl_cpu := None\<rparr> = l"
  by (cases l) (simp add: lock_free_def)

lemma cpust_restore:
  "ncli s = n \<Longrightarrow> intena s = i \<Longrightarrow> fl_if s = f \<Longrightarrow> locks s = ls \<Longrightarrow>
   s\<lparr>ncli := n, intena := i, fl_if := f, locks := ls\<rparr> = s"
  by (cases s) simp

definition held_by :: "'a cpust_scheme \<Rightarrow> lockid \<Rightarrow> 'a cpust_scheme" where
  "held_by s lk = s\<lparr>ncli := 1, intena := fl_if s, fl_if := False,
     locks := (locks s)(lk := (locks s lk)\<lparr>sl_locked := 1, sl_cpu := Some (cpu_id s)\<rparr>)\<rparr>"

lemma acquire_quiet: "quiet s \<Longrightarrow> acquire lk s = Ret () (held_by s lk)"
  by (cases s) (simp add: kern_simps quiet_def lock_free_def held_by_def)

lemma release_held_by: "quiet s \<Longrightarrow> release lk (held_by s lk) = Ret () s"
  by (cases s) (auto simp: kern_simps quiet_def held_by_def lock_free_def fun_eq_iff)

text \<open>
  The general form, for a routine that may already hold other locks: \<open>cpu_ok\<close> says that the nesting
  depth, the saved flag and the interrupt flag fit together, and \<open>acquired\<close> is the state inside the
  critical section.
\<close>

definition cpu_ok :: "'a cpust_scheme \<Rightarrow> bool" where
  "cpu_ok s \<longleftrightarrow> 0 \<le> ncli s \<and> (ncli s = 0 \<longrightarrow> intena s = fl_if s) \<and> (0 < ncli s \<longrightarrow> \<not> fl_if s)"

definition acquired :: "'a cpust_scheme \<Rightarrow> lockid \<Rightarrow> 'a cpust_scheme" where
  "acquired s lk = s\<lparr>ncli := ncli s + 1, fl_if := False,
     locks := (locks s)(lk := (locks s lk)\<lparr>sl_locked := 1, sl_cpu := Some (cpu_id s)\<rparr>)\<rparr>"

lemma quiet_cpu_ok: "quiet s \<Longrightarrow> cpu_ok s \<and> lock_free (locks s lk)"
  by (simp add: quiet_def cpu_ok_def)

lemma acquire_ok: "cpu_ok s \<Longrightarrow> lock_free (locks s lk) \<Longrightarrow> acquire lk s = Ret () (acquired s lk)"
  by (cases s) (auto simp: kern_simps cpu_ok_def lock_free_def acquired_def)

lemma release_acquired: "cpu_ok s \<Longrightarrow> lock_free (locks s lk) \<Longrightarrow> release lk (acquired s lk) = Ret () s"
  by (cases s) (auto simp: kern_simps cpu_ok_def acquired_def lock_free_def fun_eq_iff)

lemma cpu_ok_acquired [simp]: "cpu_ok s \<Longrightarrow> cpu_ok (acquired s lk)"
  by (simp add: cpu_ok_def acquired_def)

lemma acquired_simps [simp]:
  "cpu_id (acquired s lk) = cpu_id s" "ncli (acquired s lk) = ncli s + 1" "intena (acquired s lk) = intena s"
  "fl_if (acquired s lk) = False"
  by (simp_all add: acquired_def)

lemma locks_acquired:
  "locks (acquired s lk) = (locks s)(lk := (locks s lk)\<lparr>sl_locked := 1, sl_cpu := Some (cpu_id s)\<rparr>)"
  by (simp add: acquired_def)

lemma locks_acquired_other [simp]: "lk' \<noteq> lk \<Longrightarrow> locks (acquired s lk) lk' = locks s lk'"
  by (simp add: acquired_def)

lemma holding_acquired [simp]: "holding lk (acquired s lk)"
  by (simp add: acquired_def holding_def)

text \<open>
  Code inside a critical section leaves the interrupt state and the lock table as they are when it
  is done; \<open>same_cpu\<close> says so, and \<open>release_same\<close> then ends the critical section.
\<close>

definition same_cpu :: "'a cpust_scheme \<Rightarrow> 'b cpust_scheme \<Rightarrow> bool" where
  "same_cpu s t \<longleftrightarrow> cpust.truncate s = cpust.truncate t"

lemma same_cpu_iff:
  "same_cpu s t \<longleftrightarrow> cpu_id s = cpu_id t \<and> ncli s = ncli t \<and> intena s = intena t \<and> fl_if s = fl_if t \<and> locks s = locks t"
  by (simp add: same_cpu_def cpust.defs)

lemma same_cpu_refl [simp]: "same_cpu s s"
  by (simp add: same_cpu_def)

lemma same_cpu_trans: "same_cpu s t \<Longrightarrow> same_cpu t u \<Longrightarrow> same_cpu s u"
  by (simp add: same_cpu_def)

lemma same_cpu_ok: "same_cpu s t \<Longrightarrow> cpu_ok t = cpu_ok s"
  by (simp add: same_cpu_iff cpu_ok_def)

lemma release_same:
  assumes "same_cpu (acquired s lk) t" and "cpu_ok s" and "lock_free (locks s lk)"
  shows "release lk t = Ret () (t\<lparr>ncli := ncli s, fl_if := fl_if s, locks := locks s\<rparr>)"
    and "same_cpu s (t\<lparr>ncli := ncli s, fl_if := fl_if s, locks := locks s\<rparr>)"
proof -
  from assms(1) have t: "cpu_id t = cpu_id s" "ncli t = ncli s + 1" "intena t = intena s" "\<not> fl_if t"
    "locks t = (locks s)(lk := (locks s lk)\<lparr>sl_locked := 1, sl_cpu := Some (cpu_id s)\<rparr>)"
    by (auto simp: same_cpu_iff acquired_def)
  show "same_cpu s (t\<lparr>ncli := ncli s, fl_if := fl_if s, locks := locks s\<rparr>)"
    using t by (simp add: same_cpu_iff)
  have "(locks s lk)\<lparr>sl_cpu := None, sl_locked := 0\<rparr> = locks s lk"
    using assms(3) by (cases "locks s lk") (simp add: lock_free_def)
  then have l: "(locks t)(lk := (locks t lk)\<lparr>sl_cpu := None, sl_locked := 0\<rparr>) = locks s"
    by (simp add: t)
  have "holding lk t" by (simp add: holding_def t)
  then have "release lk t = popcli (t\<lparr>locks := locks s\<rparr>)" by (simp add: release_def l)
  also have "\<dots> = Ret () (t\<lparr>ncli := ncli s, fl_if := fl_if s, locks := locks s\<rparr>)"
    using assms(2) t(2-4) by (cases t) (auto simp: popcli_def sti_def cpu_ok_def)
  finally show "release lk t = Ret () (t\<lparr>ncli := ncli s, fl_if := fl_if s, locks := locks s\<rparr>)" .
qed

subsection \<open>Nesting of pushcli and popcli\<close>

primrec pushclis :: "nat \<Rightarrow> 'a cpust_scheme \<Rightarrow> 'a cpust_scheme" where
  "pushclis 0 s = s"
| "pushclis (Suc n) s = pushclis n (pushcli s)"

primrec popclis :: "nat \<Rightarrow> 'a cpust_scheme \<Rightarrow> ('a cpust_scheme, unit) outcome" where
  "popclis 0 s = Ret () s"
| "popclis (Suc n) s = obind (popcli s) (\<lambda>_. popclis n)"

text \<open>The state inside \<open>k > 0\<close> nested critical sections entered from \<open>s\<close>.\<close>

definition nested :: "'a cpust_scheme \<Rightarrow> int \<Rightarrow> 'a cpust_scheme" where
  "nested s k = s\<lparr>ncli := ncli s + k, fl_if := False,
     intena := (if ncli s = 0 then fl_if s else intena s)\<rparr>"

lemma pushcli_nested: "0 \<le> ncli s \<Longrightarrow> 0 < k \<Longrightarrow> pushcli (nested s k) = nested s (k + 1)"
  by (cases s) (simp add: nested_def kern_simps)

lemma pushclis_nested:
  "0 \<le> ncli s \<Longrightarrow> 0 < k \<Longrightarrow> pushclis n (nested s k) = nested s (k + int n)"
  by (induction n arbitrary: k) (simp_all add: pushcli_nested ac_simps)

lemma pushclis_from: "0 \<le> ncli s \<Longrightarrow> pushclis (Suc n) s = nested s (int (Suc n))"
proof -
  assume s: "0 \<le> ncli s"
  have "pushcli s = nested s 1" by (cases s) (simp add: nested_def kern_simps)
  with s show ?thesis by (simp add: pushclis_nested)
qed

lemma popclis_nested:
  "0 \<le> ncli s \<Longrightarrow> int m < k \<Longrightarrow> popclis m (nested s k) = Ret () (nested s (k - int m))"
proof (induction m arbitrary: k)
  case 0
  then show ?case by simp
next
  case (Suc m)
  have "popcli (nested s k) = Ret () (nested s (k - 1))"
    using Suc.prems by (cases s) (auto simp: nested_def kern_simps)
  with Suc show ?case by (simp add: algebra_simps)
qed

lemma popclis_none: "popclis 0 = Ret ()"
  by (rule ext) simp

lemma popclis_add: "popclis (m + k) s = obind (popclis m s) (\<lambda>_. popclis k)"
proof (induction m arbitrary: s)
  case 0
  then show ?case by simp
next
  case (Suc m)
  then show ?case by (cases "popcli s") simp_all
qed

lemma popcli_last:
  "0 \<le> ncli s \<Longrightarrow> (ncli s \<noteq> 0 \<longrightarrow> \<not> fl_if s) \<Longrightarrow>
   popcli (nested s 1) = Ret () (s\<lparr>intena := (if ncli s = 0 then fl_if s else intena s)\<rparr>)"
  by (cases s) (auto simp: nested_def kern_simps)

subsection \<open>Several CPUs and one lock\<close>

text \<open>
  Every CPU alternates \<^verbatim>\<open>acquire\<close> and \<^verbatim>\<open>release\<close> of one lock. A step is one access to the lock's
  memory: the two reads of \<^verbatim>\<open>holding\<close>, the atomic \<^verbatim>\<open>xchg\<close>, the stores to \<^verbatim>\<open>lk->cpu\<close> and the final
  \<^verbatim>\<open>movl $0\<close>. Steps of different CPUs interleave freely.
\<close>

datatype spc =
    Outside
  | CheckLocked    \<comment> \<open>in \<^verbatim>\<open>acquire\<close>: about to read \<^verbatim>\<open>lk->locked\<close> in \<^verbatim>\<open>holding\<close>\<close>
  | CheckCpu       \<comment> \<open>\<^verbatim>\<open>lk->locked\<close> was set: about to read \<^verbatim>\<open>lk->cpu\<close>\<close>
  | Spinning       \<comment> \<open>in the \<^verbatim>\<open>xchg\<close> loop\<close>
  | Won            \<comment> \<open>\<^verbatim>\<open>xchg\<close> returned 0, \<^verbatim>\<open>lk->cpu\<close> not yet recorded\<close>
  | Critical
  | RelLocked      \<comment> \<open>in \<^verbatim>\<open>release\<close>: \<^verbatim>\<open>lk->locked\<close> read as set, about to read \<^verbatim>\<open>lk->cpu\<close>\<close>
  | RelChecked     \<comment> \<open>\<^verbatim>\<open>holding\<close> was true\<close>
  | Cleared        \<comment> \<open>\<^verbatim>\<open>lk->cpu\<close> is 0, \<^verbatim>\<open>lk->locked\<close> still 1\<close>
  | Panicked

record smp =
  spcs :: "nat \<Rightarrow> spc"
  slk :: spinlock

definition smp_init :: smp where
  "smp_init = \<lparr>spcs = (\<lambda>_. Outside), slk = \<lparr>sl_locked = 0, sl_name = ''lock'', sl_cpu = None\<rparr>\<rparr>"

definition goto :: "nat \<Rightarrow> spc \<Rightarrow> smp \<Rightarrow> smp" where
  "goto c p s = s\<lparr>spcs := (spcs s)(c := p)\<rparr>"

inductive spin_step :: "smp \<Rightarrow> smp \<Rightarrow> bool" where
  acq_start: "spcs s c = Outside \<Longrightarrow> spin_step s (goto c CheckLocked s)"
| acq_locked: "spcs s c = CheckLocked \<Longrightarrow>
    spin_step s (goto c (if sl_locked (slk s) \<noteq> 0 then CheckCpu else Spinning) s)"
| acq_cpu: "spcs s c = CheckCpu \<Longrightarrow>
    spin_step s (goto c (if sl_cpu (slk s) = Some c then Panicked else Spinning) s)"
| acq_xchg: "spcs s c = Spinning \<Longrightarrow>
    spin_step s (goto c (if sl_locked (slk s) = 0 then Won else Spinning)
      (s\<lparr>slk := (slk s)\<lparr>sl_locked := 1\<rparr>\<rparr>))"
| acq_record: "spcs s c = Won \<Longrightarrow>
    spin_step s (goto c Critical (s\<lparr>slk := (slk s)\<lparr>sl_cpu := Some c\<rparr>\<rparr>))"
| rel_locked: "spcs s c = Critical \<Longrightarrow>
    spin_step s (goto c (if sl_locked (slk s) \<noteq> 0 then RelLocked else Panicked) s)"
| rel_cpu: "spcs s c = RelLocked \<Longrightarrow>
    spin_step s (goto c (if sl_cpu (slk s) = Some c then RelChecked else Panicked) s)"
| rel_clear: "spcs s c = RelChecked \<Longrightarrow>
    spin_step s (goto c Cleared (s\<lparr>slk := (slk s)\<lparr>sl_cpu := None\<rparr>\<rparr>))"
| rel_store: "spcs s c = Cleared \<Longrightarrow>
    spin_step s (goto c Outside (s\<lparr>slk := (slk s)\<lparr>sl_locked := 0\<rparr>\<rparr>))"

inductive spin_reach :: "smp \<Rightarrow> bool" where
  start: "spin_reach smp_init"
| step: "spin_reach s \<Longrightarrow> spin_step s t \<Longrightarrow> spin_reach t"

text \<open>The program points between a successful \<^verbatim>\<open>xchg\<close> and the final store.\<close>

fun owns :: "spc \<Rightarrow> bool" where
  "owns Won = True"
| "owns Critical = True"
| "owns RelLocked = True"
| "owns RelChecked = True"
| "owns Cleared = True"
| "owns _ = False"

fun recorded :: "spc \<Rightarrow> bool" where
  "recorded Critical = True"
| "recorded RelLocked = True"
| "recorded RelChecked = True"
| "recorded _ = False"

definition spin_inv :: "smp \<Rightarrow> nat option \<Rightarrow> bool" where
  "spin_inv s ow \<longleftrightarrow>
     (\<forall>c. spcs s c \<noteq> Panicked) \<and>
     (\<forall>c. owns (spcs s c) \<longleftrightarrow> ow = Some c) \<and>
     (sl_locked (slk s) \<noteq> 0 \<longleftrightarrow> ow \<noteq> None) \<and>
     (\<forall>c. sl_cpu (slk s) = Some c \<longleftrightarrow> recorded (spcs s c))"

lemma recorded_owns: "recorded p \<Longrightarrow> owns p"
  by (cases p) simp_all

lemma spin_inv_init: "spin_inv smp_init None"
  by (simp add: spin_inv_def smp_init_def)

lemma spin_inv_ownerD: "spin_inv s ow \<Longrightarrow> owns (spcs s c) \<Longrightarrow> ow = Some c"
  by (simp add: spin_inv_def)

text \<open>A move of one CPU that keeps the lock word and its owner keeps the invariant.\<close>

lemma spin_inv_goto:
  assumes "spin_inv s ow" and "p \<noteq> Panicked"
    and "owns p = owns (spcs s c)" and "recorded p = recorded (spcs s c)"
  shows "spin_inv (goto c p s) ow"
  using assms by (simp add: spin_inv_def goto_def)

lemma spin_inv_step: "spin_step s t \<Longrightarrow> spin_inv s ow \<Longrightarrow> \<exists>ow'. spin_inv t ow'"
proof (induction rule: spin_step.induct)
  case (acq_start s c)
  then show ?case using spin_inv_goto [of s ow CheckLocked c] by auto
next
  case (acq_locked s c)
  then show ?case
    using spin_inv_goto [of s ow "if sl_locked (slk s) \<noteq> 0 then CheckCpu else Spinning" c] by auto
next
  case (acq_cpu s c)
  then have "sl_cpu (slk s) \<noteq> Some c" by (simp add: spin_inv_def)
  with acq_cpu show ?case using spin_inv_goto [of s ow Spinning c] by auto
next
  case (acq_xchg s c)
  show ?case
  proof (cases "sl_locked (slk s) = 0")
    case True
    with acq_xchg have "spin_inv (goto c Won (s\<lparr>slk := (slk s)\<lparr>sl_locked := 1\<rparr>\<rparr>)) (Some c)"
      by (auto simp: spin_inv_def goto_def)
    with True show ?thesis by auto
  next
    case False
    from acq_xchg have "ow \<noteq> Some c" by (metis owns.simps(9) spin_inv_def)
    with False acq_xchg have "spin_inv (goto c Spinning (s\<lparr>slk := (slk s)\<lparr>sl_locked := 1\<rparr>\<rparr>)) ow"
      by (auto simp: spin_inv_def goto_def)
    with False show ?thesis by auto
  qed
next
  case (acq_record s c)
  then have "ow = Some c" by (intro spin_inv_ownerD [of s]) simp_all
  moreover from acq_record this have "\<not> recorded (spcs s d)" for d
    using recorded_owns [of "spcs s d"] by (cases "d = c") (auto simp: spin_inv_def)
  ultimately have "spin_inv (goto c Critical (s\<lparr>slk := (slk s)\<lparr>sl_cpu := Some c\<rparr>\<rparr>)) ow"
    using acq_record by (auto simp: spin_inv_def goto_def)
  then show ?case ..
next
  case (rel_locked s c)
  then have "ow = Some c" by (intro spin_inv_ownerD [of s]) simp_all
  with rel_locked have "sl_locked (slk s) \<noteq> 0" by (simp add: spin_inv_def)
  with rel_locked show ?case using spin_inv_goto [of s ow RelLocked c] by auto
next
  case (rel_cpu s c)
  then have "sl_cpu (slk s) = Some c" by (simp add: spin_inv_def)
  with rel_cpu show ?case using spin_inv_goto [of s ow RelChecked c] by auto
next
  case (rel_clear s c)
  then have "ow = Some c" by (intro spin_inv_ownerD [of s]) simp_all
  with rel_clear have "\<not> recorded (spcs s d)" if "d \<noteq> c" for d
    using that recorded_owns [of "spcs s d"] spin_inv_ownerD [of s ow d] by auto
  with rel_clear have "spin_inv (goto c Cleared (s\<lparr>slk := (slk s)\<lparr>sl_cpu := None\<rparr>\<rparr>)) ow"
    by (auto simp: spin_inv_def goto_def)
  then show ?case ..
next
  case (rel_store s c)
  then have "spin_inv (goto c Outside (s\<lparr>slk := (slk s)\<lparr>sl_locked := 0\<rparr>\<rparr>)) None"
    using spin_inv_ownerD [of s ow c] by (auto simp: spin_inv_def goto_def)
  then show ?case ..
qed

lemma spin_reach_inv: "spin_reach s \<Longrightarrow> \<exists>ow. spin_inv s ow"
  by (induction rule: spin_reach.induct) (use spin_inv_init spin_inv_step in blast)+

subsection \<open>Properties\<close>

text \<open>
  C5: mutual exclusion of spinlocks. However the CPUs interleave, at most one of them is between
  its winning \<^verbatim>\<open>xchg\<close> and the store that frees the lock, and neither \<^verbatim>\<open>acquire\<close> nor \<^verbatim>\<open>release\<close> panics,
  although \<^verbatim>\<open>holding\<close> reads the lock's two words without synchronisation.
\<close>

theorem spinlock_mutual_exclusion:
  assumes "spin_reach s"
  shows "\<forall>c d. spcs s c \<noteq> Panicked \<and> (owns (spcs s c) \<and> owns (spcs s d) \<longrightarrow> c = d)"
proof -
  from spin_reach_inv [OF assms] obtain ow where "spin_inv s ow" ..
  then show ?thesis by (auto simp: spin_inv_def)
qed

text \<open>A reachable state in which CPU 3 is inside its critical section and CPU 5 spins.\<close>

definition smp_busy :: smp where
  "smp_busy = \<lparr>spcs = (\<lambda>_. Outside)(3 := Critical, 5 := Spinning),
     slk = \<lparr>sl_locked = 1, sl_name = ''lock'', sl_cpu = Some 3\<rparr>\<rparr>"

lemma smp_busy_reach: "spin_reach smp_busy"
proof -
  let ?s1 = "goto 3 CheckLocked smp_init"
  let ?s2 = "goto 3 Spinning ?s1"
  let ?s3 = "goto 3 Won (?s2\<lparr>slk := (slk ?s2)\<lparr>sl_locked := 1\<rparr>\<rparr>)"
  let ?s4 = "goto 3 Critical (?s3\<lparr>slk := (slk ?s3)\<lparr>sl_cpu := Some 3\<rparr>\<rparr>)"
  let ?s5 = "goto 5 CheckLocked ?s4"
  let ?s6 = "goto 5 CheckCpu ?s5"
  have "spin_step smp_init ?s1" by (rule acq_start) (simp add: smp_init_def)
  moreover have "spin_step ?s1 ?s2" using acq_locked [of ?s1 3] by (simp add: goto_def smp_init_def)
  moreover have "spin_step ?s2 ?s3" using acq_xchg [of ?s2 3] by (simp add: goto_def smp_init_def)
  moreover have "spin_step ?s3 ?s4" by (rule acq_record) (simp add: goto_def)
  moreover have "spin_step ?s4 ?s5" by (rule acq_start) (simp add: goto_def smp_init_def)
  moreover have "spin_step ?s5 ?s6" using acq_locked [of ?s5 5] by (simp add: goto_def smp_init_def)
  moreover have "spin_step ?s6 smp_busy"
    using acq_cpu [of ?s6 5] by (simp add: goto_def smp_init_def smp_busy_def fun_upd_twist)
  ultimately show ?thesis by (meson spin_reach.intros)
qed

theorem spinlock_mutual_exclusion_witness:
  "spin_reach smp_busy \<and> owns (spcs smp_busy 3) \<and>
   \<not> owns (spcs smp_busy 5) \<and> spcs smp_busy 5 \<noteq> Panicked"
proof -
  have "owns (spcs smp_busy 3)" by (simp add: smp_busy_def)
  moreover have "(5::nat) \<noteq> 3" by simp
  ultimately show ?thesis
    using spinlock_mutual_exclusion [OF smp_busy_reach] smp_busy_reach by metis
qed

text \<open>
  C12: \<^verbatim>\<open>pushcli\<close> and \<^verbatim>\<open>popcli\<close> are matched. After \<open>n\<close> calls of \<^verbatim>\<open>pushcli\<close>, the first \<open>n - 1\<close> calls of
  \<^verbatim>\<open>popcli\<close> leave interrupts off, the \<open>n\<close>-th one puts the interrupt flag back to what it was, and
  none of them panics.
\<close>

theorem pushcli_popcli_matched:
  assumes "0 \<le> ncli s" and "ncli s \<noteq> 0 \<longrightarrow> \<not> fl_if s" and "m \<le> n"
  shows "\<exists>t. popclis m (pushclis n s) = Ret () t \<and> ncli t = ncli s + int (n - m) \<and>
    fl_if t = (m = n \<and> fl_if s)"
proof (cases n)
  case 0
  with assms(3) show ?thesis by simp
next
  case (Suc k)
  then have push: "pushclis n s = nested s (int n)" using pushclis_from [OF assms(1), of k] by simp
  show ?thesis
  proof (cases "m = n")
    case False
    with assms push have "popclis m (pushclis n s) = Ret () (nested s (int n - int m))"
      by (simp add: popclis_nested)
    with False assms(3) show ?thesis by (simp add: nested_def)
  next
    case True
    have "popclis k (pushclis n s) = Ret () (nested s 1)"
      using push Suc assms(1) by (simp add: popclis_nested)
    then have "popclis (k + 1) (pushclis n s) = popcli (nested s 1)"
      using popclis_add [of k 1 "pushclis n s"] by (simp add: popclis_none)
    with True Suc popcli_last [OF assms(1,2)] show ?thesis by simp
  qed
qed

theorem pushcli_popcli_matched_witness:
  "\<exists>t. popclis 3 (pushclis 3 \<lparr>cpu_id = 0, ncli = 0, intena = False, fl_if = True,
      locks = (\<lambda>_. \<lparr>sl_locked = 0, sl_name = [], sl_cpu = None\<rparr>)\<rparr>) = Ret () t \<and> ncli t = 0 \<and> fl_if t"
  using pushcli_popcli_matched [of "\<lparr>cpu_id = 0, ncli = 0, intena = False, fl_if = True,
      locks = (\<lambda>_. \<lparr>sl_locked = 0, sl_name = [], sl_cpu = None\<rparr>)\<rparr>" 3 3]
  by simp

end
