(* ===== verification/Sched.thy ===== *)
theory Sched
  imports Spinlock
begin

text \<open>
  The process table and everything in \<^verbatim>\<open>proc.c\<close> that works on it alone: the ticket policies, the
  pseudo random number generator, the lottery scheduler, \<^verbatim>\<open>sched\<close>/\<^verbatim>\<open>yield\<close>/\<^verbatim>\<open>sleep\<close>/\<^verbatim>\<open>wakeup\<close>/\<^verbatim>\<open>kill\<close>
  and the per-tick accounting. The structures a process points to (trap frame, context) are kept
  inside its record; pointers to table entries are indices, 0 being \<open>None\<close>.
\<close>

subsection \<open>Data (proc.h, x86.h)\<close>

datatype procstate = UNUSED | EMBRYO | SLEEPING | RUNNABLE | RUNNING | ZOMBIE

text \<open>Wait channels: the kernel addresses that \<^verbatim>\<open>sleep\<close> and \<^verbatim>\<open>wakeup\<close> are called with.\<close>

datatype chan =
    NoChan              \<comment> \<open>0\<close>
  | ChProc nat          \<comment> \<open>\<^verbatim>\<open>&ptable.proc[i]\<close>\<close>
  | ChTicks             \<comment> \<open>\<^verbatim>\<open>&ticks\<close>\<close>
  | ChLog               \<comment> \<open>\<^verbatim>\<open>&log\<close>\<close>
  | ChInput             \<comment> \<open>\<^verbatim>\<open>&input.r\<close>\<close>
  | ChBuf nat           \<comment> \<open>\<^verbatim>\<open>&buf[i]\<close> (ide)\<close>
  | ChBufLock nat       \<comment> \<open>\<^verbatim>\<open>&buf[i].lock\<close>\<close>
  | ChInodeLock nat     \<comment> \<open>\<^verbatim>\<open>&inode[i].lock\<close>\<close>
  | ChPipeRead u32      \<comment> \<open>\<^verbatim>\<open>&p->nread\<close>\<close>
  | ChPipeWrite u32     \<comment> \<open>\<^verbatim>\<open>&p->nwrite\<close>\<close>

record trapframe =
  tf_edi :: u32
  tf_esi :: u32
  tf_ebp :: u32
  tf_oesp :: u32
  tf_ebx :: u32
  tf_edx :: u32
  tf_ecx :: u32
  tf_eax :: u32
  tf_gs :: u16
  tf_fs :: u16
  tf_es :: u16
  tf_ds :: u16
  tf_trapno :: u32
  tf_err :: u32
  tf_eip :: u32
  tf_cs :: u16
  tf_eflags :: u32
  tf_esp :: u32
  tf_ss :: u16

record ctxt =
  cx_edi :: u32
  cx_esi :: u32
  cx_ebx :: u32
  cx_ebp :: u32
  cx_eip :: u32

record proc =
  p_sz :: u32
  p_pgdir :: u32
  p_kstack :: u32
  p_state :: procstate
  p_pid :: int
  p_parent :: "nat option"
  p_tf :: trapframe
  p_context :: ctxt
  p_chan :: chan
  p_killed :: bool
  p_ofile :: "nat option list"
  p_cwd :: "nat option"
  p_name :: "u8 list"
  p_exit_status :: int
  p_ntickets :: int
  p_priority :: int
  p_ctime :: int
  p_ttime :: int
  p_stime :: int
  p_retime :: int
  p_rutime :: int
  p_intena :: bool  \<comment> \<open>the local variable \<^verbatim>\<open>intena\<close> of \<^verbatim>\<open>sched()\<close>, on the process's kernel stack\<close>
  p_locals :: "int list"  \<comment> \<open>the locals that a system call blocked in a loop needs to go on\<close>

record pstate = cpust +
  procs :: "proc list"
  curproc :: "nat option"
  initproc :: "nat option"
  nextpid :: int
  npolicy :: int
  ticks :: u32
  seed :: u32
  cr3 :: u32       \<comment> \<open>the page table register\<close>
  ts_esp0 :: u32   \<comment> \<open>\<^verbatim>\<open>cpu->ts.esp0\<close>\<close>
  kpgdir :: u32

definition pinit :: "'a pstate_scheme \<Rightarrow> 'a pstate_scheme" where
  "pinit s = initlock PTABLE ''ptable'' s"

definition upd_proc :: "nat \<Rightarrow> (proc \<Rightarrow> proc) \<Rightarrow> 'a pstate_scheme \<Rightarrow> 'a pstate_scheme" where
  "upd_proc i f s = s\<lparr>procs := (procs s)[i := f (procs s ! i)]\<rparr>"

subsection \<open>Ticket policies\<close>

primrec uniform_loop :: "proc list \<Rightarrow> int \<Rightarrow> int \<times> proc list" where
  "uniform_loop [] tot = (tot, [])"
| "uniform_loop (p # ps) tot =
     (let p1 = p\<lparr>p_ntickets := 10\<rparr>
      in if p_state p1 \<noteq> RUNNABLE then
           (let (t, qs) = uniform_loop ps tot in (t, p1 # qs))
         else
           (let p2 = p1\<lparr>p_ntickets := 10\<rparr>;
                (t, qs) = uniform_loop ps (tot + 10)
            in (t, p2 # qs)))"

definition uniform_time_dist :: "'a pstate_scheme \<Rightarrow> int \<times> 'a pstate_scheme" where
  "uniform_time_dist s = (let (t, ps) = uniform_loop (procs s) 0 in (t, s\<lparr>procs := ps\<rparr>))"

primrec priority_loop :: "proc list \<Rightarrow> int \<Rightarrow> int \<times> proc list" where
  "priority_loop [] tot = (tot, [])"
| "priority_loop (p # ps) tot =
     (let p1 = p\<lparr>p_priority := 10\<rparr>
      in if p_state p1 \<noteq> RUNNABLE then
           (let (t, qs) = priority_loop ps tot in (t, p1 # qs))
         else
           (let p2 = p1\<lparr>p_ntickets := p_priority p1\<rparr>;
                (t, qs) = priority_loop ps (tot + p_ntickets p2)
            in (t, p2 # qs)))"

definition priority_scheduling :: "'a pstate_scheme \<Rightarrow> int \<times> 'a pstate_scheme" where
  "priority_scheduling s = (let (t, ps) = priority_loop (procs s) 0 in (t, s\<lparr>procs := ps\<rparr>))"

primrec dynamic_loop :: "proc list \<Rightarrow> int \<Rightarrow> int \<times> proc list" where
  "dynamic_loop [] tot = (tot, [])"
| "dynamic_loop (p # ps) tot =
     (let p1 = p\<lparr>p_ntickets := 20\<rparr>
      in if p_state p1 \<noteq> RUNNABLE then
           (let (t, qs) = dynamic_loop ps tot in (t, p1 # qs))
         else
           (let (t, qs) = dynamic_loop ps (tot + p_ntickets p1) in (t, p1 # qs)))"

definition dynamic_tickets_allc :: "'a pstate_scheme \<Rightarrow> int \<times> 'a pstate_scheme" where
  "dynamic_tickets_allc s = (let (t, ps) = dynamic_loop (procs s) 0 in (t, s\<lparr>procs := ps\<rparr>))"

primrec getTickets_loop :: "proc list \<Rightarrow> int \<Rightarrow> int" where
  "getTickets_loop [] tot = tot"
| "getTickets_loop (p # ps) tot =
     (if p_state p \<noteq> RUNNABLE then getTickets_loop ps tot
      else getTickets_loop ps (tot + p_ntickets p))"

definition getTickets :: "'a pstate_scheme \<Rightarrow> int" where
  "getTickets s = getTickets_loop (procs s) 0"

text \<open>The table \<^verbatim>\<open>policies\<close> has four entries, the last with the null function.\<close>

definition policies :: "int \<Rightarrow> ('a pstate_scheme \<Rightarrow> int \<times> 'a pstate_scheme) option" where
  "policies pl =
     (if pl = 0 then Some uniform_time_dist
      else if pl = 1 then Some priority_scheduling
      else if pl = 2 then Some dynamic_tickets_allc
      else None)"

definition policy :: "int \<Rightarrow> 'a pstate_scheme \<Rightarrow> ('a pstate_scheme, unit) outcome" where
  "policy pl s =
     (let s1 = s\<lparr>npolicy := pl\<rparr>
      in case policies pl of None \<Rightarrow> Undef | Some f \<Rightarrow> Ret () (snd (f s1)))"

definition set_priority :: "int \<Rightarrow> 'a pstate_scheme \<Rightarrow> ('a pstate_scheme, unit) outcome" where
  "set_priority pr s =
     (if npolicy s = 1
      then (case curproc s of None \<Rightarrow> Undef
            | Some i \<Rightarrow> Ret () (upd_proc i (\<lambda>p. p\<lparr>p_priority := pr\<rparr>) s))
      else Ret () s)"

subsection \<open>The pseudo random number generator\<close>

definition PRNG :: "int \<Rightarrow> u32 \<Rightarrow> int \<times> u32" where
  "PRNG bound sd =
     (if bound = 0 then (0, sd)
      else
        let next = sd * 1103515245 + 12345;
            result = next div 65536 mod 2048;
            next = next * 1103515245 + 12345;
            result = push_bit 10 result XOR (next div 65536 mod 1024);
            next = next * 1103515245 + 12345;
            result = push_bit 10 result XOR (next div 65536 mod 1024)
        in (c_rem (sint result) bound, next))"

subsection \<open>The scheduler\<close>

text \<open>The loop over the table that subtracts each runnable process's tickets from the drawn one.\<close>

fun pick :: "proc list \<Rightarrow> int \<Rightarrow> nat \<Rightarrow> nat option" where
  "pick [] ticket i = None"
| "pick (p # ps) ticket i =
     (if p_state p \<noteq> RUNNABLE then pick ps ticket (Suc i)
      else if ticket - p_ntickets p < 0 then Some i
      else pick ps (ticket - p_ntickets p) (Suc i))"

definition switchuvm :: "nat \<Rightarrow> 'a pstate_scheme \<Rightarrow> ('a pstate_scheme, unit) outcome" where
  "switchuvm i s =
     (let p = procs s ! i
      in if p_kstack p = 0 then Panic ''switchuvm: no kstack''
         else if p_pgdir p = 0 then Panic ''switchuvm: no pgdir''
         else popcli ((pushcli s)\<lparr>ts_esp0 := p_kstack p + KSTACKSIZE, cr3 := V2P (p_pgdir p)\<rparr>))"

definition switchkvm :: "'a pstate_scheme \<Rightarrow> 'a pstate_scheme" where
  "switchkvm s = s\<lparr>cr3 := V2P (kpgdir s)\<rparr>"

text \<open>
  One round of the endless loop of \<^verbatim>\<open>scheduler\<close>, with its local variable \<^verbatim>\<open>ntickets\<close> as argument and
  result. When a process is picked the round stops at \<^verbatim>\<open>swtch(&cpu->scheduler, p->context)\<close>, still
  holding the table lock; \<open>scheduler_back\<close> is what follows once the process switches back.
\<close>

definition scheduler_tickets :: "int \<Rightarrow> 'a pstate_scheme \<Rightarrow> int \<times> 'a pstate_scheme" where
  "scheduler_tickets ntk s = (if ntk = 0 then uniform_time_dist s else (getTickets s, s))"

definition scheduler_draw ::
    "int \<Rightarrow> 'a pstate_scheme \<Rightarrow> ('a pstate_scheme, int \<times> nat option) outcome" where
  "scheduler_draw ntk s =
     (case PRNG ntk (seed s) of (ticket, sd) \<Rightarrow>
        let s = s\<lparr>seed := sd\<rparr>
        in case pick (procs s) ticket 0 of
             None \<Rightarrow> obind (release PTABLE s) (\<lambda>_. Ret (ntk, None))
           | Some i \<Rightarrow>
               obind (switchuvm i (s\<lparr>curproc := Some i\<rparr>)) (\<lambda>_ s.
               Ret (ntk, Some i) (upd_proc i (\<lambda>p. p\<lparr>p_state := RUNNING\<rparr>) s)))"

definition scheduler_round ::
    "int \<Rightarrow> 'a pstate_scheme \<Rightarrow> ('a pstate_scheme, int \<times> nat option) outcome" where
  "scheduler_round ntk s =
     obind (acquire PTABLE (sti s)) (\<lambda>_ s.
     case scheduler_tickets ntk s of (ntk, s) \<Rightarrow> scheduler_draw ntk s)"

definition scheduler_back :: "'a pstate_scheme \<Rightarrow> ('a pstate_scheme, unit) outcome" where
  "scheduler_back s = release PTABLE ((switchkvm s)\<lparr>curproc := None\<rparr>)"

subsection \<open>Giving up the CPU\<close>

definition sched :: "'a pstate_scheme \<Rightarrow> ('a pstate_scheme, unit) outcome" where
  "sched s =
     (if \<not> holding PTABLE s then Panic ''sched ptable.lock''
      else if ncli s \<noteq> 1 then Panic ''sched locks''
      else case curproc s of
        None \<Rightarrow> Undef
      | Some i \<Rightarrow>
          if p_state (procs s ! i) = RUNNING then Panic ''sched running''
          else if fl_if s then Panic ''sched interruptible''
          else Sleep (upd_proc i (\<lambda>p. p\<lparr>p_intena := intena s\<rparr>) s))"

text \<open>What \<^verbatim>\<open>sched\<close> does after the process is scheduled again: \<^verbatim>\<open>cpu->intena = intena\<close>.\<close>

definition sched_resume :: "'a pstate_scheme \<Rightarrow> 'a pstate_scheme" where
  "sched_resume s = s\<lparr>intena := p_intena (procs s ! the (curproc s))\<rparr>"

definition yield :: "'a pstate_scheme \<Rightarrow> ('a pstate_scheme, unit) outcome" where
  "yield s =
     obind (acquire PTABLE s) (\<lambda>_ s.
     case curproc s of
       None \<Rightarrow> Undef
     | Some i \<Rightarrow>
         let s = upd_proc i (\<lambda>p. p\<lparr>p_state := RUNNABLE\<rparr>) s;
             s = (if npolicy s = 2 \<and> p_ntickets (procs s ! i) > 1
                  then upd_proc i (\<lambda>p. p\<lparr>p_ntickets := p_ntickets p - 1\<rparr>) s else s)
         in sched s)"

definition yield_resume :: "'a pstate_scheme \<Rightarrow> ('a pstate_scheme, unit) outcome" where
  "yield_resume s = release PTABLE (sched_resume s)"

definition sleep :: "chan \<Rightarrow> lockid \<Rightarrow> 'a pstate_scheme \<Rightarrow> ('a pstate_scheme, unit) outcome" where
  "sleep ch lk s =
     (case curproc s of
       None \<Rightarrow> Panic ''sleep''
     | Some i \<Rightarrow>
         obind (if lk \<noteq> PTABLE then obind (acquire PTABLE s) (\<lambda>_. release lk) else Ret () s) (\<lambda>_ s.
         let s = upd_proc i (\<lambda>p. p\<lparr>p_chan := ch\<rparr>) s;
             s = upd_proc i (\<lambda>p. p\<lparr>p_state := SLEEPING\<rparr>) s;
             s = (if npolicy s = 2 \<and> p_ntickets (procs s ! i) < 100
                  then upd_proc i (\<lambda>p. p\<lparr>p_ntickets := p_ntickets p + 10\<rparr>) s else s)
         in sched s))"

definition sleep_resume :: "lockid \<Rightarrow> 'a pstate_scheme \<Rightarrow> ('a pstate_scheme, unit) outcome" where
  "sleep_resume lk s =
     (let s = sched_resume s;
          s = upd_proc (the (curproc s)) (\<lambda>p. p\<lparr>p_chan := NoChan\<rparr>) s
      in if lk \<noteq> PTABLE then obind (release PTABLE s) (\<lambda>_. acquire lk) else Ret () s)"

subsection \<open>Waking, killing, accounting\<close>

definition wakeup1 :: "chan \<Rightarrow> 'a pstate_scheme \<Rightarrow> 'a pstate_scheme" where
  "wakeup1 ch s = s\<lparr>procs := map (\<lambda>p.
     if p_state p = SLEEPING \<and> p_chan p = ch then p\<lparr>p_state := RUNNABLE\<rparr> else p) (procs s)\<rparr>"

definition wakeup :: "chan \<Rightarrow> 'a pstate_scheme \<Rightarrow> ('a pstate_scheme, unit) outcome" where
  "wakeup ch s = obind (acquire PTABLE s) (\<lambda>_ s. release PTABLE (wakeup1 ch s))"

definition kill :: "int \<Rightarrow> 'a pstate_scheme \<Rightarrow> ('a pstate_scheme, int) outcome" where
  "kill pid s =
     obind (acquire PTABLE s) (\<lambda>_ s.
     case find_idx (\<lambda>p. p_pid p = pid) (procs s) of
       None \<Rightarrow> obind (release PTABLE s) (\<lambda>_. Ret (- 1))
     | Some i \<Rightarrow>
         let s = upd_proc i (\<lambda>p. p\<lparr>p_killed := True\<rparr>) s;
             s = (if p_state (procs s ! i) = SLEEPING
                  then upd_proc i (\<lambda>p. p\<lparr>p_state := RUNNABLE\<rparr>) s else s)
         in obind (release PTABLE s) (\<lambda>_. Ret 0))"

definition tick_proc :: "proc \<Rightarrow> proc" where
  "tick_proc p =
     (case p_state p of
        RUNNING \<Rightarrow> p\<lparr>p_rutime := p_rutime p + 1\<rparr>
      | RUNNABLE \<Rightarrow> p\<lparr>p_retime := p_retime p + 1\<rparr>
      | SLEEPING \<Rightarrow> p\<lparr>p_stime := p_stime p + 1\<rparr>
      | _ \<Rightarrow> p)"

definition update_times :: "'a pstate_scheme \<Rightarrow> ('a pstate_scheme, unit) outcome" where
  "update_times s =
     obind (acquire PTABLE s) (\<lambda>_ s. release PTABLE (s\<lparr>procs := map tick_proc (procs s)\<rparr>))"

subsection \<open>The policies as maps over the table\<close>

definition runnable :: "proc \<Rightarrow> bool" where
  "runnable p \<longleftrightarrow> p_state p = RUNNABLE"

definition weight :: "proc \<Rightarrow> int" where
  "weight p = (if p_state p = RUNNABLE then p_ntickets p else 0)"

lemma uniform_loop_eq:
  "uniform_loop ps tot =
     (tot + sum_list (map weight (map (\<lambda>p. p\<lparr>p_ntickets := 10\<rparr>) ps)), map (\<lambda>p. p\<lparr>p_ntickets := 10\<rparr>) ps)"
  by (induction ps arbitrary: tot) (simp_all add: weight_def Let_def)

lemma priority_loop_eq:
  "priority_loop ps tot =
     (tot + 10 * int (length (filter runnable ps)),
      map (\<lambda>p. if runnable p then p\<lparr>p_priority := 10, p_ntickets := 10\<rparr> else p\<lparr>p_priority := 10\<rparr>) ps)"
  by (induction ps arbitrary: tot) (simp_all add: runnable_def Let_def)

lemma dynamic_loop_eq:
  "dynamic_loop ps tot =
     (tot + 20 * int (length (filter runnable ps)), map (\<lambda>p. p\<lparr>p_ntickets := 20\<rparr>) ps)"
  by (induction ps arbitrary: tot) (simp_all add: runnable_def Let_def)

lemma getTickets_loop_eq: "getTickets_loop ps tot = tot + sum_list (map weight ps)"
  by (induction ps arbitrary: tot) (simp_all add: weight_def)

lemma getTickets_eq: "getTickets s = sum_list (map weight (procs s))"
  by (simp add: getTickets_def getTickets_loop_eq)

lemma uniform_time_dist_eq:
  "uniform_time_dist s =
     (let s1 = s\<lparr>procs := map (\<lambda>p. p\<lparr>p_ntickets := 10\<rparr>) (procs s)\<rparr> in (getTickets s1, s1))"
  by (simp add: uniform_time_dist_def uniform_loop_eq getTickets_eq Let_def)

lemma priority_scheduling_eq:
  "snd (priority_scheduling s) = s\<lparr>procs := map (\<lambda>p. if runnable p
     then p\<lparr>p_priority := 10, p_ntickets := 10\<rparr> else p\<lparr>p_priority := 10\<rparr>) (procs s)\<rparr>"
  by (simp add: priority_scheduling_def priority_loop_eq)

lemma dynamic_tickets_allc_eq:
  "snd (dynamic_tickets_allc s) = s\<lparr>procs := map (\<lambda>p. p\<lparr>p_ntickets := 20\<rparr>) (procs s)\<rparr>"
  by (simp add: dynamic_tickets_allc_def dynamic_loop_eq)

subsection \<open>The lottery\<close>

text \<open>Tickets of the processes before entry \<open>k\<close>: the left end of its interval.\<close>

definition below :: "proc list \<Rightarrow> nat \<Rightarrow> int" where
  "below ps k = sum_list (map weight (take k ps))"

lemma below_0 [simp]: "below ps 0 = 0"
  by (simp add: below_def)

lemma below_Cons_Suc [simp]: "below (p # ps) (Suc k) = weight p + below ps k"
  by (simp add: below_def)

lemma below_Suc: "k < length ps \<Longrightarrow> below ps (Suc k) = below ps k + weight (ps ! k)"
  by (simp add: below_def take_Suc_conv_app_nth)

lemma below_length: "below ps (length ps) = sum_list (map weight ps)"
  by (simp add: below_def)

lemma below_nonneg: "(\<forall>p \<in> set ps. 0 \<le> weight p) \<Longrightarrow> 0 \<le> below ps k"
  unfolding below_def by (rule sum_list_nonneg) (auto dest: in_set_takeD)

lemma pick_Some_iff:
  assumes "\<forall>p \<in> set ps. 0 \<le> weight p" and "0 \<le> t"
  shows "pick ps t i = Some (i + k) \<longleftrightarrow> k < length ps \<and> below ps k \<le> t \<and> t < below ps (Suc k)"
  using assms
proof (induction ps arbitrary: t i k)
  case Nil
  then show ?case by simp
next
  case (Cons p ps)
  have nn: "\<forall>p \<in> set ps. 0 \<le> weight p" using Cons.prems by simp
  have IH: "0 \<le> u \<Longrightarrow> pick ps u (Suc i) = Some (Suc i + m) \<longleftrightarrow>
      m < length ps \<and> below ps m \<le> u \<and> u < below ps (Suc m)" for u m
    using Cons.IH [OF nn] .
  have low: "0 \<le> below ps m" for m using below_nonneg [OF nn] .
  have ge: "pick ps u (Suc i) = Some j \<Longrightarrow> Suc i \<le> j" for u j
    by (induction ps arbitrary: u i) (auto split: if_splits dest: Suc_leD)
  show ?case
  proof (cases k)
    case 0
    have "pick ps u (Suc i) \<noteq> Some i" for u using ge [of u i] by auto
    with 0 Cons.prems show ?thesis by (auto simp: weight_def)
  next
    case (Suc m)
    with IH [of t m] IH [of "t - p_ntickets p" m] low [of m] Cons.prems show ?thesis
      by (auto simp: weight_def)
  qed
qed

lemma pick_Some_lottery:
  assumes "\<forall>p \<in> set ps. 0 \<le> weight p" and "k < length ps"
  shows "{t. 0 \<le> t \<and> t < sum_list (map weight ps) \<and> pick ps t 0 = Some k} = {below ps k ..< below ps (Suc k)}"
proof -
  have "below ps (Suc k) \<le> sum_list (map weight ps)"
  proof -
    have "sum_list (map weight ps) = below ps (Suc k) + sum_list (map weight (drop (Suc k) ps))"
      unfolding below_def by (metis append_take_drop_id map_append sum_list_append)
    moreover have "0 \<le> sum_list (map weight (drop (Suc k) ps))"
      using assms(1) by (intro sum_list_nonneg) (auto dest: in_set_dropD)
    ultimately show ?thesis by simp
  qed
  moreover have "0 \<le> below ps k" using below_nonneg [OF assms(1)] .
  ultimately show ?thesis
    using pick_Some_iff [OF assms(1), of _ 0 k] assms(2) by auto
qed

lemma pick_total:
  assumes "\<forall>p \<in> set ps. 0 \<le> weight p" and "0 \<le> t" and "t < sum_list (map weight ps)"
  shows "\<exists>k. pick ps t 0 = Some k"
  using assms
proof (induction ps arbitrary: t)
  case Nil
  then show ?case by simp
next
  case (Cons p ps)
  have shift: "pick qs u (Suc i) = map_option Suc (pick qs u i)" for qs u i
    by (induction qs arbitrary: u i) auto
  from Cons show ?case
    by (auto simp: shift weight_def)
qed

lemma pick_runnable: "pick ps t i = Some j \<Longrightarrow> i \<le> j \<and> j < i + length ps \<and> p_state (ps ! (j - i)) = RUNNABLE"
proof (induction ps arbitrary: t i)
  case Nil
  then show ?case by simp
next
  case (Cons p ps)
  show ?case
  proof (cases "pick ps t (Suc i) = Some j \<or> pick ps (t - p_ntickets p) (Suc i) = Some j")
    case True
    then have "Suc i \<le> j \<and> j < Suc i + length ps \<and> p_state (ps ! (j - Suc i)) = RUNNABLE"
      using Cons.IH by blast
    then show ?thesis by (simp add: nth_Cons' Suc_diff_Suc)
  next
    case False
    with Cons.prems show ?thesis by (auto split: if_splits)
  qed
qed

subsection \<open>The range of the generator\<close>

lemma unat_xor_less:
  fixes x y :: u32
  assumes "unat x < 2 ^ k" and "unat y < 2 ^ k"
  shows "unat (x XOR y) < 2 ^ k"
proof -
  have "take_bit k (unat x XOR unat y) = unat x XOR unat y"
    using assms by (simp add: take_bit_xor take_bit_nat_eq_self)
  then show ?thesis by (metis unsigned_xor_eq take_bit_nat_eq_self_iff)
qed

lemma push_bit_10_less:
  fixes x :: u32
  assumes "unat x < 2 ^ k" and "k \<le> 21"
  shows "unat (push_bit 10 x) < 2 ^ (k + 10)"
proof -
  have "(2::nat) ^ k \<le> 2 ^ 21" using assms(2) by (intro power_increasing) simp_all
  with assms(1) have "unat x * 1024 < 4294967296" by simp
  then have "unat (push_bit 10 x) = unat x * 1024"
    by (simp add: push_bit_eq_mult unat_word_ariths)
  with assms(1) show ?thesis by (simp add: power_add)
qed

lemma PRNG_range:
  assumes "0 < bound"
  shows "0 \<le> fst (PRNG bound sd) \<and> fst (PRNG bound sd) < bound"
proof -
  have small: "unat (x mod m :: u32) < unat m" if "0 < m" for x m :: u32
    using that by (simp add: unat_mod_distrib word_less_nat_alt)
  define n1 where "n1 = sd * 1103515245 + (12345 :: u32)"
  define n2 where "n2 = n1 * 1103515245 + (12345 :: u32)"
  define n3 where "n3 = n2 * 1103515245 + (12345 :: u32)"
  define r1 where "r1 = n1 div 65536 mod 2048"
  define r2 where "r2 = push_bit 10 r1 XOR (n2 div 65536 mod 1024)"
  define r3 where "r3 = push_bit 10 r2 XOR (n3 div 65536 mod 1024)"
  have r1: "unat r1 < 2 ^ 11" using small [of 2048] by (simp add: r1_def)
  have m2: "unat (n2 div 65536 mod 1024) < 1024" and m3: "unat (n3 div 65536 mod 1024) < 1024"
    using small [of 1024] by simp_all
  have "unat (push_bit 10 r1) < 2 ^ 21" using push_bit_10_less [OF r1] by simp
  then have r2: "unat r2 < 2 ^ 21"
    using unat_xor_less [of "push_bit 10 r1" 21 "n2 div 65536 mod 1024"] m2
    by (simp add: r2_def)
  have "unat (push_bit 10 r2) < 2 ^ 31" using push_bit_10_less [OF r2] by simp
  then have r3: "unat r3 < 2 ^ 31"
    using unat_xor_less [of "push_bit 10 r2" 31 "n3 div 65536 mod 1024"] m3
    by (simp add: r3_def)
  then have "0 \<le> sint r3"
    by (intro sint_nonneg) simp
  moreover have "PRNG bound sd = (c_rem (sint r3) bound, n3)"
    using assms by (simp add: PRNG_def Let_def r3_def r2_def r1_def n3_def n2_def n1_def)
  ultimately show ?thesis using assms by (simp add: c_rem_nonneg)
qed

subsection \<open>Runs of the scheduler's operations\<close>

text \<open>The operations that the scheduler and running processes perform on the table.\<close>

datatype sched_op =
    OpRound int | OpBack | OpYield | OpYieldResume | OpSleep chan lockid | OpSleepResume lockid
  | OpWakeup chan | OpKill int | OpPolicy int | OpPriority int | OpTick

fun sched_exec :: "sched_op \<Rightarrow> 'a pstate_scheme \<Rightarrow> ('a pstate_scheme, unit) outcome" where
  "sched_exec (OpRound n) s = obind (scheduler_round n s) (\<lambda>_. Ret ())"
| "sched_exec OpBack s = scheduler_back s"
| "sched_exec OpYield s = yield s"
| "sched_exec OpYieldResume s = yield_resume s"
| "sched_exec (OpSleep ch lk) s = sleep ch lk s"
| "sched_exec (OpSleepResume lk) s = sleep_resume lk s"
| "sched_exec (OpWakeup ch) s = wakeup ch s"
| "sched_exec (OpKill pid) s = obind (kill pid s) (\<lambda>_. Ret ())"
| "sched_exec (OpPolicy pl) s = policy pl s"
| "sched_exec (OpPriority pr) s = set_priority pr s"
| "sched_exec OpTick s = update_times s"

inductive sched_run :: "'a pstate_scheme \<Rightarrow> 'a pstate_scheme \<Rightarrow> bool" where
  none: "sched_run s s"
| ret: "sched_run s t \<Longrightarrow> sched_exec oper t = Ret () u \<Longrightarrow> sched_run s u"
| switch: "sched_run s t \<Longrightarrow> sched_exec oper t = Sleep u \<Longrightarrow> sched_run s u"

definition all_procs :: "(proc \<Rightarrow> bool) \<Rightarrow> nat \<Rightarrow> 'a pstate_scheme \<Rightarrow> bool" where
  "all_procs Q len s \<longleftrightarrow> length (procs s) = len \<and> (\<forall>p \<in> set (procs s). Q p)"

lemma all_procs_upd_proc:
  assumes "all_procs Q len s" and "\<And>p. p = procs s ! i \<Longrightarrow> Q p \<Longrightarrow> Q (f p)"
  shows "all_procs Q len (upd_proc i f s)"
proof (cases "i < length (procs s)")
  case True
  with assms show ?thesis
    unfolding all_procs_def upd_proc_def by (auto dest!: set_update_subset_insert [THEN subsetD])
next
  case False
  with assms(1) show ?thesis by (simp add: all_procs_def upd_proc_def list_update_beyond)
qed

lemma all_procs_map:
  "all_procs Q len s \<Longrightarrow> (\<And>p. Q p \<Longrightarrow> Q (f p)) \<Longrightarrow> all_procs Q len (s\<lparr>procs := map f (procs s)\<rparr>)"
  by (simp add: all_procs_def)

lemma procs_pushcli [simp]: "procs (pushcli s) = procs s"
  by (simp add: kern_simps)

lemma osat_procs_popcli: "osat (\<lambda>t. procs t = procs s) (popcli s)"
  by (simp add: kern_simps)

lemma osat_procs_acquire: "osat (\<lambda>t. procs t = procs s) (acquire lk s)"
  by (simp add: kern_simps)

lemma osat_procs_release: "osat (\<lambda>t. procs t = procs s) (release lk s)"
  by (simp add: kern_simps)

text \<open>
  A contract for invariants of single table entries: whatever is stable under the field updates
  that the operations perform holds along every run.
\<close>

locale proc_entry_inv =
  fixes Q :: "proc \<Rightarrow> bool"
  assumes Q_state: "Q p \<Longrightarrow> Q (p\<lparr>p_state := st\<rparr>)"
    and Q_chan: "Q p \<Longrightarrow> Q (p\<lparr>p_chan := ch\<rparr>)"
    and Q_killed: "Q p \<Longrightarrow> Q (p\<lparr>p_killed := k\<rparr>)"
    and Q_intena: "Q p \<Longrightarrow> Q (p\<lparr>p_intena := e\<rparr>)"
    and Q_priority: "Q p \<Longrightarrow> Q (p\<lparr>p_priority := pr\<rparr>)"
    and Q_tick: "Q p \<Longrightarrow> Q (tick_proc p)"
    and Q_set: "Q p \<Longrightarrow> v = 10 \<or> v = 20 \<Longrightarrow> Q (p\<lparr>p_ntickets := v\<rparr>)"
    and Q_dec: "Q p \<Longrightarrow> 1 < p_ntickets p \<Longrightarrow> Q (p\<lparr>p_ntickets := p_ntickets p - 1\<rparr>)"
    and Q_inc: "Q p \<Longrightarrow> p_ntickets p < 100 \<Longrightarrow> Q (p\<lparr>p_ntickets := p_ntickets p + 10\<rparr>)"
begin

lemma acquire_inv: "all_procs Q len s \<Longrightarrow> osat (all_procs Q len) (acquire lk s)"
  using osat_procs_acquire [of s lk] by (rule osat_mono) (simp add: all_procs_def)

lemma release_inv: "all_procs Q len s \<Longrightarrow> osat (all_procs Q len) (release lk s)"
  using osat_procs_release [of s lk] by (rule osat_mono) (simp add: all_procs_def)

lemma popcli_inv: "all_procs Q len s \<Longrightarrow> osat (all_procs Q len) (popcli s)"
  using osat_procs_popcli [of s] by (rule osat_mono) (simp add: all_procs_def)

lemma obind_inv:
  "osat (all_procs Q len) m \<Longrightarrow> (\<And>a s. all_procs Q len s \<Longrightarrow> osat (all_procs Q len) (f a s)) \<Longrightarrow>
   osat (all_procs Q len) (obind m f)"
  by (rule osat_obind)

lemma sched_inv: "all_procs Q len s \<Longrightarrow> osat (all_procs Q len) (sched s)"
  by (auto simp: sched_def intro!: all_procs_upd_proc Q_intena split: option.split)

lemma uniform_inv: "all_procs Q len s \<Longrightarrow> all_procs Q len (snd (uniform_time_dist s))"
  by (simp add: uniform_time_dist_eq Let_def all_procs_map Q_set)

lemma policy_inv: "all_procs Q len s \<Longrightarrow> osat (all_procs Q len) (policy pl s)"
proof -
  assume "all_procs Q len s"
  then have s: "all_procs Q len (s\<lparr>npolicy := pl\<rparr>)" by (simp add: all_procs_def)
  then have "all_procs Q len (snd (dynamic_tickets_allc (s\<lparr>npolicy := pl\<rparr>)))"
    unfolding dynamic_tickets_allc_eq by (rule all_procs_map) (simp add: Q_set)
  moreover have "all_procs Q len (snd (priority_scheduling (s\<lparr>npolicy := pl\<rparr>)))"
    unfolding priority_scheduling_eq using s by (rule all_procs_map) (simp add: Q_set Q_priority)
  ultimately show ?thesis
    using uniform_inv [OF s] by (auto simp: policy_def policies_def Let_def)
qed

lemma switchuvm_inv: "all_procs Q len s \<Longrightarrow> osat (all_procs Q len) (switchuvm i s)"
  unfolding switchuvm_def Let_def by (simp add: popcli_inv all_procs_def)

lemma draw_inv: "all_procs Q len s \<Longrightarrow> osat (all_procs Q len) (scheduler_draw n s)"
proof -
  assume s: "all_procs Q len s"
  have "all_procs Q len (s\<lparr>seed := sd\<rparr>)" "all_procs Q len (s\<lparr>seed := sd, curproc := c\<rparr>)" for sd c
    using s by (simp_all add: all_procs_def)
  then show ?thesis
    by (auto simp: scheduler_draw_def Let_def split_beta
        intro!: obind_inv release_inv switchuvm_inv all_procs_upd_proc Q_state split: option.split)
qed

lemma round_inv: "all_procs Q len s \<Longrightarrow> osat (all_procs Q len) (scheduler_round n s)"
  unfolding scheduler_round_def
proof (rule obind_inv)
  assume "all_procs Q len s"
  then show "osat (all_procs Q len) (acquire PTABLE (sti s))"
    by (intro acquire_inv) (simp add: sti_def all_procs_def)
next
  fix a :: unit and t :: "'a pstate_scheme"
  assume "all_procs Q len t"
  then show "osat (all_procs Q len) (case scheduler_tickets n t of (ntk, s) \<Rightarrow> scheduler_draw ntk s)"
    using uniform_inv [of len t] by (simp add: scheduler_tickets_def draw_inv split_beta)
qed

lemma exec_inv: "all_procs Q len s \<Longrightarrow> osat (all_procs Q len) (sched_exec oper s)"
proof (cases oper)
  case (OpRound n)
  assume "all_procs Q len s"
  with OpRound show ?thesis by (simp add: obind_inv round_inv)
next
  case OpBack
  assume "all_procs Q len s"
  with OpBack show ?thesis
    by (simp add: scheduler_back_def switchkvm_def release_inv all_procs_def)
next
  case OpYield
  assume "all_procs Q len s"
  with OpYield show ?thesis
    by (auto simp: yield_def Let_def intro!: obind_inv acquire_inv sched_inv all_procs_upd_proc Q_state Q_dec
        split: option.split)
next
  case OpYieldResume
  assume "all_procs Q len s"
  with OpYieldResume show ?thesis
    by (simp add: yield_resume_def sched_resume_def release_inv all_procs_def)
next
  case (OpSleep ch lk)
  assume "all_procs Q len s"
  with OpSleep show ?thesis
    by (auto simp: sleep_def Let_def intro!: obind_inv acquire_inv release_inv sched_inv all_procs_upd_proc
        Q_state Q_chan Q_inc split: option.split)
next
  case (OpSleepResume lk)
  assume "all_procs Q len s"
  then have "all_procs Q len (sched_resume s)" by (simp add: sched_resume_def all_procs_def)
  with OpSleepResume show ?thesis
    by (auto simp: sleep_resume_def Let_def intro!: obind_inv acquire_inv release_inv all_procs_upd_proc Q_chan)
next
  case (OpWakeup ch)
  assume "all_procs Q len s"
  with OpWakeup show ?thesis
    by (auto simp: wakeup_def wakeup1_def intro!: obind_inv acquire_inv release_inv all_procs_map Q_state)
next
  case (OpKill pid)
  assume "all_procs Q len s"
  with OpKill show ?thesis
    by (auto simp: kill_def Let_def intro!: obind_inv acquire_inv release_inv all_procs_upd_proc Q_state Q_killed
        split: option.split)
next
  case (OpPolicy pl)
  assume "all_procs Q len s"
  with OpPolicy show ?thesis by (simp add: policy_inv)
next
  case (OpPriority pr)
  assume "all_procs Q len s"
  with OpPriority show ?thesis
    by (auto simp: set_priority_def intro!: all_procs_upd_proc Q_priority split: option.split)
next
  case OpTick
  assume "all_procs Q len s"
  with OpTick show ?thesis
    by (auto simp: update_times_def intro!: obind_inv acquire_inv release_inv all_procs_map Q_tick)
qed

lemma run_inv: "sched_run s t \<Longrightarrow> all_procs Q len s \<Longrightarrow> all_procs Q len t"
proof (induction rule: sched_run.induct)
  case (ret s t oper u)
  then show ?case using exec_inv [of len t oper] by simp
next
  case (switch s t oper u)
  then show ?case using exec_inv [of len t oper] by simp
qed simp

end

subsection \<open>Waking up\<close>

lemma pstate_acquired [simp]:
  "curproc (acquired s lk) = curproc s" "procs (acquired s lk) = procs s" "npolicy (acquired s lk) = npolicy s"
  by (simp_all add: acquired_def)

lemma cpu_ok_procs [simp]: "cpu_ok (s\<lparr>procs := ps\<rparr>) = cpu_ok s"
  by (simp add: cpu_ok_def)

lemma wakeup_ok:
  assumes "cpu_ok s" and "lock_free (locks s PTABLE)"
  shows "wakeup ch s = Ret () (wakeup1 ch s)"
proof -
  have "wakeup1 ch (acquired s PTABLE) = acquired (wakeup1 ch s) PTABLE"
    by (cases s) (simp add: wakeup1_def acquired_def)
  moreover have "cpu_ok (wakeup1 ch s)" "lock_free (locks (wakeup1 ch s) PTABLE)"
    using assms by (simp_all add: wakeup1_def)
  ultimately show ?thesis using assms by (simp add: wakeup_def acquire_ok release_acquired)
qed

subsection \<open>One round of the scheduler\<close>

lemma acquire_free: "ncli s = 0 \<Longrightarrow> lock_free (locks s lk) \<Longrightarrow> acquire lk s = Ret () (held_by s lk)"
  by (cases s) (simp add: kern_simps lock_free_def held_by_def)

lemma switchuvm_held:
  assumes "0 < ncli s" and "\<not> fl_if s" and "p_kstack (procs s ! i) \<noteq> 0" and "p_pgdir (procs s ! i) \<noteq> 0"
  shows "switchuvm i s = Ret () (s\<lparr>ts_esp0 := p_kstack (procs s ! i) + KSTACKSIZE,
      cr3 := V2P (p_pgdir (procs s ! i))\<rparr>)"
  using assms by (cases s) (simp add: switchuvm_def kern_simps)

lemma held_by_simps [simp]:
  "procs (held_by s lk) = procs s" "ncli (held_by s lk) = 1" "fl_if (held_by s lk) = False"
  "seed (held_by s lk) = seed s" "curproc (held_by s lk) = curproc s" "cpu_id (held_by s lk) = cpu_id s"
  "intena (held_by s lk) = fl_if s" "npolicy (held_by s lk) = npolicy s"
  by (simp_all add: held_by_def)

lemma locks_held_by:
  "locks (held_by s lk) = (locks s)(lk := (locks s lk)\<lparr>sl_locked := 1, sl_cpu := Some (cpu_id s)\<rparr>)"
  by (simp add: held_by_def)

lemma sti_simps [simp]:
  "procs (sti s) = procs s" "ncli (sti s) = ncli s" "locks (sti s) = locks s" "cpu_id (sti s) = cpu_id s"
  "fl_if (sti s) = True"
  by (simp_all add: sti_def)

lemma scheduler_tickets_props:
  assumes "ntk \<noteq> 0 \<longrightarrow> (\<forall>p \<in> set (procs s). runnable p \<longrightarrow> 1 \<le> p_ntickets p)"
    and "scheduler_tickets ntk s = (n, t)"
  shows "n = getTickets t" and "\<forall>p \<in> set (procs t). runnable p \<longrightarrow> 1 \<le> p_ntickets p"
    and "\<exists>f. procs t = map f (procs s) \<and> (\<forall>p. \<exists>v. f p = p\<lparr>p_ntickets := v\<rparr>)"
    and "\<exists>ps. t = s\<lparr>procs := ps\<rparr>"
proof -
  show "n = getTickets t"
    using assms(2) by (auto simp: scheduler_tickets_def uniform_time_dist_eq Let_def split: if_splits)
  show "\<forall>p \<in> set (procs t). runnable p \<longrightarrow> 1 \<le> p_ntickets p"
    using assms by (auto simp: scheduler_tickets_def uniform_time_dist_eq Let_def split: if_splits)
  show "\<exists>f. procs t = map f (procs s) \<and> (\<forall>p. \<exists>v. f p = p\<lparr>p_ntickets := v\<rparr>)"
  proof (cases "ntk = 0")
    case True
    with assms(2) have "procs t = map (\<lambda>p. p\<lparr>p_ntickets := 10\<rparr>) (procs s)"
      by (auto simp: scheduler_tickets_def uniform_time_dist_eq Let_def)
    then show ?thesis by blast
  next
    case False
    with assms(2) have "procs t = map (\<lambda>p. p) (procs s)"
      by (simp add: scheduler_tickets_def)
    moreover have "\<exists>v. p = p\<lparr>p_ntickets := v\<rparr>" for p :: proc
      by (rule exI [of _ "p_ntickets p"]) simp
    ultimately show ?thesis by blast
  qed
  show "\<exists>ps. t = s\<lparr>procs := ps\<rparr>"
  proof (cases "ntk = 0")
    case True
    with assms(2) show ?thesis
      by (auto simp: scheduler_tickets_def uniform_time_dist_eq Let_def)
  next
    case False
    with assms(2) have "t = s\<lparr>procs := procs s\<rparr>" by (simp add: scheduler_tickets_def)
    then show ?thesis by blast
  qed
qed

lemma runnable_total_pos:
  assumes "\<forall>p \<in> set ps. runnable p \<longrightarrow> 1 \<le> p_ntickets p" and "\<exists>p \<in> set ps. runnable p"
  shows "0 < sum_list (map weight ps)" and "\<forall>p \<in> set ps. 0 \<le> weight p"
proof -
  show nn: "\<forall>p \<in> set ps. 0 \<le> weight p" using assms(1) by (force simp: weight_def runnable_def)
  from assms(2) obtain p where p: "p \<in> set ps" "runnable p" by blast
  then have "1 \<le> weight p" using assms(1) by (simp add: weight_def runnable_def)
  also have "weight p \<le> sum_list (map weight ps)"
    using p(1) nn by (intro member_le_sum_list) auto
  finally show "0 < sum_list (map weight ps)" by simp
qed

lemma scheduler_draw_picks:
  assumes "\<forall>p \<in> set (procs s). runnable p \<longrightarrow> 1 \<le> p_ntickets p" and "\<exists>p \<in> set (procs s). runnable p"
    and "\<forall>p \<in> set (procs s). runnable p \<longrightarrow> p_kstack p \<noteq> 0 \<and> p_pgdir p \<noteq> 0"
    and "0 < ncli s" and "\<not> fl_if s"
  shows "\<exists>i sd. i < length (procs s) \<and> runnable (procs s ! i) \<and>
    scheduler_draw (getTickets s) s = Ret (getTickets s, Some i)
      (upd_proc i (\<lambda>p. p\<lparr>p_state := RUNNING\<rparr>) (s\<lparr>seed := sd, curproc := Some i,
        ts_esp0 := p_kstack (procs s ! i) + KSTACKSIZE, cr3 := V2P (p_pgdir (procs s ! i))\<rparr>))"
proof -
  obtain t sd where r: "PRNG (getTickets s) (seed s) = (t, sd)" by force
  note pos = runnable_total_pos [OF assms(1,2)]
  from PRNG_range [of "getTickets s" "seed s"] pos(1) r have "0 \<le> t" "t < sum_list (map weight (procs s))"
    by (simp_all add: getTickets_eq)
  with pick_total [OF pos(2)] obtain i where i: "pick (procs s) t 0 = Some i" by blast
  from pick_runnable [OF i] have b: "i < length (procs s)" "runnable (procs s ! i)"
    by (simp_all add: runnable_def)
  with assms(3) have "p_kstack (procs s ! i) \<noteq> 0" "p_pgdir (procs s ! i) \<noteq> 0" by simp_all
  with i r b assms(4,5) show ?thesis
    by (auto simp: scheduler_draw_def Let_def switchuvm_held)
qed

subsection \<open>Properties\<close>

text \<open>Zero-initialised static storage, and the state the boot processor starts scheduling from.\<close>

definition bss_proc :: proc where
  "bss_proc = \<lparr>p_sz = 0, p_pgdir = 0, p_kstack = 0, p_state = UNUSED, p_pid = 0, p_parent = None,
     p_tf = \<lparr>tf_edi = 0, tf_esi = 0, tf_ebp = 0, tf_oesp = 0, tf_ebx = 0, tf_edx = 0, tf_ecx = 0,
       tf_eax = 0, tf_gs = 0, tf_fs = 0, tf_es = 0, tf_ds = 0, tf_trapno = 0, tf_err = 0, tf_eip = 0,
       tf_cs = 0, tf_eflags = 0, tf_esp = 0, tf_ss = 0\<rparr>,
     p_context = \<lparr>cx_edi = 0, cx_esi = 0, cx_ebx = 0, cx_ebp = 0, cx_eip = 0\<rparr>,
     p_chan = NoChan, p_killed = False, p_ofile = replicate NOFILE None, p_cwd = None,
     p_name = replicate 16 0, p_exit_status = 0, p_ntickets = 0, p_priority = 0, p_ctime = 0,
     p_ttime = 0, p_stime = 0, p_retime = 0, p_rutime = 0, p_intena = False, p_locals = []\<rparr>"

definition boot_pstate :: pstate where
  "boot_pstate = \<lparr>cpu_id = 0, ncli = 0, intena = False, fl_if = False,
     locks = (\<lambda>_. \<lparr>sl_locked = 0, sl_name = [], sl_cpu = None\<rparr>),
     procs = replicate NPROC bss_proc, curproc = None, initproc = None, nextpid = 1, npolicy = 0,
     ticks = 0, seed = 5323, cr3 = 0, ts_esp0 = 0, kpgdir = 0x803FF000\<rparr>"

text \<open>Two runnable processes in an otherwise empty table.\<close>

definition two_runnable :: pstate where
  "two_runnable = boot_pstate\<lparr>procs := (replicate NPROC bss_proc)
     [0 := bss_proc\<lparr>p_state := RUNNABLE, p_kstack := 0x80400000, p_pgdir := 0x80401000, p_ntickets := 10\<rparr>,
      3 := bss_proc\<lparr>p_state := RUNNABLE, p_kstack := 0x80402000, p_pgdir := 0x80403000, p_ntickets := 30\<rparr>]\<rparr>"

text \<open>
  C9: the lottery is fair. Among the ticket numbers that can be drawn, the loop of \<^verbatim>\<open>scheduler\<close> maps
  exactly \<^verbatim>\<open>p->ntickets\<close> of them to a runnable process \<open>p\<close> and none to any other entry.
\<close>

theorem lottery_fair:
  assumes "\<forall>p \<in> set (procs s). runnable p \<longrightarrow> 0 \<le> p_ntickets p" and "i < length (procs s)"
  shows "card {t. 0 \<le> t \<and> t < getTickets s \<and> pick (procs s) t 0 = Some i} =
    (if runnable (procs s ! i) then nat (p_ntickets (procs s ! i)) else 0)"
proof -
  have nn: "\<forall>p \<in> set (procs s). 0 \<le> weight p"
    using assms(1) by (auto simp: weight_def runnable_def)
  show ?thesis
    unfolding getTickets_eq pick_Some_lottery [OF nn assms(2)]
    using assms(2) by (simp add: below_Suc weight_def runnable_def)
qed

theorem lottery_fair_witness:
  "card {t. 0 \<le> t \<and> t < getTickets two_runnable \<and> pick (procs two_runnable) t 0 = Some 3} = 30"
proof -
  have "\<forall>p \<in> set (procs two_runnable). runnable p \<longrightarrow> 0 \<le> p_ntickets p"
    by (auto simp: two_runnable_def bss_proc_def boot_pstate_def dest!: set_update_subset_insert [THEN subsetD])
  moreover have "3 < length (procs two_runnable)" by (simp add: two_runnable_def)
  moreover have "procs two_runnable ! 3 = bss_proc\<lparr>p_state := RUNNABLE, p_kstack := 0x80402000, p_pgdir := 0x80403000, p_ntickets := 30\<rparr>"
    by (simp add: two_runnable_def)
  ultimately show ?thesis
    using lottery_fair [of two_runnable 3] by (simp add: runnable_def)
qed

text \<open>
  C13: the scheduler makes progress. Whenever some process is runnable, one round of the loop picks a
  runnable process, whatever number the generator draws: it becomes \<^verbatim>\<open>RUNNING\<close> and the CPU's current
  process, its page table is loaded, the table lock is held for it, and no other process changes
  state.
\<close>

theorem scheduler_round_picks:
  assumes "ncli s = 0" and "lock_free (locks s PTABLE)"
    and "\<exists>p \<in> set (procs s). runnable p"
    and "\<forall>p \<in> set (procs s). runnable p \<longrightarrow> p_kstack p \<noteq> 0 \<and> p_pgdir p \<noteq> 0"
    and "ntk \<noteq> 0 \<longrightarrow> (\<forall>p \<in> set (procs s). runnable p \<longrightarrow> 1 \<le> p_ntickets p)"
  shows "\<exists>n i t. scheduler_round ntk s = Ret (n, Some i) t \<and> i < length (procs s) \<and>
    p_state (procs s ! i) = RUNNABLE \<and> curproc t = Some i \<and> cr3 t = V2P (p_pgdir (procs s ! i)) \<and>
    holding PTABLE t \<and> map p_state (procs t) = (map p_state (procs s))[i := RUNNING]"
proof -
  let ?a = "held_by (sti s) PTABLE"
  obtain n t where nt: "scheduler_tickets ntk ?a = (n, t)" by force
  have ge1: "ntk \<noteq> 0 \<longrightarrow> (\<forall>p \<in> set (procs ?a). runnable p \<longrightarrow> 1 \<le> p_ntickets p)" using assms(5) by simp
  note p = scheduler_tickets_props [OF ge1 nt]
  from p(3) obtain f where f: "procs t = map f (procs s)" "\<forall>p. \<exists>v. f p = p\<lparr>p_ntickets := v\<rparr>" by auto
  have same: "p_state (f q) = p_state q" "p_kstack (f q) = p_kstack q" "p_pgdir (f q) = p_pgdir q" for q
    using spec [OF f(2), of q] by auto
  from p(4) obtain ps where ps: "t = ?a\<lparr>procs := ps\<rparr>" by blast
  have "\<exists>p \<in> set (procs t). runnable p"
    "\<forall>p \<in> set (procs t). runnable p \<longrightarrow> p_kstack p \<noteq> 0 \<and> p_pgdir p \<noteq> 0"
    using assms(3,4) f(1) same by (auto simp: runnable_def)
  moreover have "0 < ncli t" "\<not> fl_if t" using ps by simp_all
  ultimately obtain i sd where i: "i < length (procs t)" "runnable (procs t ! i)"
    "scheduler_draw (getTickets t) t = Ret (getTickets t, Some i)
      (upd_proc i (\<lambda>p. p\<lparr>p_state := RUNNING\<rparr>) (t\<lparr>seed := sd, curproc := Some i,
        ts_esp0 := p_kstack (procs t ! i) + KSTACKSIZE, cr3 := V2P (p_pgdir (procs t ! i))\<rparr>))"
    using scheduler_draw_picks [OF p(2)] by blast
  have "acquire PTABLE (sti s) = Ret () ?a" using assms(1,2) by (simp add: acquire_free)
  with nt i(3) p(1) have round: "scheduler_round ntk s = Ret (getTickets t, Some i)
      (upd_proc i (\<lambda>p. p\<lparr>p_state := RUNNING\<rparr>) (t\<lparr>seed := sd, curproc := Some i,
        ts_esp0 := p_kstack (procs t ! i) + KSTACKSIZE, cr3 := V2P (p_pgdir (procs t ! i))\<rparr>))"
    by (simp add: scheduler_round_def)
  have "map p_state (procs t) = map p_state (procs s)" using f(1) same by simp
  moreover have "i < length (procs s)" using i(1) f(1) by simp
  ultimately show ?thesis
    using i(1,2) f(1) same ps unfolding round
    by (auto simp: upd_proc_def map_update runnable_def holding_def locks_held_by comp_def)
qed

lemma two_runnable_procs:
  "p \<in> set (procs two_runnable) \<Longrightarrow> p = bss_proc \<or> (runnable p \<and> p_kstack p \<noteq> 0 \<and> p_pgdir p \<noteq> 0 \<and> 1 \<le> p_ntickets p)"
  by (auto simp: two_runnable_def bss_proc_def runnable_def dest!: set_update_subset_insert [THEN subsetD])

lemma two_runnable_some: "\<exists>p \<in> set (procs two_runnable). runnable p"
  by (rule bexI [of _ "procs two_runnable ! 3"])
    (simp_all add: two_runnable_def runnable_def set_update_memI)

lemma bss_proc_not_runnable: "\<not> runnable bss_proc"
  by (simp add: runnable_def bss_proc_def)

theorem scheduler_round_picks_witness:
  "\<exists>n i t. scheduler_round 7 two_runnable = Ret (n, Some i) t \<and> p_state (procs two_runnable ! i) = RUNNABLE \<and>
     curproc t = Some i \<and> holding PTABLE t"
proof -
  have "ncli two_runnable = 0" "lock_free (locks two_runnable PTABLE)"
    by (simp_all add: two_runnable_def boot_pstate_def lock_free_def)
  then show ?thesis
    using scheduler_round_picks [of two_runnable 7] two_runnable_some two_runnable_procs
      bss_proc_not_runnable by blast
qed

text \<open>
  C14: tickets stay between 1 and 109. From any state in which they do, no run of scheduling rounds,
  yields, sleeps, wakeups, kills, policy changes, priority calls and clock ticks leaves that range,
  so with a table of \<^verbatim>\<open>NPROC\<close> entries the sum that \<^verbatim>\<open>getTickets\<close> returns stays below 7000 and far
  from overflowing an \<^verbatim>\<open>int\<close>.
\<close>

interpretation tick_range: proc_entry_inv "\<lambda>p. 1 \<le> p_ntickets p \<and> p_ntickets p \<le> 109"
  by unfold_locales (auto simp: tick_proc_def split: procstate.split)

lemma sum_weight_bound:
  "(\<forall>p \<in> set ps. 1 \<le> p_ntickets p \<and> p_ntickets p \<le> 109) \<Longrightarrow>
   0 \<le> sum_list (map weight ps) \<and> sum_list (map weight ps) \<le> 109 * int (length ps)"
  by (induction ps) (auto simp: weight_def)

theorem tickets_in_range:
  assumes "sched_run s t" and "all_procs (\<lambda>p. 1 \<le> p_ntickets p \<and> p_ntickets p \<le> 109) NPROC s"
  shows "all_procs (\<lambda>p. 1 \<le> p_ntickets p \<and> p_ntickets p \<le> 109) NPROC t \<and>
    0 \<le> getTickets t \<and> getTickets t < 7000"
proof -
  have r: "all_procs (\<lambda>p. 1 \<le> p_ntickets p \<and> p_ntickets p \<le> 109) NPROC t"
    using tick_range.run_inv [OF assms(1,2)] .
  with sum_weight_bound [of "procs t"] show ?thesis
    by (auto simp: getTickets_eq all_procs_def)
qed

text \<open>The boot state after the first call of \<^verbatim>\<open>policies[0].fun\<close>, and a policy change from there.\<close>

definition after_uniform :: pstate where
  "after_uniform = boot_pstate\<lparr>procs := replicate NPROC (bss_proc\<lparr>p_ntickets := 10\<rparr>)\<rparr>"

lemma after_uniform_boot: "snd (uniform_time_dist boot_pstate) = after_uniform"
  by (simp add: uniform_time_dist_eq Let_def after_uniform_def boot_pstate_def)

theorem tickets_in_range_witness:
  "sched_run after_uniform (after_uniform\<lparr>npolicy := 2, procs := replicate NPROC (bss_proc\<lparr>p_ntickets := 20\<rparr>)\<rparr>) \<and>
   getTickets (after_uniform\<lparr>npolicy := 2, procs := replicate NPROC (bss_proc\<lparr>p_ntickets := 20\<rparr>)\<rparr>) < 7000"
proof -
  have "sched_exec (OpPolicy 2) after_uniform =
      Ret () (after_uniform\<lparr>npolicy := 2, procs := replicate NPROC (bss_proc\<lparr>p_ntickets := 20\<rparr>)\<rparr>)"
    by (simp add: policy_def policies_def dynamic_tickets_allc_eq after_uniform_def)
  then have run: "sched_run after_uniform
      (after_uniform\<lparr>npolicy := 2, procs := replicate NPROC (bss_proc\<lparr>p_ntickets := 20\<rparr>)\<rparr>)"
    by (rule sched_run.ret [OF sched_run.none])
  moreover have "all_procs (\<lambda>p. 1 \<le> p_ntickets p \<and> p_ntickets p \<le> 109) NPROC after_uniform"
    by (simp add: all_procs_def after_uniform_def)
  ultimately show ?thesis using tickets_in_range by blast
qed

text \<open>
  C15: the priority system call has no effect on scheduling. Whatever value a process passes, the
  tickets and the winner of every draw stay the same, and the next change to the priority policy
  gives the same table as if the call had not been made, because \<^verbatim>\<open>priority_scheduling\<close> resets every
  priority to 10 before it reads it and nothing else reads \<^verbatim>\<open>p->priority\<close>.
\<close>

theorem priority_call_has_no_effect:
  assumes "set_priority pr s = Ret () t"
  shows "getTickets t = getTickets s \<and> (\<forall>n. pick (procs t) n 0 = pick (procs s) n 0) \<and>
    map p_ntickets (procs t) = map p_ntickets (procs s) \<and> policy 1 t = policy 1 s"
proof (cases "npolicy s = 1")
  case False
  with assms show ?thesis by (simp add: set_priority_def)
next
  case True
  with assms obtain i where t: "t = upd_proc i (\<lambda>p. p\<lparr>p_priority := pr\<rparr>) s"
    by (auto simp: set_priority_def split: option.splits)
  have pick_eq: "pick (ps[i := (ps ! i)\<lparr>p_priority := pr\<rparr>]) n k = pick ps n k" for ps n k i
    by (induction ps arbitrary: n k i) (auto split: nat.split)
  have upd: "map f (ps[i := (ps ! i)\<lparr>p_priority := pr\<rparr>]) = map f ps"
    if "\<And>p. f (p\<lparr>p_priority := pr\<rparr>) = f p" for f :: "proc \<Rightarrow> 'z" and ps
  proof (cases "i < length ps")
    case True
    with that show ?thesis by (simp add: map_update list_update_same_conv)
  next
    case False
    then show ?thesis by (simp add: list_update_beyond)
  qed
  have "getTickets t = getTickets s"
    unfolding getTickets_eq t upd_proc_def by (simp add: upd weight_def)
  moreover have "map p_ntickets (procs t) = map p_ntickets (procs s)"
    unfolding t upd_proc_def by (simp add: upd)
  moreover have "policy 1 t = policy 1 s"
    unfolding policy_def policies_def t upd_proc_def
    by (simp add: priority_scheduling_eq upd runnable_def)
  ultimately show ?thesis
    unfolding t upd_proc_def by (simp add: pick_eq)
qed

theorem priority_call_has_no_effect_witness:
  "\<exists>t. set_priority 1000 (two_runnable\<lparr>npolicy := 1, curproc := Some 0\<rparr>) = Ret () t \<and>
     p_priority (procs t ! 0) = 1000 \<and> getTickets t = getTickets (two_runnable\<lparr>npolicy := 1, curproc := Some 0\<rparr>)"
proof -
  let ?s = "two_runnable\<lparr>npolicy := 1, curproc := Some 0\<rparr>"
  obtain t where t: "set_priority 1000 ?s = Ret () t" "t = upd_proc 0 (\<lambda>p. p\<lparr>p_priority := 1000\<rparr>) ?s"
    by (simp add: set_priority_def)
  then have "p_priority (procs t ! 0) = 1000" by (simp add: upd_proc_def two_runnable_def)
  with t priority_call_has_no_effect [OF t(1)] show ?thesis by blast
qed

lemma pick_idle: "\<forall>p \<in> set ps. \<not> runnable p \<Longrightarrow> pick ps n k = None"
  by (induction ps arbitrary: n k) (auto simp: runnable_def)

lemma weight_idle: "\<forall>p \<in> set ps. \<not> runnable p \<Longrightarrow> sum_list (map weight ps) = 0"
  by (induction ps) (auto simp: runnable_def weight_def)

lemma release_idle:
  "ncli s = 0 \<Longrightarrow> lock_free (locks s PTABLE) \<Longrightarrow>
   release PTABLE ((held_by (sti s) PTABLE)\<lparr>procs := ps\<rparr>) =
     Ret () (s\<lparr>procs := ps, fl_if := True, intena := True\<rparr>)"
  by (cases s) (auto simp: kern_simps held_by_def lock_free_def fun_eq_iff)

lemma scheduler_draw_idle:
  assumes "ncli s = 0" and "lock_free (locks s PTABLE)" and "\<forall>p \<in> set ps. \<not> runnable p"
  shows "scheduler_draw 0 ((held_by (sti s) PTABLE)\<lparr>procs := ps\<rparr>) =
    Ret (0, None) (s\<lparr>procs := ps, fl_if := True, intena := True\<rparr>)"
  using assms release_idle [OF assms(1,2), of ps]
  by (simp add: scheduler_draw_def PRNG_def pick_idle held_by_def sti_def)

lemma scheduler_round_idle:
  assumes "ncli s = 0" and "lock_free (locks s PTABLE)" and "\<forall>p \<in> set (procs s). \<not> runnable p"
  shows "scheduler_round ntk s = Ret (0, None)
    (s\<lparr>procs := (if ntk = 0 then map (\<lambda>p. p\<lparr>p_ntickets := 10\<rparr>) (procs s) else procs s),
       fl_if := True, intena := True\<rparr>)"
proof -
  let ?h = "held_by (sti s) PTABLE"
  let ?ps = "if ntk = 0 then map (\<lambda>p. p\<lparr>p_ntickets := 10\<rparr>) (procs s) else procs s"
  have ps: "\<forall>p \<in> set ?ps. \<not> runnable p" using assms(3) by (auto simp: runnable_def)
  have id: "?h = ?h\<lparr>procs := procs s\<rparr>" by (simp add: held_by_def sti_def)
  have w: "getTickets (?h\<lparr>procs := ?ps\<rparr>) = 0"
    using weight_idle [OF ps] by (simp only: getTickets_eq) simp
  have "scheduler_tickets ntk ?h = (0, ?h\<lparr>procs := ?ps\<rparr>)"
  proof (cases "ntk = 0")
    case True
    with w show ?thesis by (simp add: scheduler_tickets_def uniform_time_dist_eq Let_def)
  next
    case False
    with w id show ?thesis by (simp add: scheduler_tickets_def)
  qed
  with assms(1,2) show ?thesis
    by (simp add: scheduler_round_def acquire_free scheduler_draw_idle [OF assms(1,2) ps] del: if_split)
qed

text \<open>
  C16: an idle machine forgets its policy. When no process is runnable a round returns the ticket
  count 0, and the next round then calls \<^verbatim>\<open>policies[0].fun\<close>: every process has 10 tickets again even
  if the current policy is the dynamic one.
\<close>

theorem idle_round_resets_tickets:
  assumes "ncli s = 0" and "lock_free (locks s PTABLE)" and "\<forall>p \<in> set (procs s). \<not> runnable p"
    and "ntk \<noteq> 0"
  shows "\<exists>t u. scheduler_round ntk s = Ret (0, None) t \<and> procs t = procs s \<and>
    scheduler_round 0 t = Ret (0, None) u \<and> npolicy u = npolicy s \<and>
    procs u = map (\<lambda>p. p\<lparr>p_ntickets := 10\<rparr>) (procs s)"
  using assms by (simp add: scheduler_round_idle)

theorem idle_round_resets_tickets_witness:
  "\<exists>t u. scheduler_round 20 (boot_pstate\<lparr>npolicy := 2\<rparr>) = Ret (0, None) t \<and>
    scheduler_round 0 t = Ret (0, None) u \<and> npolicy u = 2 \<and> p_ntickets (procs u ! 0) = 10"
proof -
  have "ncli (boot_pstate\<lparr>npolicy := 2\<rparr>) = 0" "lock_free (locks (boot_pstate\<lparr>npolicy := 2\<rparr>) PTABLE)"
    "\<forall>p \<in> set (procs (boot_pstate\<lparr>npolicy := 2\<rparr>)). \<not> runnable p" "20 \<noteq> (0::int)"
    by (simp_all add: boot_pstate_def lock_free_def runnable_def bss_proc_def)
  from idle_round_resets_tickets [OF this] show ?thesis
    by (auto simp: boot_pstate_def)
qed

end
