(* ===== verification/Ring.thy ===== *)
theory Ring
  imports Params
begin

text \<open>
  Ring buffers indexed by free-running 32-bit counters, as the pipes (\<^verbatim>\<open>pipe.c\<close>, 512 bytes) and the
  console input (\<^verbatim>\<open>console.c\<close>, 128 bytes) use them: the slot of counter \<open>i\<close> is \<^verbatim>\<open>i % size\<close>, and the
  counters wrap around at \<open>2 ^ 32\<close>. The size divides \<open>2 ^ 32\<close>, so the slots stay consistent across the
  wrap-around. The locale \<open>fifo\<close> is the queue contract both provide.
\<close>

definition slot :: "u8 list \<Rightarrow> u32 \<Rightarrow> nat" where
  "slot buf i = unat i mod length buf"

text \<open>The bytes between the counters \<open>r\<close> and \<open>w\<close>, oldest first.\<close>

definition ring :: "u8 list \<Rightarrow> u32 \<Rightarrow> u32 \<Rightarrow> u8 list" where
  "ring buf r w = map (\<lambda>k. buf ! slot buf (r + of_nat k)) [0..<unat (w - r)]"

definition ring_size :: "u8 list \<Rightarrow> bool" where
  "ring_size buf \<longleftrightarrow> 0 < length buf \<and> length buf dvd 4294967296 \<and> length buf < 4294967296"

lemma length_ring [simp]: "length (ring buf r w) = unat (w - r)"
  by (simp add: ring_def)

lemma ring_empty [simp]: "ring buf r r = []"
  by (simp add: ring_def)

lemma slot_less: "ring_size buf \<Longrightarrow> slot buf i < length buf"
  by (simp add: slot_def ring_size_def)

lemma slot_add:
  assumes "ring_size buf"
  shows "slot buf (r + of_nat k) = (unat r + k) mod length buf"
proof -
  have "unat (of_nat k :: u32) = k mod 4294967296" by (simp add: unat_of_nat)
  then have "slot buf (r + of_nat k) = (unat r + k) mod 4294967296 mod length buf"
    by (simp add: slot_def unat_add_u32 mod_add_right_eq)
  with assms show ?thesis by (simp add: ring_size_def mod_mod_cancel)
qed

lemma slot_inj:
  assumes "ring_size buf" and "j < k" and "k < j + length buf"
  shows "slot buf (r + of_nat j) \<noteq> slot buf (r + of_nat k)"
proof
  assume "slot buf (r + of_nat j) = slot buf (r + of_nat k)"
  then have "(unat r + j) mod length buf = (unat r + k) mod length buf" using assms(1) by (simp add: slot_add)
  then have "length buf dvd (unat r + k) - (unat r + j)"
    by (metis mod_eq_dvd_iff_nat assms(2) add_le_cancel_left less_imp_le)
  with assms(2,3) show False by (auto dest: dvd_imp_le)
qed

lemma unat_suc_sub: "unat (w - r :: u32) < 4294967295 \<Longrightarrow> unat (w + 1 - r) = Suc (unat (w - r))"
proof -
  assume "unat (w - r) < 4294967295"
  then have "unat ((w - r) + 1) = unat (w - r) + 1" by (simp add: unat_add_no_wrap)
  moreover have e: "w + 1 - r = (w - r) + 1" by simp
  ultimately show ?thesis unfolding e by simp
qed

lemma ring_push:
  assumes "ring_size buf" and "unat (w - r) < length buf"
  shows "ring (buf[slot buf w := x]) r (w + 1) = ring buf r w @ [x]"
proof -
  let ?n = "unat (w - r)"
  have w: "w = r + of_nat ?n" by simp
  have n: "unat (w + 1 - r) = Suc ?n"
    using assms by (intro unat_suc_sub) (simp add: ring_size_def)
  have s: "slot (buf[slot buf w := x]) i = slot buf i" for i by (simp add: slot_def)
  have keep: "buf[slot buf w := x] ! slot buf (r + of_nat k) = buf ! slot buf (r + of_nat k)" if "k < ?n" for k
    using slot_inj [OF assms(1) that, of r] assms(2) w by simp
  have last: "buf[slot buf w := x] ! slot buf (r + of_nat ?n) = x"
    using slot_less [OF assms(1), of w] w by simp
  show ?thesis unfolding ring_def s n using keep last by simp
qed

lemma ring_pop:
  assumes "r \<noteq> w"
  shows "ring buf r w = buf ! slot buf r # ring buf (r + 1) w"
proof -
  have "w - r \<noteq> 0" using assms by simp
  then obtain n where n: "unat (w - r) = Suc n" by (metis not0_implies_Suc unat_eq_0)
  then have "unat (w - r - 1) = n" by (simp add: unat_sub_u32)
  then have n1: "unat (w - (r + 1)) = n" by (simp add: diff_diff_add)
  show ?thesis
    unfolding ring_def n n1 by (subst upt_conv_Cons) (simp_all add: map_Suc_upt [symmetric] ac_simps del: upt_Suc)
qed

lemma ring_unpush:
  assumes "w \<noteq> r"
  shows "ring buf r (w - 1) = butlast (ring buf r w)"
proof -
  have "w - r \<noteq> 0" using assms by simp
  then obtain n where n: "unat (w - r) = Suc n" by (metis not0_implies_Suc unat_eq_0)
  then have "unat (w - r - 1) = n" by (simp add: unat_sub_u32)
  moreover have "w - 1 - r = w - r - 1" by simp
  ultimately have n1: "unat (w - 1 - r) = n" by (simp only:)
  show ?thesis unfolding ring_def n n1 by simp
qed

lemma ring_split:
  assumes "unat (m - r) \<le> unat (w - r)"
  shows "ring buf r w = ring buf r m @ ring buf m w"
proof -
  have e: "unat (w - r) = unat (m - r) + unat (w - m)"
  proof -
    have "w - m = (w - r) - (m - r)" by simp
    then have "unat (w - m) = unat (w - r) - unat (m - r)"
      using assms unat_sub_u32 [of "w - r" "m - r"] by simp
    with assms show ?thesis by simp
  qed
  have m: "m + of_nat k = r + of_nat (unat (m - r) + k)" for k by simp
  show ?thesis unfolding ring_def e
    by (rule nth_equalityI) (auto simp: nth_append m simp del: of_nat_add)
qed

subsection \<open>The queue contract\<close>

text \<open>
  A bounded byte queue: \<open>put\<close> appends when there is room, \<open>get\<close> takes the oldest byte. The client facts
  below are what a writer that sends a sequence and a reader that drains it observe.
\<close>

locale fifo =
  fixes put :: "u8 \<Rightarrow> 'q \<Rightarrow> 'q"
    and get :: "'q \<Rightarrow> u8 \<times> 'q"
    and contents :: "'q \<Rightarrow> u8 list"
    and cap :: nat
    and inv :: "'q \<Rightarrow> bool"
  assumes put_law: "inv q \<Longrightarrow> length (contents q) < cap \<Longrightarrow> inv (put x q) \<and> contents (put x q) = contents q @ [x]"
    and get_law: "inv q \<Longrightarrow> contents q \<noteq> [] \<Longrightarrow>
      inv (snd (get q)) \<and> fst (get q) = hd (contents q) \<and> contents (snd (get q)) = tl (contents q)"
    and cap_law: "inv q \<Longrightarrow> length (contents q) \<le> cap"
begin

lemma put_all:
  "inv q \<Longrightarrow> length (contents q) + length xs \<le> cap \<Longrightarrow>
   inv (fold put xs q) \<and> contents (fold put xs q) = contents q @ xs"
proof (induction xs arbitrary: q)
  case Nil
  then show ?case by simp
next
  case (Cons x xs)
  then have "inv (put x q) \<and> contents (put x q) = contents q @ [x]" by (intro put_law) simp_all
  with Cons show ?case by simp
qed

end

end
