(* ===== verification/Digits.thy ===== *)
theory Digits
  imports Params
begin

text \<open>
  Printing a number: the loop that the kernel's \<^verbatim>\<open>printint\<close> (\<^verbatim>\<open>console.c\<close>) and the user library's
  \<^verbatim>\<open>printint\<close> (\<^verbatim>\<open>printf.c\<close>) share, and what its output means. The two differ in the digit table only.
\<close>

abbreviation str :: "string \<Rightarrow> u8 list" where
  "str cs \<equiv> map of_char cs"

text \<open>
  The \<^verbatim>\<open>do { buf[i++] = digits[x % base]; } while((x /= base) != 0)\<close> loop: the bytes in \<^verbatim>\<open>buf\<close>, first
  one first. The bases in use are 10 and 16; a base below 2 is outside the table and outside the
  model.
\<close>

function emit_digits :: "u8 list \<Rightarrow> u32 \<Rightarrow> u32 \<Rightarrow> u8 list" where
  "emit_digits tab base x =
     tab ! unat (x mod base) # (if 1 < base \<and> x div base \<noteq> 0 then emit_digits tab base (x div base) else [])"
  by pat_completeness auto
termination
proof (relation "measure (\<lambda>(tab, base, x). unat x)")
  fix tab :: "u8 list" and base x :: u32
  assume a: "1 < base \<and> x div base \<noteq> 0"
  then have "1 < unat base" by (simp add: word_less_nat_alt)
  moreover have "0 < unat x" using a by (metis div_0 unat_gt_0)
  ultimately have "unat (x div base) < unat x" by (simp add: unat_div_distrib)
  then show "((tab, base, x div base), tab, base, x) \<in> measure (\<lambda>(tab, base, x). unat x)" by simp
qed simp

declare emit_digits.simps [simp del]

text \<open>The whole of \<^verbatim>\<open>printint\<close>: the contents of \<^verbatim>\<open>buf\<close> at the end, in the order it is filled.\<close>

definition printint_buf :: "u8 list \<Rightarrow> u32 \<Rightarrow> u32 \<Rightarrow> bool \<Rightarrow> u8 list" where
  "printint_buf tab xx base sg =
     (let neg = sg \<and> sint xx < 0;
          x = (if neg then - xx else xx)
      in emit_digits tab base x @ (if neg then [of_char CHR ''-''] else []))"

text \<open>The characters printed: \<^verbatim>\<open>buf\<close> from the end.\<close>

definition printint_out :: "u8 list \<Rightarrow> u32 \<Rightarrow> u32 \<Rightarrow> bool \<Rightarrow> u8 list" where
  "printint_out tab xx base sg = rev (printint_buf tab xx base sg)"

subsection \<open>Digits of a number\<close>

function digs :: "nat \<Rightarrow> nat \<Rightarrow> nat list" where
  "digs b x = x mod b # (if 1 < b \<and> x div b \<noteq> 0 then digs b (x div b) else [])"
  by pat_completeness auto
termination
  by (relation "measure snd") (auto intro!: div_less_dividend gr0I)

declare digs.simps [simp del]

lemma emit_digits_eq:
  "emit_digits tab base x = map (\<lambda>d. tab ! d) (digs (unat base) (unat x))"
proof (induction tab base x rule: emit_digits.induct)
  case (1 tab base x)
  have c: "1 < base \<longleftrightarrow> 1 < unat base" "x div base \<noteq> 0 \<longleftrightarrow> unat x div unat base \<noteq> 0"
    by (simp add: word_less_nat_alt) (metis unat_div_distrib unat_eq_0)
  from 1 show ?case
    by (subst emit_digits.simps, subst digs.simps) (simp add: c unat_div_distrib unat_mod_distrib)
qed

definition undigs :: "nat \<Rightarrow> nat list \<Rightarrow> nat" where
  "undigs b ds = foldr (\<lambda>d v. d + b * v) ds 0"

lemma undigs_digs: "1 < b \<Longrightarrow> undigs b (digs b x) = x"
proof (induction b x rule: digs.induct)
  case (1 b x)
  then show ?case by (subst digs.simps) (auto simp: undigs_def div_eq_0_iff)
qed

lemma digs_less: "1 < b \<Longrightarrow> d \<in> set (digs b x) \<Longrightarrow> d < b"
proof (induction b x rule: digs.induct)
  case (1 b x)
  then show ?case by (subst (asm) digs.simps) (auto split: if_splits)
qed

lemma digs_length: "1 < b \<Longrightarrow> x < b ^ Suc n \<Longrightarrow> length (digs b x) \<le> Suc n"
proof (induction n arbitrary: x)
  case 0
  then show ?case by (subst digs.simps) simp
next
  case (Suc n)
  then have "x div b < b ^ Suc n" by (simp add: div_less_iff_less_mult mult.commute)
  from Suc.IH [OF Suc.prems(1) this] show ?case by (subst digs.simps) simp
qed

lemma digs_no_leading_zero: "1 < b \<Longrightarrow> 0 < x \<Longrightarrow> last (digs b x) \<noteq> 0"
proof (induction b x rule: digs.induct)
  case (1 b x)
  show ?case
  proof (cases "x div b = 0")
    case True
    with 1 have "x mod b = x" by (simp add: div_eq_0_iff)
    with True 1 show ?thesis by (subst digs.simps) simp
  next
    case False
    with 1 have "last (digs b (x div b)) \<noteq> 0" by simp
    moreover have "digs b (x div b) \<noteq> []" by (subst digs.simps) simp
    ultimately show ?thesis using 1 False by (subst digs.simps) simp
  qed
qed

text \<open>The buffer of 16 bytes is large enough for base 10 and 16.\<close>

lemma printint_buf_length:
  assumes "10 \<le> unat base"
  shows "length (printint_buf tab xx base sg) \<le> 11"
proof -
  have "length (digs (unat base) (unat x)) \<le> Suc 9" for x :: u32
  proof (rule digs_length)
    show "1 < unat base" using assms by simp
    have "unat x < 10 ^ 10" by (rule less_trans [OF unat_u32_less]) simp
    also have "(10 :: nat) ^ 10 \<le> unat base ^ 10" using assms by (rule power_mono) simp
    finally show "unat x < unat base ^ Suc 9" by simp
  qed
  then have e: "length (emit_digits tab base x) \<le> 10" for x by (simp add: emit_digits_eq)
  from e [of xx] e [of "- xx"] show ?thesis by (auto simp: printint_buf_def Let_def)
qed

subsection \<open>Reading a number back\<close>

text \<open>The value of a printed number in a given table: digits most significant first, with a sign.\<close>

definition read_digit :: "u8 list \<Rightarrow> u8 \<Rightarrow> nat" where
  "read_digit tab c = length (takeWhile (\<lambda>d. d \<noteq> c) tab)"

definition read_nat :: "u8 list \<Rightarrow> nat \<Rightarrow> u8 list \<Rightarrow> nat" where
  "read_nat tab b cs = foldl (\<lambda>v c. b * v + read_digit tab c) 0 cs"

lemma read_digit_nth: "distinct tab \<Longrightarrow> d < length tab \<Longrightarrow> read_digit tab (tab ! d) = d"
proof (induction tab arbitrary: d)
  case (Cons t tab)
  then show ?case by (cases d) (auto simp: read_digit_def)
qed simp

lemma read_nat_rev:
  assumes "distinct tab" and "\<forall>d \<in> set ds. d < length tab"
  shows "read_nat tab b (rev (map (\<lambda>d. tab ! d) ds)) = undigs b ds"
  using assms(2)
  by (induction ds) (simp_all add: read_nat_def undigs_def foldl_append read_digit_nth [OF assms(1)])

lemma read_emit:
  assumes "distinct tab" and "1 < unat base" and "unat base \<le> length tab"
  shows "read_nat tab (unat base) (rev (emit_digits tab base x)) = unat x"
proof -
  have "\<forall>d \<in> set (digs (unat base) (unat x)). d < length tab"
    using digs_less [OF assms(2)] assms(3) by force
  then show ?thesis by (simp add: emit_digits_eq read_nat_rev [OF assms(1)] undigs_digs [OF assms(2)])
qed

end
