(* ===== verification/Console.thy ===== *)
theory Console
  imports Sched Ring Digits
begin

text \<open>
  The console (\<^verbatim>\<open>console.c\<close>, \<^verbatim>\<open>uartputc\<close> of \<^verbatim>\<open>uart.c\<close>, \<^verbatim>\<open>procdump\<close> of \<^verbatim>\<open>proc.c\<close>): output to the serial port
  and to the CGA screen, formatted printing, and the line discipline of the input buffer. The
  screen is the array of 16-bit cells at \<^verbatim>\<open>0xb8000\<close> with the cursor register; the bytes sent to the
  serial port are collected in \<open>uart_out\<close>. What \<^verbatim>\<open>panic\<close> prints is not modelled: it is the outcome
  \<open>Panic\<close>.
\<close>

record cstate = pstate +
  cons_locking :: bool
  panicked :: bool
  uart :: bool           \<comment> \<open>is there a serial port?\<close>
  uart_out :: "u8 list"  \<comment> \<open>the bytes written to \<^verbatim>\<open>COM1\<close>\<close>
  crt :: "nat \<Rightarrow> u16"
  crt_pos :: u16         \<comment> \<open>the cursor register\<close>
  in_buf :: "u8 list"
  in_r :: u32
  in_w :: u32
  in_e :: u32

abbreviation (input) BACKSPACE :: int where "BACKSPACE \<equiv> 0x100"
abbreviation (input) INPUT_BUF :: nat where "INPUT_BUF \<equiv> 128"

subsection \<open>Output\<close>

definition uartputc :: "int \<Rightarrow> 'a cstate_scheme \<Rightarrow> 'a cstate_scheme" where
  "uartputc c s = (if \<not> uart s then s else s\<lparr>uart_out := uart_out s @ [of_int c]\<rparr>)"

text \<open>\<^verbatim>\<open>cgaputc\<close> in its three parts: placing the character, scrolling, writing the cursor back.\<close>

definition cga_place :: "int \<Rightarrow> 'a cstate_scheme \<Rightarrow> int \<times> 'a cstate_scheme" where
  "cga_place c s =
     (let pos = int (unat (crt_pos s))
      in if c = 10 then (pos + (80 - pos mod 80), s)
         else if c = BACKSPACE then (if pos > 0 then pos - 1 else pos, s)
         else (pos + 1, s\<lparr>crt := (crt s)(nat pos := (of_int c AND 0xff) OR 0x0700)\<rparr>))"

definition cga_scroll :: "int \<Rightarrow> (nat \<Rightarrow> u16) \<Rightarrow> int \<times> (nat \<Rightarrow> u16)" where
  "cga_scroll pos m =
     (if pos div 80 \<ge> 24 then
        let m1 = (\<lambda>i. if i < 23 * 80 then m (i + 80) else m i);
            pos = pos - 80
        in (pos, \<lambda>i. if nat pos \<le> i \<and> i < 24 * 80 then 0 else m1 i)
      else (pos, m))"

definition cgaputc :: "int \<Rightarrow> 'a cstate_scheme \<Rightarrow> ('a cstate_scheme, unit) outcome" where
  "cgaputc c s =
     (case cga_place c s of (pos, s) \<Rightarrow>
      if pos < 0 \<or> pos > 25 * 80 then Panic ''pos under/overflow''
      else case cga_scroll pos (crt s) of (pos, m) \<Rightarrow>
        Ret () (s\<lparr>crt_pos := of_int pos, crt := m(nat pos := 0x20 OR 0x0700)\<rparr>))"

definition consputc :: "int \<Rightarrow> 'a cstate_scheme \<Rightarrow> ('a cstate_scheme, unit) outcome" where
  "consputc c s =
     (if panicked s then Spin
      else
        let s = (if c = BACKSPACE then uartputc 8 (uartputc 0x20 (uartputc 8 s)) else uartputc c s)
        in cgaputc c s)"

text \<open>Putting a string, its \<^verbatim>\<open>char\<close>s converted to \<^verbatim>\<open>int\<close> with their sign.\<close>

primrec consputs :: "u8 list \<Rightarrow> 'a cstate_scheme \<Rightarrow> ('a cstate_scheme, unit) outcome" where
  "consputs [] s = Ret () s"
| "consputs (c # cs) s = obind (consputc (sint c) s) (\<lambda>_. consputs cs)"

abbreviation kdigits :: "u8 list" where
  "kdigits \<equiv> str ''0123456789abcdef''"

definition printint :: "u32 \<Rightarrow> u32 \<Rightarrow> bool \<Rightarrow> 'a cstate_scheme \<Rightarrow> ('a cstate_scheme, unit) outcome" where
  "printint xx base sg s = consputs (printint_out kdigits xx base sg) s"

text \<open>An argument word of \<^verbatim>\<open>cprintf\<close>: a number, or a pointer to a string (\<open>None\<close> is the null pointer).\<close>

datatype fmtarg = ANum u32 | AStr "u8 list option"

fun cprintf_loop :: "u8 list \<Rightarrow> fmtarg list \<Rightarrow> 'a cstate_scheme \<Rightarrow> ('a cstate_scheme, unit) outcome" where
  "cprintf_loop [] args s = Ret () s"
| "cprintf_loop (c # cs) args s =
     (if c \<noteq> of_char CHR ''%'' then obind (consputc (int (unat c)) s) (\<lambda>_. cprintf_loop cs args)
      else case cs of
        [] \<Rightarrow> Ret () s
      | c # cs \<Rightarrow>
          if c = of_char CHR ''d'' then
            (case args of ANum v # args \<Rightarrow> obind (printint v 10 True s) (\<lambda>_. cprintf_loop cs args) | _ \<Rightarrow> Undef)
          else if c = of_char CHR ''x'' \<or> c = of_char CHR ''p'' then
            (case args of ANum v # args \<Rightarrow> obind (printint v 16 False s) (\<lambda>_. cprintf_loop cs args) | _ \<Rightarrow> Undef)
          else if c = of_char CHR ''s'' then
            (case args of
               AStr z # args \<Rightarrow>
                 obind (consputs (case z of None \<Rightarrow> str ''(null)'' | Some z \<Rightarrow> z) s) (\<lambda>_. cprintf_loop cs args)
             | _ \<Rightarrow> Undef)
          else if c = of_char CHR ''%'' then obind (consputc (int (unat c)) s) (\<lambda>_. cprintf_loop cs args)
          else obind (consputc (int (unat (of_char CHR ''%'' :: u8))) s) (\<lambda>_ s.
               obind (consputc (int (unat c)) s) (\<lambda>_. cprintf_loop cs args)))"

definition cprintf :: "u8 list option \<Rightarrow> fmtarg list \<Rightarrow> 'a cstate_scheme \<Rightarrow> ('a cstate_scheme, unit) outcome" where
  "cprintf fmt args s =
     (let locking = cons_locking s
      in obind (if locking then acquire CONS s else Ret () s) (\<lambda>_ s.
         case fmt of
           None \<Rightarrow> Panic ''null fmt''
         | Some f \<Rightarrow>
             obind (cprintf_loop f args s) (\<lambda>_ s. if locking then release CONS s else Ret () s)))"

subsection \<open>The process listing\<close>

fun state_name :: "procstate \<Rightarrow> u8 list" where
  "state_name UNUSED = str ''unused''"
| "state_name EMBRYO = str ''embryo''"
| "state_name SLEEPING = str ''sleep ''"
| "state_name RUNNABLE = str ''runble''"
| "state_name RUNNING = str ''run   ''"
| "state_name ZOMBIE = str ''zombie''"

primrec dump_pcs :: "u32 list \<Rightarrow> 'a cstate_scheme \<Rightarrow> ('a cstate_scheme, unit) outcome" where
  "dump_pcs [] s = Ret () s"
| "dump_pcs (pc # pcs) s =
     (if pc = 0 then Ret () s else obind (cprintf (Some (str '' %p'')) [ANum pc] s) (\<lambda>_. dump_pcs pcs))"

text \<open>
  \<^verbatim>\<open>procdump\<close>, given the call stack of each sleeping process (\<^verbatim>\<open>getcallerpcs\<close> reads it from the kernel
  stacks).
\<close>

primrec procdump_loop :: "(proc \<Rightarrow> u32 list) \<Rightarrow> proc list \<Rightarrow> 'a cstate_scheme \<Rightarrow> ('a cstate_scheme, unit) outcome" where
  "procdump_loop pcs [] s = Ret () s"
| "procdump_loop pcs (p # ps) s =
     (if p_state p = UNUSED then procdump_loop pcs ps s
      else
        obind (cprintf (Some (str ''%d %s %s''))
          [ANum (of_int (p_pid p)), AStr (Some (state_name (p_state p))),
           AStr (Some (takeWhile (\<lambda>c. c \<noteq> 0) (p_name p)))] s) (\<lambda>_ s.
        obind (if p_state p = SLEEPING then dump_pcs (take 10 (pcs p)) s else Ret () s) (\<lambda>_ s.
        obind (cprintf (Some [10]) [] s) (\<lambda>_.
        procdump_loop pcs ps))))"

definition procdump :: "(proc \<Rightarrow> u32 list) \<Rightarrow> 'a cstate_scheme \<Rightarrow> ('a cstate_scheme, unit) outcome" where
  "procdump pcs s = procdump_loop pcs (procs s) s"

subsection \<open>Input\<close>

text \<open>Output changes only the output devices.\<close>

lemma cgaputc_frame:
  "cgaputc c s = Ret u t \<Longrightarrow> \<exists>m p. t = s\<lparr>crt := m, crt_pos := p\<rparr>"
  by (cases s) (auto simp: cgaputc_def cga_place_def Let_def split: if_splits prod.splits)

lemma uartputc_frame: "\<exists>o'. uartputc c s = s\<lparr>uart_out := o'\<rparr>"
proof (cases "uart s")
  case False
  then have "uartputc c s = s\<lparr>uart_out := uart_out s\<rparr>" by (simp add: uartputc_def)
  then show ?thesis ..
qed (auto simp: uartputc_def)

lemma consputc_frame:
  assumes "consputc c s = Ret u t"
  shows "\<exists>o' m p. t = s\<lparr>uart_out := o', crt := m, crt_pos := p\<rparr>"
proof -
  obtain o1 where 1: "uartputc c s = s\<lparr>uart_out := o1\<rparr>" using uartputc_frame by blast
  have "\<exists>o2. uartputc 8 (uartputc 0x20 (uartputc 8 s)) = s\<lparr>uart_out := o2\<rparr>"
  proof -
    obtain o1 where 1: "uartputc 8 s = s\<lparr>uart_out := o1\<rparr>" using uartputc_frame by blast
    obtain o2 where 2: "uartputc 0x20 (s\<lparr>uart_out := o1\<rparr>) = s\<lparr>uart_out := o1\<rparr>\<lparr>uart_out := o2\<rparr>"
      using uartputc_frame by blast
    obtain o3 where 3: "uartputc 8 (s\<lparr>uart_out := o2\<rparr>) = s\<lparr>uart_out := o2\<rparr>\<lparr>uart_out := o3\<rparr>"
      using uartputc_frame by blast
    from 2 have 2: "uartputc 0x20 (s\<lparr>uart_out := o1\<rparr>) = s\<lparr>uart_out := o2\<rparr>" by simp
    show ?thesis unfolding 1 2 3 by auto
  qed
  with 1 assms show ?thesis
    by (auto simp: consputc_def Let_def split: if_splits dest!: cgaputc_frame)
qed

lemma consputc_input:
  "consputc c s = Ret u t \<Longrightarrow> in_e t = in_e s \<and> in_w t = in_w s \<and> in_r t = in_r s \<and> in_buf t = in_buf s"
  by (auto dest!: consputc_frame)

text \<open>The loop of Control-U.\<close>

function kill_line :: "'a cstate_scheme \<Rightarrow> ('a cstate_scheme, unit) outcome" where
  "kill_line s =
     (if in_e s \<noteq> in_w s \<and> in_buf s ! slot (in_buf s) (in_e s - 1) \<noteq> 10
      then obind (consputc BACKSPACE (s\<lparr>in_e := in_e s - 1\<rparr>)) (\<lambda>_. kill_line)
      else Ret () s)"
  by pat_completeness auto
termination
proof (relation "measure (\<lambda>s. unat (in_e s - in_w s))")
  fix s t :: "'a cstate_scheme" and u
  assume a: "in_e s \<noteq> in_w s \<and> in_buf s ! slot (in_buf s) (in_e s - 1) \<noteq> 10"
    and "consputc BACKSPACE (s\<lparr>in_e := in_e s - 1\<rparr>) = Ret u t"
  then have t: "in_e t = in_e s - 1" "in_w t = in_w s" by (auto dest!: consputc_input)
  have "in_e s - in_w s \<noteq> 0" using a by simp
  then have "0 < unat (in_e s - in_w s)" by (metis unat_gt_0)
  moreover have "in_e s - 1 - in_w s = in_e s - in_w s - 1" by simp
  ultimately have "unat (in_e s - 1 - in_w s) < unat (in_e s - in_w s)"
    by (simp only: unat_sub_u32 [of "in_e s - in_w s" 1]) simp
  with t show "(t, s) \<in> measure (\<lambda>s. unat (in_e s - in_w s))" by simp
qed simp

declare kill_line.simps [simp del]

text \<open>
  One character of \<^verbatim>\<open>consoleintr\<close>; the result says whether a process listing was asked for. The
  control characters: P is 16, U is 21, H is 8, D is 4, carriage return 13, newline 10.
\<close>

definition console_key :: "int \<Rightarrow> 'a cstate_scheme \<Rightarrow> ('a cstate_scheme, bool) outcome" where
  "console_key c s =
     (if c = 16 then Ret True s
      else if c = 21 then obind (kill_line s) (\<lambda>_. Ret False)
      else if c = 8 \<or> c = 0x7f then
        (if in_e s \<noteq> in_w s then obind (consputc BACKSPACE (s\<lparr>in_e := in_e s - 1\<rparr>)) (\<lambda>_. Ret False) else Ret False s)
      else if c \<noteq> 0 \<and> in_e s - in_r s < of_nat INPUT_BUF then
        let c = (if c = 13 then 10 else c);
            s = s\<lparr>in_buf := (in_buf s)[slot (in_buf s) (in_e s) := of_int c], in_e := in_e s + 1\<rparr>
        in obind (consputc c s) (\<lambda>_ s.
           if c = 10 \<or> c = 4 \<or> in_e s = in_r s + of_nat INPUT_BUF
           then obind (wakeup ChInput (s\<lparr>in_w := in_e s\<rparr>)) (\<lambda>_. Ret False)
           else Ret False s)
      else Ret False s)"

text \<open>The loop of \<^verbatim>\<open>consoleintr\<close> over the results of \<^verbatim>\<open>getc\<close>, until a negative one or the end.\<close>

primrec console_keys :: "int list \<Rightarrow> bool \<Rightarrow> 'a cstate_scheme \<Rightarrow> ('a cstate_scheme, bool) outcome" where
  "console_keys [] d s = Ret d s"
| "console_keys (c # cs) d s =
     (if c < 0 then Ret d s else obind (console_key c s) (\<lambda>d'. console_keys cs (d \<or> d')))"

definition consoleintr :: "(proc \<Rightarrow> u32 list) \<Rightarrow> int list \<Rightarrow> 'a cstate_scheme \<Rightarrow> ('a cstate_scheme, unit) outcome" where
  "consoleintr pcs getc s =
     obind (acquire CONS s) (\<lambda>_ s.
     obind (console_keys getc False s) (\<lambda>doprocdump s.
     obind (release CONS s) (\<lambda>_ s.
     if doprocdump then procdump pcs s else Ret () s)))"


subsection \<open>The screen\<close>

definition screen_ok :: "'a cstate_scheme \<Rightarrow> bool" where
  "screen_ok s \<longleftrightarrow> \<not> panicked s \<and> unat (crt_pos s) < 24 * 80"

lemma unat_of_int_u16: "0 \<le> p \<Longrightarrow> p < 65536 \<Longrightarrow> unat (of_int p :: u16) = nat p"
proof -
  assume "0 \<le> p" "p < 65536"
  then have "int (unat (of_int p :: u16)) = p" by (simp add: unsigned_of_int take_bit_int_eq_self)
  then show ?thesis by linarith
qed

lemma cga_place_ok:
  assumes "unat (crt_pos s) < 1920" and "cga_place c s = (pos, t)"
  shows "0 \<le> pos" and "pos \<le> 1920" and "\<exists>m. t = s\<lparr>crt := m\<rparr> \<and> (\<forall>i \<ge> 1920. m i = crt s i)"
proof -
  define q where "q = int (unat (crt_pos s))"
  have q: "0 \<le> q" "q < 1920" using assms(1) unfolding q_def by linarith+
  have e: "cga_place c s = (if c = 10 then (q + (80 - q mod 80), s) else if c = 256 then (if 0 < q then q - 1 else q, s)
      else (q + 1, s\<lparr>crt := (crt s)(nat q := (of_int c AND 0xff) OR 0x0700)\<rparr>))"
    by (simp add: cga_place_def Let_def q_def)
  have "q + (80 - q mod 80) \<le> 1920" using q by presburger
  with e q assms(2) show "0 \<le> pos" "pos \<le> 1920" by (auto split: if_splits)
  have "t = s\<lparr>crt := crt t\<rparr>" "\<forall>i \<ge> 1920. crt t i = crt s i"
    using e q assms(2) by (auto split: if_splits)
  then show "\<exists>m. t = s\<lparr>crt := m\<rparr> \<and> (\<forall>i \<ge> 1920. m i = crt s i)" by blast
qed

lemma cga_scroll_ok:
  assumes "0 \<le> pos" and "pos \<le> 1920" and "cga_scroll pos m = (q, m')"
  shows "0 \<le> q" and "q < 1920" and "\<forall>i \<ge> 1920. m' i = m i"
  using assms by (auto simp: cga_scroll_def Let_def split: if_splits)

lemma cgaputc_ok:
  assumes "unat (crt_pos s) < 1920"
  shows "\<exists>m p. cgaputc c s = Ret () (s\<lparr>crt := m, crt_pos := p\<rparr>) \<and> unat p < 1920 \<and> (\<forall>i \<ge> 1920. m i = crt s i)"
proof -
  obtain pos t where 1: "cga_place c s = (pos, t)" by force
  from cga_place_ok [OF assms 1] obtain m where m: "0 \<le> pos" "pos \<le> 1920" "t = s\<lparr>crt := m\<rparr>"
    "\<forall>i \<ge> 1920. m i = crt s i" by blast
  obtain q m' where 2: "cga_scroll pos m = (q, m')" by force
  from cga_scroll_ok [OF m(1,2) 2] have q: "0 \<le> q" "q < 1920" "\<forall>i \<ge> 1920. m' i = m i" by blast+
  have "cgaputc c s = Ret () (s\<lparr>crt := m'(nat q := 0x20 OR 0x0700), crt_pos := of_int q\<rparr>)"
    using 1 2 m by (simp add: cgaputc_def)
  moreover have "unat (of_int q :: u16) < 1920" using q by (simp add: unat_of_int_u16)
  moreover have "\<forall>i \<ge> 1920. (m'(nat q := 0x20 OR 0x0700)) i = crt s i" using q m(4) by auto
  ultimately show ?thesis by blast
qed

lemma consputc_ok:
  assumes "screen_ok s"
  shows "\<exists>o' m p. consputc c s = Ret () (s\<lparr>uart_out := o', crt := m, crt_pos := p\<rparr>) \<and> unat p < 1920 \<and>
    (\<forall>i \<ge> 1920. m i = crt s i)"
proof -
  define v where "v = (if c = BACKSPACE then uartputc 8 (uartputc 0x20 (uartputc 8 s)) else uartputc c s)"
  have "crt_pos v = crt_pos s" "crt v = crt s" by (simp_all add: uartputc_def v_def)
  with assms obtain m p where m: "cgaputc c v = Ret () (v\<lparr>crt := m, crt_pos := p\<rparr>)"
    "unat p < 1920" "\<forall>i \<ge> 1920. m i = crt s i"
    using cgaputc_ok [of v c] by (auto simp: screen_ok_def)
  then have c: "consputc c s = Ret () (v\<lparr>crt := m, crt_pos := p\<rparr>)"
    using assms by (simp add: consputc_def Let_def screen_ok_def flip: v_def)
  from consputc_frame [OF this] obtain o' m2 p2
    where f: "v\<lparr>crt := m, crt_pos := p\<rparr> = s\<lparr>uart_out := o', crt := m2, crt_pos := p2\<rparr>" by blast
  from arg_cong [OF f, of crt] arg_cong [OF f, of crt_pos] have "m2 = m" "p2 = p" by simp_all
  with c f m show ?thesis by auto
qed

subsection \<open>The line discipline\<close>

text \<open>
  The abstract state of the input: the bytes a reader may consume and the line being edited. The
  invariant holds between characters, inside \<^verbatim>\<open>consoleintr\<close>'s critical section.
\<close>

definition committed :: "'a cstate_scheme \<Rightarrow> u8 list" where
  "committed s = ring (in_buf s) (in_r s) (in_w s)"

definition editing :: "'a cstate_scheme \<Rightarrow> u8 list" where
  "editing s = ring (in_buf s) (in_w s) (in_e s)"

definition con_ok :: "'a cstate_scheme \<Rightarrow> bool" where
  "con_ok s \<longleftrightarrow> length (in_buf s) = INPUT_BUF \<and> unat (in_w s - in_r s) \<le> unat (in_e s - in_r s) \<and>
     unat (in_e s - in_r s) \<le> INPUT_BUF \<and> 10 \<notin> set (editing s) \<and> screen_ok s \<and>
     cpu_ok s \<and> lock_free (locks s PTABLE)"

text \<open>What a key does to the committed bytes and the line being edited.\<close>

definition key_spec :: "int \<Rightarrow> u8 list \<times> u8 list \<Rightarrow> u8 list \<times> u8 list" where
  "key_spec c = (\<lambda>(com, ed).
     if c = 16 then (com, ed)
     else if c = 21 then (com, [])
     else if c = 8 \<or> c = 0x7f then (com, butlast ed)
     else if c \<noteq> 0 \<and> length com + length ed < INPUT_BUF then
       let c = (if c = 13 then 10 else c);
           ed = ed @ [of_int c]
       in if c = 10 \<or> c = 4 \<or> length com + length ed = INPUT_BUF then (com @ ed, []) else (com, ed)
     else (com, ed))"

lemma con_ring_size: "con_ok s \<Longrightarrow> ring_size (in_buf s)"
  by (simp add: con_ok_def ring_size_def)

lemma unat_sub_split:
  "unat (w - r :: u32) \<le> unat (e - r) \<Longrightarrow> unat (e - r) = unat (w - r) + unat (e - w)"
proof -
  assume a: "unat (w - r) \<le> unat (e - r)"
  have "e - w = (e - r) - (w - r)" by simp
  then have "unat (e - w) = unat (e - r) - unat (w - r)"
    using a unat_sub_u32 [of "e - r" "w - r"] by simp
  with a show ?thesis by simp
qed

lemma con_length: "con_ok s \<Longrightarrow> length (committed s) + length (editing s) = unat (in_e s - in_r s)"
  using unat_sub_split [of "in_w s" "in_r s" "in_e s"] by (simp add: con_ok_def committed_def editing_def)

lemma con_ok_out:
  assumes "con_ok s" and "unat p < 1920"
  shows "con_ok (s\<lparr>uart_out := o', crt := m, crt_pos := p\<rparr>)"
  using assms by (simp add: con_ok_def screen_ok_def cpu_ok_def editing_def)

lemma committed_out [simp]:
  "committed (s\<lparr>uart_out := o', crt := m, crt_pos := p\<rparr>) = committed s"
  "editing (s\<lparr>uart_out := o', crt := m, crt_pos := p\<rparr>) = editing s"
  by (simp_all add: committed_def editing_def)

lemma con_putc:
  assumes "con_ok s"
  shows "\<exists>t. consputc c s = Ret () t \<and> con_ok t \<and> committed t = committed s \<and> editing t = editing s \<and>
    in_e t = in_e s \<and> in_w t = in_w s \<and> in_r t = in_r s \<and> in_buf t = in_buf s \<and> same_cpu s t"
proof -
  have "screen_ok s" using assms by (simp add: con_ok_def)
  from consputc_ok [OF this] obtain o' m p where
    "consputc c s = Ret () (s\<lparr>uart_out := o', crt := m, crt_pos := p\<rparr>)" "unat p < 1920" by blast
  with con_ok_out [OF assms] show ?thesis by (simp add: same_cpu_iff)
qed

lemma con_erase:
  assumes "con_ok s" and "in_e s \<noteq> in_w s"
  shows "con_ok (s\<lparr>in_e := in_e s - 1\<rparr>)" and "committed (s\<lparr>in_e := in_e s - 1\<rparr>) = committed s"
    and "editing (s\<lparr>in_e := in_e s - 1\<rparr>) = butlast (editing s)"
proof -
  show e: "editing (s\<lparr>in_e := in_e s - 1\<rparr>) = butlast (editing s)"
    using assms(2) by (simp add: editing_def ring_unpush)
  show "committed (s\<lparr>in_e := in_e s - 1\<rparr>) = committed s" by (simp add: committed_def)
  have a: "unat (in_w s - in_r s) \<le> unat (in_e s - in_r s)" using assms(1) by (simp add: con_ok_def)
  have ne: "0 < unat (in_e s - in_w s)" using assms(2) by (rule unat_diff_pos)
  have "in_e s - 1 - in_r s = in_e s - in_r s - 1" by simp
  moreover have "0 < unat (in_e s - in_r s)" using unat_sub_split [OF a] ne by simp
  ultimately have u: "unat (in_e s - 1 - in_r s) = unat (in_e s - in_r s) - 1"
    by (simp only: unat_sub_u32 [of "in_e s - in_r s" 1]) simp
  show "con_ok (s\<lparr>in_e := in_e s - 1\<rparr>)"
    using assms(1) u unat_sub_split [OF a] ne
    unfolding con_ok_def e by (auto simp: screen_ok_def cpu_ok_def dest: in_set_butlastD)
qed

lemma con_kill:
  "con_ok s \<Longrightarrow> \<exists>t. kill_line s = Ret () t \<and> con_ok t \<and> committed t = committed s \<and> editing t = [] \<and> same_cpu s t"
proof (induction s rule: kill_line.induct)
  case (1 s)
  show ?case
  proof (cases "in_e s = in_w s")
    case True
    with 1(2) show ?thesis by (subst kill_line.simps) (simp add: editing_def)
  next
    case False
    have "0 < length (editing s)" using unat_diff_pos [OF False] by (simp add: editing_def)
    then have "editing s \<noteq> []" by simp
    moreover have "last (editing s) = in_buf s ! slot (in_buf s) (in_e s - 1)"
      using ring_unpush [of "in_e s" "in_w s" "in_buf s"] False \<open>editing s \<noteq> []\<close>
      by (simp add: editing_def ring_def last_map)
    ultimately have nl: "in_buf s ! slot (in_buf s) (in_e s - 1) \<noteq> 10"
      using 1(2) last_in_set [of "editing s"] by (auto simp: con_ok_def)
    note er = con_erase [OF 1(2) False]
    from con_putc [OF er(1), of BACKSPACE] obtain t where t: "consputc BACKSPACE (s\<lparr>in_e := in_e s - 1\<rparr>) = Ret () t"
      "con_ok t" "committed t = committed s" "same_cpu s t" using er(2) by (auto simp: same_cpu_iff)
    from 1(1) [OF _ t(1,2)] False nl obtain v where "kill_line t = Ret () v" "con_ok v" "committed v = committed t"
      "editing v = []" "same_cpu t v" by auto
    with t False nl same_cpu_trans [of s t v] show ?thesis by (subst kill_line.simps) simp
  qed
qed


lemma con_push:
  fixes x :: u8
  assumes "con_ok s" and "unat (in_e s - in_r s) < INPUT_BUF"
  defines "t \<equiv> s\<lparr>in_buf := (in_buf s)[slot (in_buf s) (in_e s) := x], in_e := in_e s + 1\<rparr>"
  shows "committed t = committed s" and "editing t = editing s @ [x]" and "x \<noteq> 10 \<Longrightarrow> con_ok t"
    and "unat (in_e t - in_r t) = Suc (unat (in_e s - in_r s))"
    and "unat (in_w t - in_r t) \<le> unat (in_e t - in_r t)"
proof -
  let ?b = "(in_buf s)[slot (in_buf s) (in_e s) := x]"
  note rs = con_ring_size [OF assms(1)]
  have l: "length (in_buf s) = 128" and le: "unat (in_w s - in_r s) \<le> unat (in_e s - in_r s)"
    using assms(1) by (simp_all add: con_ok_def)
  note split = unat_sub_split [OF le]
  have e1: "unat (in_e s + 1 - in_r s) = Suc (unat (in_e s - in_r s))"
    using assms(2) by (intro unat_suc_sub) simp
  then show "unat (in_e t - in_r t) = Suc (unat (in_e s - in_r s))" by (simp add: t_def)
  from e1 le show "unat (in_w t - in_r t) \<le> unat (in_e t - in_r t)" by (simp add: t_def)
  have ed: "ring ?b (in_w s) (in_e s + 1) = ring (in_buf s) (in_w s) (in_e s) @ [x]"
    using assms(2) split l by (intro ring_push [OF rs]) simp
  then show edt: "editing t = editing s @ [x]" by (simp add: editing_def t_def)
  have "ring ?b (in_r s) (in_w s) @ ring ?b (in_w s) (in_e s + 1) = ring ?b (in_r s) (in_e s + 1)"
    using e1 le by (intro ring_split [symmetric]) simp
  also have "\<dots> = ring (in_buf s) (in_r s) (in_e s) @ [x]"
    using assms(2) l by (intro ring_push [OF rs]) simp
  also have "\<dots> = ring (in_buf s) (in_r s) (in_w s) @ ring (in_buf s) (in_w s) (in_e s) @ [x]"
    by (simp add: ring_split [OF le])
  finally show "committed t = committed s" by (simp add: ed committed_def t_def)
  assume "x \<noteq> 10"
  with assms(1,2) e1 le edt show "con_ok t"
    unfolding con_ok_def edt by (auto simp: t_def screen_ok_def cpu_ok_def)
qed

lemma con_commit:
  assumes "unat (in_w s - in_r s) \<le> unat (in_e s - in_r s)" and "unat (in_e s - in_r s) \<le> INPUT_BUF"
    and "length (in_buf s) = INPUT_BUF" and "screen_ok s" and "cpu_ok s" and "lock_free (locks s PTABLE)"
  shows "\<exists>t. wakeup ChInput (s\<lparr>in_w := in_e s\<rparr>) = Ret () t \<and> con_ok t \<and> same_cpu s t \<and>
    committed t = committed s @ editing s \<and> editing t = []"
proof -
  let ?s = "s\<lparr>in_w := in_e s\<rparr>"
  have "wakeup ChInput ?s = Ret () (wakeup1 ChInput ?s)"
    using assms(5,6) by (intro wakeup_ok) (simp_all add: cpu_ok_def)
  then show ?thesis
    using assms ring_split [OF assms(1), of "in_buf s"]
    by (simp add: con_ok_def editing_def committed_def wakeup1_def screen_ok_def cpu_ok_def same_cpu_iff)
qed

lemma of_int_u8_10: "0 \<le> c \<Longrightarrow> c < 256 \<Longrightarrow> (of_int c :: u8) = 10 \<longleftrightarrow> c = 10"
proof -
  assume "0 \<le> c" "c < 256"
  then have "uint (of_int c :: u8) = c" by (simp add: unsigned_of_int take_bit_int_eq_self)
  then show ?thesis by (auto simp: word_uint_eq_iff)
qed

lemma con_type:
  assumes "con_ok s" and "0 \<le> c" and "c < 256" and "unat (in_e s - in_r s) < INPUT_BUF"
  defines "v \<equiv> s\<lparr>in_buf := (in_buf s)[slot (in_buf s) (in_e s) := of_int c], in_e := in_e s + 1\<rparr>"
  shows "\<exists>t. obind (consputc c v) (\<lambda>_ s. if c = 10 \<or> c = 4 \<or> in_e s = in_r s + of_nat INPUT_BUF
      then obind (wakeup ChInput (s\<lparr>in_w := in_e s\<rparr>)) (\<lambda>_. Ret False) else Ret False s) = Ret False t \<and>
    con_ok t \<and> same_cpu s t \<and> (committed t, editing t) =
      (if c = 10 \<or> c = 4 \<or> length (committed s) + length (editing s) + 1 = INPUT_BUF
       then (committed s @ editing s @ [of_int c], []) else (committed s, editing s @ [of_int c]))"
proof -
  note push = con_push [OF assms(1,4), of "of_int c", folded v_def]
  have v: "screen_ok v" "cpu_ok v" "lock_free (locks v PTABLE)" "length (in_buf v) = INPUT_BUF"
    using assms(1) by (simp_all add: con_ok_def v_def screen_ok_def cpu_ok_def)
  from consputc_ok [OF v(1), of c] obtain o' m p
    where w: "consputc c v = Ret () (v\<lparr>uart_out := o', crt := m, crt_pos := p\<rparr>)" "unat p < 1920" by blast
  define w where "w = v\<lparr>uart_out := o', crt := m, crt_pos := p\<rparr>"
  have same: "same_cpu s w" by (simp add: same_cpu_iff w_def v_def)
  have cw: "committed w = committed s" "editing w = editing s @ [of_int c]"
    using push(1,2) by (simp_all add: w_def)
  have full: "in_e w = in_r w + of_nat INPUT_BUF \<longleftrightarrow> length (committed s) + length (editing s) + 1 = INPUT_BUF"
  proof -
    have "in_e w = in_r w + of_nat INPUT_BUF \<longleftrightarrow> in_e w - in_r w = 128" by (auto simp: algebra_simps)
    also have "\<dots> \<longleftrightarrow> unat (in_e w - in_r w) = 128" by (simp add: word_unat_eq_iff)
    finally show ?thesis using push(4) con_length [OF assms(1)] by (simp add: w_def)
  qed
  show ?thesis
  proof (cases "c = 10 \<or> c = 4 \<or> length (committed s) + length (editing s) + 1 = INPUT_BUF")
    case True
    have "\<exists>t. wakeup ChInput (w\<lparr>in_w := in_e w\<rparr>) = Ret () t \<and> con_ok t \<and> same_cpu w t \<and>
        committed t = committed w @ editing w \<and> editing t = []"
      using v w(2) push(4,5) assms(4) by (intro con_commit) (simp_all add: w_def screen_ok_def cpu_ok_def)
    with True full w(1) cw same_cpu_trans [OF same] show ?thesis by (auto simp flip: w_def)
  next
    case False
    with push(3) of_int_u8_10 [OF assms(2,3)] have "con_ok v" by simp
    then have "con_ok w" unfolding w_def by (rule con_ok_out [OF _ w(2)])
    with False full w(1) cw same show ?thesis by (auto simp flip: w_def)
  qed
qed

lemma console_key_refines:
  assumes "con_ok s" and "0 \<le> c" and "c < 256"
  shows "\<exists>t. console_key c s = Ret (c = 16) t \<and> con_ok t \<and> same_cpu s t \<and>
    (committed t, editing t) = key_spec c (committed s, editing s)"
proof -
  consider "c = 16" | "c = 21" | "c = 8 \<or> c = 0x7f" | "c \<notin> {16, 21, 8, 0x7f}" by auto
  then show ?thesis
  proof cases
    case 1
    with assms show ?thesis by (simp add: console_key_def key_spec_def)
  next
    case 2
    with con_kill [OF assms(1)] show ?thesis by (auto simp: console_key_def key_spec_def)
  next
    case 3
    show ?thesis
    proof (cases "in_e s = in_w s")
      case True
      with 3 assms show ?thesis by (auto simp: console_key_def key_spec_def editing_def)
    next
      case False
      note er = con_erase [OF assms(1) False]
      from con_putc [OF er(1), of BACKSPACE] 3 False er show ?thesis
        by (auto simp: console_key_def key_spec_def same_cpu_iff)
    qed
  next
    case 4
    have room: "in_e s - in_r s < of_nat INPUT_BUF \<longleftrightarrow> unat (in_e s - in_r s) < INPUT_BUF"
      by (simp add: word_less_nat_alt)
    note len = con_length [OF assms(1)]
    show ?thesis
    proof (cases "c \<noteq> 0 \<and> unat (in_e s - in_r s) < INPUT_BUF")
      case True
      define c' where "c' = (if c = 13 then 10 else c)"
      have "0 \<le> c'" "c' < 256" using assms by (simp_all add: c'_def)
      from con_type [OF assms(1) this] True 4 room len show ?thesis
        by (simp add: console_key_def key_spec_def Let_def flip: c'_def)
    next
      case False
      with 4 room len assms show ?thesis by (auto simp: console_key_def key_spec_def)
    qed
  qed
qed


lemma console_keys_refines:
  "con_ok s \<Longrightarrow> \<forall>c \<in> set cs. 0 \<le> c \<and> c < 256 \<Longrightarrow>
   \<exists>t. console_keys cs d s = Ret (d \<or> 16 \<in> set cs) t \<and> con_ok t \<and> same_cpu s t \<and>
     (committed t, editing t) = fold key_spec cs (committed s, editing s)"
proof (induction cs arbitrary: d s)
  case Nil
  then show ?case by simp
next
  case (Cons c cs)
  then obtain t where t: "console_key c s = Ret (c = 16) t" "con_ok t" "same_cpu s t"
    "(committed t, editing t) = key_spec c (committed s, editing s)"
    using console_key_refines [of s c] by auto
  from Cons.IH [OF t(2), of "d \<or> c = 16"] Cons.prems(2) obtain u where
    "console_keys cs (d \<or> c = 16) t = Ret ((d \<or> c = 16) \<or> 16 \<in> set cs) u" "con_ok u" "same_cpu t u"
    "(committed u, editing u) = fold key_spec cs (committed t, editing t)" by auto
  with t Cons.prems(2) same_cpu_trans [OF t(3)] show ?case by auto
qed

lemma con_ok_acquired: "con_ok s \<Longrightarrow> lk \<noteq> PTABLE \<Longrightarrow> con_ok (acquired s lk)"
  by (simp add: con_ok_def editing_def screen_ok_def acquired_def cpu_ok_def)

text \<open>
  C11: the line discipline of the console. From a consistent input buffer, \<^verbatim>\<open>consoleintr\<close> processes
  any sequence of characters without a panic: a character joins the line being edited, backspace
  and Control-U edit that line only, newline, Control-D or a full buffer hands the line to the
  readers, and nothing is lost or reordered, also when the counters wrap around at \<open>2 ^ 32\<close>.
\<close>

theorem consoleintr_refines:
  assumes "con_ok s" and "lock_free (locks s CONS)" and "\<forall>c \<in> set cs. 0 \<le> c \<and> c < 256 \<and> c \<noteq> 16"
  shows "\<exists>t. consoleintr pcs cs s = Ret () t \<and> con_ok t \<and> same_cpu s t \<and>
    (committed t, editing t) = fold key_spec cs (committed s, editing s)"
proof -
  have cpu: "cpu_ok s" using assms(1) by (simp add: con_ok_def)
  have c: "committed (acquired s CONS) = committed s" "editing (acquired s CONS) = editing s"
    by (simp_all add: committed_def editing_def acquired_def)
  have "con_ok (acquired s CONS)" using assms(1) by (intro con_ok_acquired) simp_all
  from console_keys_refines [OF this, of cs False] assms(3) obtain t where
    t: "console_keys cs False (acquired s CONS) = Ret False t" "con_ok t" "same_cpu (acquired s CONS) t"
    "(committed t, editing t) = fold key_spec cs (committed s, editing s)"
    by (fastforce simp: c)
  let ?t = "t\<lparr>ncli := ncli s, fl_if := fl_if s, locks := locks s\<rparr>"
  note rel = release_same [OF t(3) cpu assms(2)]
  have "con_ok ?t"
    using t(2) assms(1) rel(2) by (simp add: con_ok_def editing_def screen_ok_def cpu_ok_def same_cpu_iff)
  moreover have "committed ?t = committed t" "editing ?t = editing t" by (simp_all add: committed_def editing_def)
  ultimately show ?thesis
    using t rel by (simp add: consoleintr_def acquire_ok [OF cpu assms(2)])
qed

text \<open>A console whose counters are about to wrap around.\<close>

definition boot_cstate :: cstate where
  "boot_cstate = pstate.extend boot_pstate
     \<lparr>cons_locking = True, panicked = False, uart = True, uart_out = [], crt = (\<lambda>_. 0), crt_pos = 0,
      in_buf = replicate INPUT_BUF 0, in_r = - 2, in_w = - 2, in_e = - 2\<rparr>"

lemma boot_cstate_ok: "con_ok boot_cstate" "lock_free (locks boot_cstate CONS)"
  by (simp_all add: boot_cstate_def pstate.defs boot_pstate_def con_ok_def editing_def screen_ok_def
      cpu_ok_def lock_free_def)

theorem consoleintr_refines_witness:
  "\<exists>t. consoleintr (\<lambda>_. []) [108, 120, 8, 115, 13] boot_cstate = Ret () t \<and> committed t = [108, 115, 10]"
proof -
  have "committed boot_cstate = []" "editing boot_cstate = []"
    by (simp_all add: committed_def editing_def boot_cstate_def pstate.defs)
  moreover have "fold key_spec [108, 120, 8, 115, 13] ([], []) = ([108, 115, 10], [])"
    by (simp add: key_spec_def Let_def)
  ultimately show ?thesis
    using consoleintr_refines [OF boot_cstate_ok, of "[108, 120, 8, 115, 13]" "\<lambda>_. []"] by auto
qed

subsection \<open>Printing numbers\<close>

lemma consputc_uart: "consputc c s = Ret u t \<Longrightarrow> uart s \<Longrightarrow> c \<noteq> BACKSPACE \<Longrightarrow> uart_out t = uart_out s @ [of_int c]"
  by (auto simp: consputc_def Let_def uartputc_def split: if_splits dest!: cgaputc_frame)

lemma consputs_ok:
  "screen_ok s \<Longrightarrow> uart s \<Longrightarrow>
   \<exists>m p. consputs cs s = Ret () (s\<lparr>uart_out := uart_out s @ cs, crt := m, crt_pos := p\<rparr>) \<and> unat p < 1920 \<and>
     (\<forall>i \<ge> 1920. m i = crt s i)"
proof (induction cs arbitrary: s)
  case Nil
  then show ?case by (intro exI [of _ "crt s"] exI [of _ "crt_pos s"]) (simp add: screen_ok_def)
next
  case (Cons c cs)
  have c: "sint c \<noteq> 256" "of_int (sint c) = c" using sint_lt [of c] by simp_all
  from consputc_ok [OF Cons.prems(1), of "sint c"] obtain o' m p where
    t: "consputc (sint c) s = Ret () (s\<lparr>uart_out := o', crt := m, crt_pos := p\<rparr>)" "unat p < 1920"
    "\<forall>i \<ge> 1920. m i = crt s i" by blast
  then have o': "o' = uart_out s @ [c]" using consputc_uart [OF t(1) Cons.prems(2)] c by simp
  let ?t = "s\<lparr>uart_out := o', crt := m, crt_pos := p\<rparr>"
  have "screen_ok ?t" "uart ?t" using Cons.prems t(2) by (simp_all add: screen_ok_def)
  from Cons.IH [OF this] t o' show ?case by auto
qed

lemma nat_neg_sint: "sint (x :: u32) < 0 \<Longrightarrow> int (unat (- x)) = - sint x"
proof -
  assume "sint x < 0"
  moreover have "- 2147483648 \<le> sint x" using sint_ge [of x] by simp
  ultimately have "uint (of_int (- sint x) :: u32) = - sint x"
    by (simp only: unsigned_of_int) (simp add: take_bit_int_eq_self)
  then show ?thesis by simp
qed

text \<open>
  C21: \<^verbatim>\<open>printint\<close> prints what it was given. In base 10 with a sign it sends to the serial port a minus
  sign exactly for negative numbers, followed by the decimal digits of the absolute value (also for
  the smallest \<^verbatim>\<open>int\<close>); its buffer never holds more than 11 of its 16 bytes.
\<close>

theorem printint_correct:
  assumes "screen_ok s" and "uart s"
  shows "\<exists>t ds. printint v 10 True s = Ret () t \<and>
    uart_out t = uart_out s @ (if sint v < 0 then [of_char CHR ''-''] else []) @ ds \<and>
    int (read_nat kdigits 10 ds) = \<bar>sint v\<bar> \<and> length (printint_buf kdigits v 10 True) \<le> 11"
proof -
  let ?x = "if sint v < 0 then - v else v"
  let ?ds = "rev (emit_digits kdigits 10 ?x)"
  have d: "distinct kdigits" by simp
  have "read_nat kdigits (unat (10 :: u32)) ?ds = unat ?x" by (rule read_emit [OF d]) simp_all
  moreover have "int (unat ?x) = \<bar>sint v\<bar>"
  proof (cases "sint v < 0")
    case True
    with nat_neg_sint [OF True] show ?thesis by simp
  next
    case False
    moreover have "sint v < 2147483648" using sint_lt [of v] by simp
    ultimately have "uint (of_int (sint v) :: u32) = sint v"
      by (simp only: unsigned_of_int) (simp add: take_bit_int_eq_self)
    then show ?thesis using False by simp
  qed
  ultimately have r: "int (read_nat kdigits 10 ?ds) = \<bar>sint v\<bar>" by simp
  have out: "printint_out kdigits v 10 True = (if sint v < 0 then [of_char CHR ''-''] else []) @ ?ds"
    by (simp add: printint_out_def printint_buf_def Let_def)
  have "length (printint_buf kdigits v 10 True) \<le> 11" by (rule printint_buf_length) simp
  moreover from consputs_ok [OF assms, of "printint_out kdigits v 10 True"] obtain t where
    "printint v 10 True s = Ret () t" "uart_out t = uart_out s @ printint_out kdigits v 10 True"
    by (auto simp: printint_def)
  ultimately show ?thesis using r out by auto
qed

theorem printint_correct_witness:
  "\<exists>t ds. printint (- 42) 10 True boot_cstate = Ret () t \<and> uart_out t = of_char CHR ''-'' # ds \<and>
    int (read_nat kdigits 10 ds) = 42"
proof -
  have "screen_ok boot_cstate" "uart boot_cstate" "uart_out boot_cstate = []"
    by (simp_all add: boot_cstate_def pstate.defs screen_ok_def boot_pstate_def)
  moreover have "sint (- 42 :: u32) = - 42" by simp
  ultimately show ?thesis using printint_correct [of boot_cstate "- 42"] by auto
qed



end
