(* ===== verification/CString.thy ===== *)
theory CString
  imports Params
begin

text \<open>
  Byte memory and \<^verbatim>\<open>string.c\<close>. Memory is a function from 32-bit addresses to bytes; addresses wrap
  around. \<open>load_bytes\<close> and \<open>store_bytes\<close> are the block-level reading and writing that the C loops are
  proved equal to.
\<close>

type_synonym memory = "u32 \<Rightarrow> u8"

subsection \<open>Blocks of bytes\<close>

definition load_bytes :: "memory \<Rightarrow> u32 \<Rightarrow> nat \<Rightarrow> u8 list" where
  "load_bytes m a n = map (\<lambda>i. m (a + of_nat i)) [0..<n]"

definition store_bytes :: "u32 \<Rightarrow> u8 list \<Rightarrow> memory \<Rightarrow> memory" where
  "store_bytes a xs m = (\<lambda>x. if unat (x - a) < length xs then xs ! unat (x - a) else m x)"

lemma length_load_bytes [simp]: "length (load_bytes m a n) = n"
  by (simp add: load_bytes_def)

lemma nth_load_bytes [simp]: "i < n \<Longrightarrow> load_bytes m a n ! i = m (a + of_nat i)"
  by (simp add: load_bytes_def)

lemma load_bytes_0 [simp]: "load_bytes m a 0 = []"
  by (simp add: load_bytes_def)

lemma load_bytes_Suc: "load_bytes m a (Suc n) = m a # load_bytes m (a + 1) n"
  by (rule nth_equalityI) (auto simp: load_bytes_def nth_Cons' algebra_simps simp del: upt_Suc)

lemma load_bytes_snoc: "load_bytes m a (Suc n) = load_bytes m a n @ [m (a + of_nat n)]"
  by (simp add: load_bytes_def)

lemma load_bytes_add: "load_bytes m a (j + k) = load_bytes m a j @ load_bytes m (a + of_nat j) k"
  by (induction j arbitrary: a) (simp_all add: load_bytes_Suc algebra_simps)

lemma store_bytes_Nil [simp]: "store_bytes a [] m = m"
  by (simp add: store_bytes_def)

lemma sub_add_of_nat: "(x :: u32) - (a + of_nat k) = x - a - of_nat k"
  by simp

lemma unat_dec: "(x :: u32) \<noteq> 0 \<Longrightarrow> unat (x - 1) = unat x - 1"
  by (simp add: unat_sub_u32 unat_gt_0 Suc_le_eq)

lemma store_bytes_Cons:
  assumes "length xs < 4294967296"
  shows "store_bytes a (x # xs) m = store_bytes (a + 1) xs (m(a := x))"
proof
  fix y
  show "store_bytes a (x # xs) m y = store_bytes (a + 1) xs (m(a := x)) y"
  proof (cases "y = a")
    case True
    have "unat (- 1 :: u32) = 4294967295" by (simp add: unsigned_minus_1_eq_mask mask_eq_exp_minus_1)
    with True assms show ?thesis by (simp add: store_bytes_def)
  next
    case False
    then have p: "0 < unat (y - a)" by (simp add: unat_gt_0)
    have "unat (y - (a + 1)) = unat (y - a) - 1"
      using False unat_dec [of "y - a"] by (metis diff_diff_add eq_iff_diff_eq_0)
    with p False show ?thesis by (auto simp: store_bytes_def nth_Cons')
  qed
qed

lemma store_bytes_snoc:
  assumes "length xs < 4294967296"
  shows "store_bytes a xs (m(a + of_nat (length xs) := x)) = store_bytes a (xs @ [x]) m"
proof
  fix y
  have "unat (of_nat (length xs) :: u32) = length xs" using assms by (rule unat_of_nat_u32)
  then have "y = a + of_nat (length xs) \<longleftrightarrow> unat (y - a) = length xs"
    by (metis add_diff_cancel_left' diff_add_cancel add.commute word_unat_eq_iff)
  then show "store_bytes a xs (m(a + of_nat (length xs) := x)) y = store_bytes a (xs @ [x]) m y"
    by (auto simp: store_bytes_def nth_append)
qed

lemma load_store_same: "length xs \<le> 4294967296 \<Longrightarrow> load_bytes (store_bytes a xs m) a (length xs) = xs"
  by (rule nth_equalityI) (auto simp: store_bytes_def unat_of_nat_u32)

text \<open>Two address ranges of \<open>j\<close> and \<open>k\<close> bytes that do not wrap around and do not meet.\<close>

definition apart :: "u32 \<Rightarrow> nat \<Rightarrow> u32 \<Rightarrow> nat \<Rightarrow> bool" where
  "apart a j b k \<longleftrightarrow> unat a + j \<le> 4294967296 \<and> unat b + k \<le> 4294967296 \<and>
     (unat a + j \<le> unat b \<or> unat b + k \<le> unat a)"

lemma unat_add_of_nat: "unat a + i < 4294967296 \<Longrightarrow> unat (a + of_nat i :: u32) = unat a + i"
  by (simp add: unat_add_u32 unat_of_nat)

lemma apart_not_in:
  assumes "apart a j b k" and "i < k"
  shows "\<not> unat (b + of_nat i - a) < j"
proof -
  have "unat (b + of_nat i) = unat b + i"
    using assms by (intro unat_add_of_nat) (simp add: apart_def)
  with assms show ?thesis by (auto simp: unat_sub_u32 apart_def)
qed

lemma load_store_apart: "apart a (length xs) b k \<Longrightarrow> load_bytes (store_bytes a xs m) b k = load_bytes m b k"
  by (rule nth_equalityI) (auto simp: store_bytes_def dest: apart_not_in)

lemma store_outside: "\<not> unat (x - a) < length xs \<Longrightarrow> store_bytes a xs m x = m x"
  by (simp add: store_bytes_def)

subsection \<open>Words in memory\<close>

definition bytes32 :: "u32 \<Rightarrow> u8 list" where
  "bytes32 v = [ucast v, ucast (drop_bit 8 v), ucast (drop_bit 16 v), ucast (drop_bit 24 v)]"

definition load32 :: "memory \<Rightarrow> u32 \<Rightarrow> u32" where
  "load32 m a = ucast (m a) OR push_bit 8 (ucast (m (a + 1))) OR push_bit 16 (ucast (m (a + 2)))
     OR push_bit 24 (ucast (m (a + 3)))"

definition store32 :: "u32 \<Rightarrow> u32 \<Rightarrow> memory \<Rightarrow> memory" where
  "store32 a v m = store_bytes a (bytes32 v) m"

lemma length_bytes32 [simp]: "length (bytes32 v) = 4"
  by (simp add: bytes32_def)

lemma bytes32_join:
  "ucast (ucast v :: u8) OR push_bit 8 (ucast (ucast (drop_bit 8 v) :: u8))
     OR push_bit 16 (ucast (ucast (drop_bit 16 v) :: u8)) OR push_bit 24 (ucast (ucast (drop_bit 24 v) :: u8))
   = (v :: u32)"
  (is "?l = v")
proof (rule bit_word_eqI)
  fix n
  assume "n < LENGTH(32)"
  then consider "n < 8" | "8 \<le> n" "n < 16" | "16 \<le> n" "n < 24" | "24 \<le> n" "n < 32"
    by force
  then show "bit ?l n \<longleftrightarrow> bit v n" by cases (auto simp: bit_simps)
qed

lemma load32_store32 [simp]: "load32 (store32 a v m) a = v"
  using bytes32_join [of v] by (simp add: load32_def store32_def store_bytes_def bytes32_def)

lemma load32_load_bytes:
  "load32 m a = load32 n a" if "load_bytes m a 4 = load_bytes n a 4"
  using that by (simp add: load32_def eval_nat_numeral load_bytes_Suc ac_simps)

lemma load32_store_bytes_apart:
  "apart a (length xs) b 4 \<Longrightarrow> load32 (store_bytes a xs m) b = load32 m b"
  by (rule load32_load_bytes) (rule load_store_apart)

lemma load32_store32_apart: "apart a 4 b 4 \<Longrightarrow> load32 (store32 a v m) b = load32 m b"
  unfolding store32_def by (rule load32_store_bytes_apart) simp


subsection \<open>The routines of string.c\<close>

text \<open>\<^verbatim>\<open>stosb\<close> and \<^verbatim>\<open>stosl\<close> are the x86 string instructions with a repeat count (\<^verbatim>\<open>x86.h\<close>).\<close>

primrec stosb :: "nat \<Rightarrow> u32 \<Rightarrow> u8 \<Rightarrow> memory \<Rightarrow> memory" where
  "stosb 0 a c m = m"
| "stosb (Suc k) a c m = stosb k (a + 1) c (m(a := c))"

primrec stosl :: "nat \<Rightarrow> u32 \<Rightarrow> u32 \<Rightarrow> memory \<Rightarrow> memory" where
  "stosl 0 a v m = m"
| "stosl (Suc k) a v m = stosl k (a + 4) v (store32 a v m)"

definition memset :: "u32 \<Rightarrow> u32 \<Rightarrow> u32 \<Rightarrow> memory \<Rightarrow> memory" where
  "memset dst c n m =
     (if c_rem (sint dst) 4 = 0 \<and> n mod 4 = 0
      then let c = c AND 0xFF
        in stosl (unat (n div 4)) dst (push_bit 24 c OR push_bit 16 c OR push_bit 8 c OR c) m
      else stosb (unat n) dst (ucast c) m)"

primrec memcmp_loop :: "nat \<Rightarrow> u32 \<Rightarrow> u32 \<Rightarrow> memory \<Rightarrow> int" where
  "memcmp_loop 0 s1 s2 m = 0"
| "memcmp_loop (Suc n) s1 s2 m =
     (if m s1 \<noteq> m s2 then int (unat (m s1)) - int (unat (m s2))
      else memcmp_loop n (s1 + 1) (s2 + 1) m)"

definition memcmp :: "u32 \<Rightarrow> u32 \<Rightarrow> u32 \<Rightarrow> memory \<Rightarrow> int" where
  "memcmp v1 v2 n m = memcmp_loop (unat n) v1 v2 m"

primrec copy_down :: "nat \<Rightarrow> u32 \<Rightarrow> u32 \<Rightarrow> memory \<Rightarrow> memory" where
  "copy_down 0 d s m = m"
| "copy_down (Suc n) d s m = copy_down n (d - 1) (s - 1) (m(d - 1 := m (s - 1)))"

primrec copy_up :: "nat \<Rightarrow> u32 \<Rightarrow> u32 \<Rightarrow> memory \<Rightarrow> memory" where
  "copy_up 0 d s m = m"
| "copy_up (Suc n) d s m = copy_up n (d + 1) (s + 1) (m(d := m s))"

definition memmove :: "u32 \<Rightarrow> u32 \<Rightarrow> u32 \<Rightarrow> memory \<Rightarrow> memory" where
  "memmove dst src n m =
     (if src < dst \<and> src + n > dst then copy_down (unat n) (dst + n) (src + n) m
      else copy_up (unat n) dst src m)"

definition memcpy :: "u32 \<Rightarrow> u32 \<Rightarrow> u32 \<Rightarrow> memory \<Rightarrow> memory" where
  "memcpy dst src n m = memmove dst src n m"

primrec strncmp_loop :: "nat \<Rightarrow> u32 \<Rightarrow> u32 \<Rightarrow> memory \<Rightarrow> int" where
  "strncmp_loop 0 p q m = 0"
| "strncmp_loop (Suc n) p q m =
     (if m p \<noteq> 0 \<and> m p = m q then strncmp_loop n (p + 1) (q + 1) m
      else int (unat (m p)) - int (unat (m q)))"

definition strncmp :: "u32 \<Rightarrow> u32 \<Rightarrow> u32 \<Rightarrow> memory \<Rightarrow> int" where
  "strncmp p q n m = strncmp_loop (unat n) p q m"

text \<open>
  The two loops of \<^verbatim>\<open>strncpy\<close>: the first returns the count that is left, the next target address and
  the memory, the second pads with zero bytes.
\<close>

primrec strncpy_copy :: "nat \<Rightarrow> u32 \<Rightarrow> u32 \<Rightarrow> memory \<Rightarrow> nat \<times> u32 \<times> memory" where
  "strncpy_copy 0 s t m = (0, s, m)"
| "strncpy_copy (Suc n) s t m =
     (let m' = m(s := m t)
      in if m t \<noteq> 0 then strncpy_copy n (s + 1) (t + 1) m' else (n, s + 1, m'))"

primrec strncpy_pad :: "nat \<Rightarrow> u32 \<Rightarrow> memory \<Rightarrow> memory" where
  "strncpy_pad 0 s m = m"
| "strncpy_pad (Suc n) s m = strncpy_pad n (s + 1) (m(s := 0))"

definition strncpy :: "u32 \<Rightarrow> u32 \<Rightarrow> int \<Rightarrow> memory \<Rightarrow> memory" where
  "strncpy s t n m = (case strncpy_copy (nat n) s t m of (k, s', m') \<Rightarrow> strncpy_pad k s' m')"

primrec safestrcpy_loop :: "nat \<Rightarrow> u32 \<Rightarrow> u32 \<Rightarrow> memory \<Rightarrow> memory" where
  "safestrcpy_loop 0 s t m = m(s := 0)"
| "safestrcpy_loop (Suc n) s t m =
     (let m' = m(s := m t)
      in if m t \<noteq> 0 then safestrcpy_loop n (s + 1) (t + 1) m' else m'(s + 1 := 0))"

definition safestrcpy :: "u32 \<Rightarrow> u32 \<Rightarrow> int \<Rightarrow> memory \<Rightarrow> memory" where
  "safestrcpy s t n m = (if n \<le> 0 then m else safestrcpy_loop (nat (n - 1)) s t m)"

text \<open>The loop of \<^verbatim>\<open>strlen\<close> does not end when no byte is zero.\<close>

partial_function (option) strlen_loop :: "u32 \<Rightarrow> nat \<Rightarrow> memory \<Rightarrow> nat option" where
  "strlen_loop s n m = (if m (s + of_nat n) \<noteq> 0 then strlen_loop s (n + 1) m else Some n)"

definition strlen :: "u32 \<Rightarrow> memory \<Rightarrow> nat option" where
  "strlen s m = strlen_loop s 0 m"

subsection \<open>Filling and moving\<close>

lemma stosb_eq: "k \<le> 4294967296 \<Longrightarrow> stosb k a c m = store_bytes a (replicate k c) m"
  by (induction k arbitrary: a m) (simp_all add: store_bytes_Cons)

lemma stosl_eq:
  assumes "bytes32 v = replicate 4 c"
  shows "4 * k \<le> 4294967296 \<Longrightarrow> stosl k a v m = store_bytes a (replicate (4 * k) c) m"
proof (induction k arbitrary: a m)
  case 0
  then show ?case by simp
next
  case (Suc k)
  have r: "replicate (4 * Suc k) c = c # c # c # c # replicate (4 * k) c"
    by (simp add: eval_nat_numeral)
  have "bytes32 v = [c, c, c, c]" using assms by (simp add: eval_nat_numeral)
  with Suc show ?case
    by (simp only: stosl.simps store32_def) (simp add: r store_bytes_Cons add.assoc del: mult_Suc_right)
qed

lemma fill_word:
  "bytes32 (push_bit 24 (c AND 0xFF) OR push_bit 16 (c AND 0xFF) OR push_bit 8 (c AND 0xFF) OR (c AND 0xFF))
   = replicate 4 (ucast (c :: u32))"
proof -
  have m: "c AND 0xFF = take_bit 8 c" by (simp add: take_bit_eq_mask mask_eq_exp_minus_1)
  have r: "replicate 4 x = [x, x, x, x]" for x :: u8 by (simp add: eval_nat_numeral)
  show ?thesis unfolding m bytes32_def r list.inject
    by (intro conjI; (rule refl | rule bit_word_eqI)) (auto simp: bit_simps)
qed

lemma memset_eq: "memset dst c n m = store_bytes dst (replicate (unat n) (ucast c)) m"
proof (cases "c_rem (sint dst) 4 = 0 \<and> n mod 4 = 0")
  case True
  then have "unat (n mod 4) = 0" by simp
  then have "4 * unat (n div 4) = unat n" by (auto simp: unat_div_distrib unat_mod_distrib mod_eq_0_iff_dvd)
  with True show ?thesis
    using stosl_eq [OF fill_word, where k = "unat (n div 4)" and a = dst and m = m] by (simp add: memset_def Let_def less_imp_le)
next
  case False
  then show ?thesis unfolding memset_def if_not_P [OF False] by (simp add: stosb_eq less_imp_le)
qed

lemma load_bytes_upd_outside:
  assumes "unat s + n \<le> 4294967296" and "unat d < unat s \<or> unat s + n \<le> unat d"
  shows "load_bytes (m(d := x)) s n = load_bytes m s n"
proof (rule nth_equalityI)
  fix i
  assume "i < length (load_bytes (m(d := x)) s n)"
  then have "i < n" by simp
  moreover from this assms(1) have "unat (s + of_nat i) = unat s + i" by (intro unat_add_of_nat) simp
  ultimately show "load_bytes (m(d := x)) s n ! i = load_bytes m s n ! i"
    using assms(2) by auto
qed simp

lemma copy_up_eq:
  "unat d + n \<le> 4294967296 \<Longrightarrow> unat s + n \<le> 4294967296 \<Longrightarrow> unat d \<le> unat s \<or> unat s + n \<le> unat d \<Longrightarrow>
   copy_up n d s m = store_bytes d (load_bytes m s n) m"
proof (induction n arbitrary: d s m)
  case 0
  then show ?case by simp
next
  case (Suc n)
  show ?case
  proof (cases "n = 0")
    case True
    then show ?thesis by (simp add: store_bytes_Cons load_bytes_Suc)
  next
    case False
    with Suc.prems have 1: "unat (d + 1) = unat d + 1" "unat (s + 1) = unat s + 1"
      using unat_add_of_nat [of d 1] unat_add_of_nat [of s 1] by simp_all
    with Suc.prems have l: "load_bytes (m(d := m s)) (s + 1) n = load_bytes m (s + 1) n"
      by (intro load_bytes_upd_outside) auto
    from 1 Suc.prems have "copy_up n (d + 1) (s + 1) (m(d := m s)) =
        store_bytes (d + 1) (load_bytes (m(d := m s)) (s + 1) n) (m(d := m s))"
      by (intro Suc.IH) auto
    with l Suc.prems show ?thesis by (simp add: load_bytes_Suc store_bytes_Cons)
  qed
qed

lemma copy_down_eq:
  "unat d + n \<le> 4294967296 \<Longrightarrow> unat s < unat d \<Longrightarrow>
   copy_down n (d + of_nat n) (s + of_nat n) m = store_bytes d (load_bytes m s n) m"
proof (induction n arbitrary: m)
  case 0
  then show ?case by simp
next
  case (Suc n)
  let ?m = "m(d + of_nat n := m (s + of_nat n))"
  from Suc.prems have "unat (d + of_nat n) = unat d + n" by (intro unat_add_of_nat) simp
  with Suc.prems have "load_bytes ?m s n = load_bytes m s n"
    by (intro load_bytes_upd_outside) auto
  with Suc show ?case
    using store_bytes_snoc [of "load_bytes m s n" d m "m (s + of_nat n)"]
    by (simp add: load_bytes_snoc algebra_simps)
qed

lemma memmove_eq:
  assumes "unat dst + unat n \<le> 4294967296" and "unat src + unat n \<le> 4294967296"
  shows "memmove dst src n m = store_bytes dst (load_bytes m src (unat n)) m"
proof (cases "src < dst \<and> src + n > dst")
  case True
  with assms show ?thesis
    using copy_down_eq [of dst "unat n" src m] by (simp add: memmove_def word_less_nat_alt)
next
  case False
  have "unat dst \<le> unat src \<or> unat src + unat n \<le> unat dst"
  proof (rule ccontr)
    assume "\<not> ?thesis"
    moreover from this assms(1) have "unat (src + n) = unat src + unat n"
      by (intro unat_add_no_wrap) linarith
    ultimately show False using False by (simp add: word_less_nat_alt)
  qed
  with assms show ?thesis unfolding memmove_def if_not_P [OF False] by (intro copy_up_eq)
qed


text \<open>
  C17: \<^verbatim>\<open>memmove\<close> is correct for overlapping buffers. As long as neither buffer wraps around the end
  of the address space, the \<open>n\<close> bytes at \<open>dst\<close> afterwards are the \<open>n\<close> bytes that were at \<open>src\<close>
  before, and no other byte changes.
\<close>

theorem memmove_correct:
  assumes "unat dst + unat n \<le> 4294967296" and "unat src + unat n \<le> 4294967296"
  shows "load_bytes (memmove dst src n m) dst (unat n) = load_bytes m src (unat n) \<and>
    (\<forall>x. unat n \<le> unat (x - dst) \<longrightarrow> memmove dst src n m x = m x)"
  unfolding memmove_eq [OF assms]
  using load_store_same [of "load_bytes m src (unat n)" dst m] by (simp add: store_outside less_imp_le)

theorem memmove_correct_witness:
  "load_bytes (memmove 0x1002 0x1000 6 (\<lambda>a. ucast a)) 0x1002 6 = [0, 1, 2, 3, 4, 5]"
proof -
  have "load_bytes (memmove 0x1002 0x1000 6 (\<lambda>a. ucast a)) 0x1002 6 = load_bytes (\<lambda>a. ucast a) 0x1000 6"
    using memmove_correct [of "0x1002" 6 "0x1000" "\<lambda>a. ucast a"] by simp
  then show ?thesis by (simp add: load_bytes_def upt_rec)
qed

subsection \<open>Strings\<close>

text \<open>The string in the first \<open>n\<close> bytes at an address: up to the first zero byte.\<close>

definition cstr :: "memory \<Rightarrow> u32 \<Rightarrow> nat \<Rightarrow> u8 list" where
  "cstr m a n = takeWhile (\<lambda>c. c \<noteq> 0) (load_bytes m a n)"

lemma cstr_simps [simp]:
  "cstr m a 0 = []"
  "cstr m a (Suc n) = (if m a = 0 then [] else m a # cstr m (a + 1) n)"
  by (simp_all add: cstr_def load_bytes_Suc)

lemma length_cstr: "length (cstr m a n) \<le> n"
  using length_takeWhile_le [of "\<lambda>c. c \<noteq> 0" "load_bytes m a n"] by (simp add: cstr_def)

lemma cstr_nonzero: "c \<in> set (cstr m a n) \<Longrightarrow> c \<noteq> 0"
  by (auto simp: cstr_def dest: set_takeWhileD)

lemma strncmp_loop_0_iff: "strncmp_loop n p q m = 0 \<longleftrightarrow> cstr m p n = cstr m q n"
  by (induction n arbitrary: p q) (auto simp: word_uint_eq_iff)

lemma strncmp_loop_swap: "strncmp_loop n q p m = - strncmp_loop n p q m"
proof (induction n arbitrary: p q)
  case 0
  then show ?case by simp
next
  case (Suc n)
  from Suc.IH [of "q + 1" "p + 1"] show ?case by auto
qed

text \<open>
  C18: \<^verbatim>\<open>strncmp\<close> returns 0 exactly when the strings in the first \<open>n\<close> bytes are the same, whatever
  follows their terminators, and swapping the arguments negates the result.
\<close>

theorem strncmp_correct:
  "(strncmp p q n m = 0 \<longleftrightarrow> cstr m p (unat n) = cstr m q (unat n)) \<and>
   strncmp q p n m = - strncmp p q n m"
  by (simp add: strncmp_def strncmp_loop_0_iff strncmp_loop_swap [of _ q p])

lemma memcmp_0_iff: "memcmp v1 v2 n m = 0 \<longleftrightarrow> load_bytes m v1 (unat n) = load_bytes m v2 (unat n)"
proof -
  have "memcmp_loop k s1 s2 m = 0 \<longleftrightarrow> load_bytes m s1 k = load_bytes m s2 k" for k s1 s2
    by (induction k arbitrary: s1 s2) (auto simp: load_bytes_Suc word_uint_eq_iff)
  then show ?thesis by (simp add: memcmp_def)
qed

lemma cstr_upd_outside:
  "unat t + n \<le> 4294967296 \<Longrightarrow> unat s < unat t \<or> unat t + n \<le> unat s \<Longrightarrow> cstr (m(s := x)) t n = cstr m t n"
  by (simp add: cstr_def load_bytes_upd_outside)

lemma apart_step:
  assumes "apart s (Suc j) t (Suc n)" and "0 < j"
  shows "apart (s + 1) j (t + 1) n"
proof -
  from assms have s: "unat (s + 1) = unat s + 1" using unat_add_of_nat [of s 1] by (simp add: apart_def)
  show ?thesis
  proof (cases "unat t + 1 < 4294967296")
    case True
    with assms s show ?thesis using unat_add_of_nat [of t 1] by (auto simp: apart_def)
  next
    case False
    with assms have n: "n = 0" and "unat t = 4294967295" by (auto simp: apart_def)
    then have "unat (t + 1) = 0" by (simp add: unat_add_u32)
    with assms s n show ?thesis by (simp add: apart_def)
  qed
qed

lemma apart_outside: "apart s (Suc j) t n \<Longrightarrow> unat t + n \<le> 4294967296 \<and> (unat s < unat t \<or> unat t + n \<le> unat s)"
  by (auto simp: apart_def)

lemma cstr_next:
  assumes "apart s (Suc j) t (Suc n)"
  shows "cstr (m(s := x)) (t + 1) n = cstr m (t + 1) n"
proof (cases "unat t + 1 < 4294967296")
  case True
  with assms show ?thesis
    using unat_add_of_nat [of t 1] by (intro cstr_upd_outside) (auto simp: apart_def)
next
  case False
  with assms have "n = 0" by (auto simp: apart_def)
  then show ?thesis by simp
qed

lemma safestrcpy_loop_eq:
  "apart s (Suc n) t n \<Longrightarrow> safestrcpy_loop n s t m =
     store_bytes s (cstr m t n @ 0 # (if length (cstr m t n) < n then [0] else [])) m"
proof (induction n arbitrary: s t m)
  case 0
  then show ?case by (simp add: store_bytes_Cons)
next
  case (Suc n)
  show ?case
  proof (cases "m t = 0")
    case True
    then show ?thesis by (simp add: store_bytes_Cons)
  next
    case False
    note ih = Suc.IH [OF apart_step [OF Suc.prems], of "m(s := m t)", unfolded cstr_next [OF Suc.prems]]
    have "length (cstr m (t + 1) n) \<le> n" by (rule length_cstr)
    moreover have "n < 4294967295" using Suc.prems by (auto simp: apart_def)
    ultimately show ?thesis using False by (simp add: ih store_bytes_Cons) (simp add: fun_upd_def)
  qed
qed

lemma store_store_append:
  assumes "length xs + length ys \<le> 4294967296"
  shows "store_bytes (a + of_nat (length xs)) ys (store_bytes a xs m) = store_bytes a (xs @ ys) m"
  using assms
proof (induction xs arbitrary: a m)
  case Nil
  then show ?case by simp
next
  case (Cons x xs)
  have "a + of_nat (length (x # xs)) = a + 1 + of_nat (length xs)" by simp
  with Cons show ?case by (simp only: append_Cons) (simp add: store_bytes_Cons)
qed

lemma strncpy_copy_eq:
  "apart s n t n \<Longrightarrow> strncpy_copy n s t m =
     (let c = cstr m t n @ (if length (cstr m t n) < n then [0] else [])
      in (n - length c, s + of_nat (length c), store_bytes s c m))"
proof (induction n arbitrary: s t m)
  case 0
  then show ?case by simp
next
  case (Suc n)
  show ?case
  proof (cases "m t = 0 \<or> n = 0")
    case True
    then show ?thesis by (auto simp: store_bytes_Cons)
  next
    case False
    with Suc.prems have ap: "apart (s + 1) n (t + 1) n" by (intro apart_step) simp_all
    note ih = Suc.IH [OF ap, of "m(s := m t)", unfolded cstr_next [OF Suc.prems]]
    have "length (cstr m (t + 1) n) \<le> n" by (rule length_cstr)
    moreover have "n < 4294967296" using Suc.prems by (auto simp: apart_def)
    ultimately show ?thesis using False by (simp add: ih store_bytes_Cons Let_def) (simp add: fun_upd_def)
  qed
qed

lemma strncpy_pad_eq: "n \<le> 4294967296 \<Longrightarrow> strncpy_pad n s m = store_bytes s (replicate n 0) m"
  by (induction n arbitrary: s m) (simp_all add: store_bytes_Cons)

lemma strncpy_eq:
  assumes "apart s (nat n) t (nat n)"
  shows "strncpy s t n m = store_bytes s (cstr m t (nat n) @ replicate (nat n - length (cstr m t (nat n))) 0) m"
proof -
  let ?c = "cstr m t (nat n)"
  define z :: "u8 list" where "z = (if length ?c < nat n then [0] else [])"
  have l: "length ?c \<le> nat n" by (rule length_cstr)
  have n: "nat n \<le> 4294967296" using assms by (auto simp: apart_def)
  have "z @ replicate (nat n - length (?c @ z)) 0 = replicate (nat n - length ?c) 0"
    by (cases "nat n - length ?c") (auto simp: z_def replicate_append_same)
  moreover have "length (?c @ z) + length (replicate (nat n - length (?c @ z)) (0 :: u8)) \<le> 4294967296"
    using n l by (simp add: z_def)
  moreover note store_store_append [OF this, of s m]
  ultimately show ?thesis using n
    by (simp add: strncpy_def strncpy_copy_eq [OF assms] Let_def strncpy_pad_eq flip: z_def)
qed

lemma load_store_longer:
  assumes "length xs \<le> n" and "n \<le> 4294967296"
  shows "load_bytes (store_bytes a xs m) a n = xs @ load_bytes m (a + of_nat (length xs)) (n - length xs)"
proof (rule nth_equalityI)
  fix i
  assume "i < length (load_bytes (store_bytes a xs m) a n)"
  with assms show "load_bytes (store_bytes a xs m) a n ! i = (xs @ load_bytes m (a + of_nat (length xs)) (n - length xs)) ! i"
    by (auto simp: store_bytes_def nth_append unat_of_nat_u32 algebra_simps of_nat_diff)
qed (use assms in simp)

text \<open>
  C19: \<^verbatim>\<open>safestrcpy\<close> always terminates its copy. For a positive size and disjoint buffers, the target
  holds the longest prefix of the source string that fits with its terminator, the terminator is
  inside the target buffer, and no byte outside that buffer changes.
\<close>

theorem safestrcpy_correct:
  assumes "0 < n" and "apart s (nat n) t (nat n)"
  shows "cstr (safestrcpy s t n m) s (nat n) = cstr m t (nat n - 1) \<and>
    safestrcpy s t n m (s + of_nat (length (cstr m t (nat n - 1)))) = 0 \<and>
    length (cstr m t (nat n - 1)) < nat n \<and>
    (\<forall>x. nat n \<le> unat (x - s) \<longrightarrow> safestrcpy s t n m x = m x)"
proof -
  define k where "k = nat n - 1"
  with assms(1) have k: "nat n = Suc k" "nat (n - 1) = k" by simp_all
  let ?c = "cstr m t k" and ?z = "if length (cstr m t k) < k then [0] else []"
  have l: "length ?c \<le> k" by (rule length_cstr)
  have kb: "Suc k \<le> 4294967296" using assms(2) k by (auto simp: apart_def)
  have "apart s (Suc k) t k" using assms(2) k by (auto simp: apart_def)
  then have eq: "safestrcpy s t n m = store_bytes s (?c @ 0 # ?z) m"
    using assms(1) k by (simp add: safestrcpy_def safestrcpy_loop_eq)
  have "load_bytes (store_bytes s (?c @ 0 # ?z) m) s (Suc k) =
      (?c @ 0 # ?z) @ load_bytes m (s + of_nat (length (?c @ 0 # ?z))) (Suc k - length (?c @ 0 # ?z))"
    using l kb by (intro load_store_longer) auto
  then have "cstr (store_bytes s (?c @ 0 # ?z) m) s (Suc k) = ?c"
    unfolding cstr_def [of "store_bytes s (?c @ 0 # ?z) m"]
    by (simp add: takeWhile_append2 cstr_nonzero)
  moreover have "store_bytes s (?c @ 0 # ?z) m (s + of_nat (length ?c)) = 0"
    using l kb by (simp add: store_bytes_def unat_of_nat_u32)
  moreover have "\<forall>x. Suc k \<le> unat (x - s) \<longrightarrow> store_bytes s (?c @ 0 # ?z) m x = m x"
    using l by (auto intro!: store_outside)
  ultimately show ?thesis using l k by (simp add: eq)
qed

theorem safestrcpy_correct_witness:
  "cstr (safestrcpy 0x2000 0x1001 4 (\<lambda>a. ucast a)) 0x2000 4 = [1, 2, 3]"
proof -
  have "cstr (safestrcpy 0x2000 0x1001 4 (\<lambda>a. ucast a)) 0x2000 4 = cstr (\<lambda>a. ucast a) 0x1001 3"
    using safestrcpy_correct [of 4 "0x2000" "0x1001" "\<lambda>a. ucast a"] by (simp add: apart_def)
  also have "\<dots> = [1, 2, 3]" by (simp add: cstr_def load_bytes_def upt_rec)
  finally show ?thesis .
qed

lemma strlen_loop_eq:
  assumes "m (s + of_nat (n + k)) = 0" and "\<And>i. i < k \<Longrightarrow> m (s + of_nat (n + i)) \<noteq> 0"
  shows "strlen_loop s n m = Some (n + k)"
  using assms
proof (induction k arbitrary: n)
  case 0
  then show ?case by (simp add: strlen_loop.simps)
next
  case (Suc k)
  have "m (s + of_nat n) \<noteq> 0" using Suc.prems(2) [of 0] by simp
  moreover have "strlen_loop s (n + 1) m = Some (n + 1 + k)"
    using Suc.prems(1) Suc.prems(2) [of "Suc i" for i] by (intro Suc.IH) (simp_all add: ac_simps)
  ultimately show ?case by (subst strlen_loop.simps) simp
qed

lemma strlen_eq: "m (s + of_nat k) = 0 \<Longrightarrow> (\<And>i. i < k \<Longrightarrow> m (s + of_nat i) \<noteq> 0) \<Longrightarrow> strlen s m = Some k"
  using strlen_loop_eq [of m s 0 k] by (simp add: strlen_def)

end
