(* ===== verification/Kalloc.thy ===== *)
theory Kalloc
  imports Console CString
begin

text \<open>
  The physical page allocator (\<^verbatim>\<open>kalloc.c\<close>). Kernel memory is the byte memory of \<open>CString\<close>; the free
  list is threaded through the first word of the free pages, as in the code. The locale
  \<open>page_allocator\<close> is the contract the clients of \<^verbatim>\<open>kalloc\<close>/\<^verbatim>\<open>kfree\<close> rely on.
\<close>

record kstate = cstate +
  mem :: memory
  use_lock :: bool     \<comment> \<open>\<^verbatim>\<open>kmem.use_lock\<close>\<close>
  freelist :: u32      \<comment> \<open>\<^verbatim>\<open>kmem.freelist\<close>\<close>
  kend :: u32          \<comment> \<open>the linker symbol \<^verbatim>\<open>end\<close>: first address after the kernel\<close>
  kdata :: u32         \<comment> \<open>the linker symbol \<^verbatim>\<open>data\<close>: end of the kernel's read-only part\<close>

definition kfree :: "u32 \<Rightarrow> 'a kstate_scheme \<Rightarrow> ('a kstate_scheme, unit) outcome" where
  "kfree v s =
     (if v mod PGSIZE \<noteq> 0 \<or> v < kend s \<or> V2P v \<ge> PHYSTOP then Panic ''kfree''
      else
        let s = s\<lparr>mem := memset v 1 PGSIZE (mem s)\<rparr>
        in obind (if use_lock s then acquire KMEM s else Ret () s) (\<lambda>_ s.
           let s = s\<lparr>mem := store32 v (freelist s) (mem s), freelist := v\<rparr>
           in if use_lock s then release KMEM s else Ret () s))"

definition kalloc :: "'a kstate_scheme \<Rightarrow> ('a kstate_scheme, u32) outcome" where
  "kalloc s =
     obind (if use_lock s then acquire KMEM s else Ret () s) (\<lambda>_ s.
     let r = freelist s;
         s = (if r \<noteq> 0 then s\<lparr>freelist := load32 (mem s) r\<rparr> else s)
     in obind (if use_lock s then release KMEM s else Ret () s) (\<lambda>_. Ret r))"

lemma kfree_Ret_page:
  assumes "kfree p s = Ret () t"
  shows "unat p + 4096 < 4294967296"
proof -
  from assms have "\<not> V2P p \<ge> PHYSTOP" by (auto simp: kfree_def split: if_splits)
  then have "unat (p - KERNBASE) < unat PHYSTOP" by (simp add: V2P_def word_le_nat_alt not_le)
  then have "unat p < 2382364672" by (auto simp: unat_sub_u32 split: if_splits)
  then show ?thesis by simp
qed

function freerange_loop :: "u32 \<Rightarrow> u32 \<Rightarrow> 'a kstate_scheme \<Rightarrow> ('a kstate_scheme, unit) outcome" where
  "freerange_loop p vend s =
     (if p + PGSIZE \<le> vend then obind (kfree p s) (\<lambda>_. freerange_loop (p + PGSIZE) vend) else Ret () s)"
  by pat_completeness auto
termination
proof (relation "measure (\<lambda>(p, vend, s). 4294967296 - unat p)")
  fix p vend :: u32 and s t :: "'a kstate_scheme" and u
  assume "kfree p s = Ret u t"
  then have "unat p + 4096 < 4294967296" by (intro kfree_Ret_page) simp
  then show "((p + PGSIZE, vend, t), p, vend, s) \<in> measure (\<lambda>(p, vend, s). 4294967296 - unat p)"
    by (simp add: unat_add_no_wrap)
qed simp

declare freerange_loop.simps [simp del]

definition freerange :: "u32 \<Rightarrow> u32 \<Rightarrow> 'a kstate_scheme \<Rightarrow> ('a kstate_scheme, unit) outcome" where
  "freerange vstart vend s = freerange_loop (PGROUNDUP vstart) vend s"

definition kinit1 :: "u32 \<Rightarrow> u32 \<Rightarrow> 'a kstate_scheme \<Rightarrow> ('a kstate_scheme, unit) outcome" where
  "kinit1 vstart vend s = freerange vstart vend ((initlock KMEM ''kmem'' s)\<lparr>use_lock := False\<rparr>)"

definition kinit2 :: "u32 \<Rightarrow> u32 \<Rightarrow> 'a kstate_scheme \<Rightarrow> ('a kstate_scheme, unit) outcome" where
  "kinit2 vstart vend s = obind (freerange vstart vend s) (\<lambda>_ s. Ret () (s\<lparr>use_lock := True\<rparr>))"

subsection \<open>The free list\<close>

text \<open>The pages of the free list in order, starting from a pointer.\<close>

fun chain :: "memory \<Rightarrow> u32 \<Rightarrow> u32 list \<Rightarrow> bool" where
  "chain m p [] \<longleftrightarrow> p = 0"
| "chain m p (x # xs) \<longleftrightarrow> p = x \<and> chain m (load32 m x) xs"

text \<open>What \<^verbatim>\<open>kfree\<close> accepts: page aligned, above the kernel, below the top of physical memory.\<close>

definition page_ok :: "u32 \<Rightarrow> u32 \<Rightarrow> bool" where
  "page_ok e v \<longleftrightarrow> v mod PGSIZE = 0 \<and> e \<le> v \<and> V2P v < PHYSTOP"

definition kmem_inv :: "u32 list \<Rightarrow> 'a kstate_scheme \<Rightarrow> bool" where
  "kmem_inv xs s \<longleftrightarrow> cpu_ok s \<and> lock_free (locks s KMEM) \<and> chain (mem s) (freelist s) xs \<and>
     distinct xs \<and> (\<forall>x \<in> set xs. page_ok (kend s) x)"

lemma page_ok_bounds:
  assumes "page_ok e v"
  shows "2147483648 \<le> unat v" and "unat v < 2382364672" and "4096 dvd unat v"
proof -
  from assms have "unat (v - KERNBASE) < 234881024" by (simp add: page_ok_def V2P_def word_less_nat_alt)
  then show "2147483648 \<le> unat v" "unat v < 2382364672" by (auto simp: unat_sub_u32 split: if_splits)
  from assms have "unat (v mod 4096) = 0" by (simp add: page_ok_def)
  then show "4096 dvd unat v" by (simp add: unat_mod_distrib mod_eq_0_iff_dvd)
qed

lemma page_ok_nonzero: "page_ok e v \<Longrightarrow> v \<noteq> 0"
  using page_ok_bounds(1) [of e v] by auto

lemma pages_apart:
  assumes "page_ok e v" and "page_ok e w" and "v \<noteq> w"
  shows "apart v 4096 w 4096"
proof -
  from page_ok_bounds(3) [OF assms(1)] obtain j where j: "unat v = 4096 * j" by (elim dvdE)
  from page_ok_bounds(3) [OF assms(2)] obtain k where k: "unat w = 4096 * k" by (elim dvdE)
  from assms(3) j k have "j \<noteq> k" by (auto simp: word_unat_eq_iff)
  then have "j < k \<or> k < j" by linarith
  with j k page_ok_bounds(2) [OF assms(1)] page_ok_bounds(2) [OF assms(2)] show ?thesis
    by (auto simp: apart_def)
qed

lemma apart_mono: "apart a j b k \<Longrightarrow> j' \<le> j \<Longrightarrow> k' \<le> k \<Longrightarrow> apart a j' b k'"
  by (auto simp: apart_def)

lemma chain_cong:
  "(\<And>x. x \<in> set xs \<Longrightarrow> load32 m x = load32 m' x) \<Longrightarrow> chain m p xs = chain m' p xs"
  by (induction xs arbitrary: p) auto

lemma chain_store_page:
  assumes "page_ok e v" and "length bs \<le> 4096" and "v \<notin> set xs" and "\<forall>x \<in> set xs. page_ok e x"
  shows "chain (store_bytes v bs m) p xs = chain m p xs"
proof (rule chain_cong)
  fix x
  assume "x \<in> set xs"
  with assms have "apart v (length bs) x 4" by (intro apart_mono [OF pages_apart [of e v x]]) auto
  then show "load32 (store_bytes v bs m) x = load32 m x" by (rule load32_store_bytes_apart)
qed

lemma kfree_spec:
  assumes "kmem_inv xs s" and "page_ok (kend s) v" and "v \<notin> set xs"
  shows "\<exists>m. kfree v s = Ret () (s\<lparr>mem := m, freelist := v\<rparr>) \<and> kmem_inv (v # xs) (s\<lparr>mem := m, freelist := v\<rparr>) \<and>
    (\<forall>x. 4096 \<le> unat (x - v) \<longrightarrow> m x = mem s x)"
proof -
  let ?m1 = "memset v 1 PGSIZE (mem s)"
  let ?m = "store32 v (freelist s) ?m1"
  let ?s1 = "s\<lparr>mem := ?m1\<rparr>" and ?t = "s\<lparr>mem := ?m, freelist := v\<rparr>"
  have ok: "cpu_ok ?t" "lock_free (locks ?t KMEM)" "cpu_ok ?s1" "lock_free (locks ?s1 KMEM)"
    using assms(1) by (simp_all add: kmem_inv_def cpu_ok_def)
  have c: "(acquired ?s1 KMEM)\<lparr>mem := store32 v (freelist (acquired ?s1 KMEM)) (mem (acquired ?s1 KMEM)), freelist := v\<rparr>
      = acquired ?t KMEM"
    by (cases s) (simp add: acquired_def)
  have u: "use_lock (acquired z KMEM) = use_lock z" for z :: "'a kstate_scheme" by (simp add: acquired_def)
  have "kfree v s = Ret () ?t"
    using assms(2) acquire_ok [OF ok(3,4)] release_acquired [OF ok(1,2)]
    by (cases "use_lock s") (auto simp: kfree_def page_ok_def Let_def c u not_le not_less)
  moreover have "kmem_inv (v # xs) ?t"
    using assms ok(1,2) page_ok_nonzero [OF assms(2)]
    by (simp add: kmem_inv_def store32_def memset_eq chain_store_page [OF assms(2)] cong: ball_cong) (simp flip: store32_def)
  moreover have "\<forall>x. 4096 \<le> unat (x - v) \<longrightarrow> ?m x = mem s x"
    by (simp add: store32_def memset_eq store_outside)
  ultimately show ?thesis by blast
qed

lemma kalloc_spec:
  assumes "kmem_inv xs s"
  shows "kalloc s = Ret (case xs of [] \<Rightarrow> 0 | x # _ \<Rightarrow> x)
      (s\<lparr>freelist := (case xs of [] \<Rightarrow> 0 | x # _ \<Rightarrow> load32 (mem s) x)\<rparr>)"
    and "kmem_inv (tl xs) (s\<lparr>freelist := (case xs of [] \<Rightarrow> 0 | x # _ \<Rightarrow> load32 (mem s) x)\<rparr>)"
proof -
  let ?f = "case xs of [] \<Rightarrow> 0 | x # _ \<Rightarrow> load32 (mem s) x"
  let ?t = "s\<lparr>freelist := ?f\<rparr>"
  have ok: "cpu_ok s" "lock_free (locks s KMEM)" "cpu_ok ?t" "lock_free (locks ?t KMEM)"
    using assms by (simp_all add: kmem_inv_def cpu_ok_def)
  have ch: "freelist s = (case xs of [] \<Rightarrow> 0 | x # _ \<Rightarrow> x)" "\<forall>x \<in> set xs. x \<noteq> 0"
    using assms page_ok_nonzero by (auto simp: kmem_inv_def split: list.splits)
  have c: "(acquired s KMEM)\<lparr>freelist := load32 (mem (acquired s KMEM)) r\<rparr> =
      acquired (s\<lparr>freelist := load32 (mem s) r\<rparr>) KMEM" for r
    by (cases s) (simp add: acquired_def)
  have u: "use_lock (acquired z KMEM) = use_lock z" "freelist (acquired z KMEM) = freelist z"
    for z :: "'a kstate_scheme" by (simp_all add: acquired_def)
  show "kalloc s = Ret (case xs of [] \<Rightarrow> 0 | x # _ \<Rightarrow> x) ?t"
  proof (cases xs)
    case Nil
    then have f: "freelist s = 0" using ch(1) by simp
    then have "s\<lparr>freelist := 0\<rparr> = s" by (cases s) simp
    then show ?thesis
      unfolding Nil kalloc_def Let_def
      by (simp add: f u acquire_ok [OF ok(1,2)] release_acquired [OF ok(1,2)])
  next
    case (Cons x ys)
    then have f: "freelist s = x" "x \<noteq> 0" using ch by simp_all
    note rel = release_acquired [OF ok(3,4), unfolded Cons, simplified]
    show ?thesis
      unfolding Cons kalloc_def Let_def
      by (simp add: f u c acquire_ok [OF ok(1,2)] rel)
  qed
  show "kmem_inv (tl xs) ?t"
    using assms ok ch by (cases xs) (auto simp: kmem_inv_def)
qed

subsection \<open>The contract of the allocator\<close>

text \<open>
  A client allocates pages, writes to the pages it owns and frees them again. \<open>page_run\<close> collects the
  pages that are handed out; the operations are parameters.
\<close>

inductive page_run ::
    "('s \<Rightarrow> ('s, u32) outcome) \<Rightarrow> (u32 \<Rightarrow> 's \<Rightarrow> ('s, unit) outcome) \<Rightarrow> (u32 \<Rightarrow> u8 \<Rightarrow> 's \<Rightarrow> 's)
     \<Rightarrow> 's \<Rightarrow> 's \<Rightarrow> u32 set \<Rightarrow> bool" for alloc free poke s where
  start: "page_run alloc free poke s s {}"
| allocd: "page_run alloc free poke s t out \<Longrightarrow> alloc t = Ret v u \<Longrightarrow>
    page_run alloc free poke s u (if v = 0 then out else insert v out)"
| freed: "page_run alloc free poke s t out \<Longrightarrow> v \<in> out \<Longrightarrow> free v t = Ret () u \<Longrightarrow>
    page_run alloc free poke s u (out - {v})"
| wrote: "page_run alloc free poke s t out \<Longrightarrow> v \<in> out \<Longrightarrow> unat (a - v) < 4096 \<Longrightarrow>
    page_run alloc free poke s (poke a b t) out"

locale page_allocator =
  fixes alloc :: "'s \<Rightarrow> ('s, u32) outcome"
    and free :: "u32 \<Rightarrow> 's \<Rightarrow> ('s, unit) outcome"
    and poke :: "u32 \<Rightarrow> u8 \<Rightarrow> 's \<Rightarrow> 's"
    and inv :: "u32 list \<Rightarrow> 's \<Rightarrow> bool"
    and usable :: "'s \<Rightarrow> u32 \<Rightarrow> bool"
  assumes alloc_law: "inv xs s \<Longrightarrow> \<exists>t. alloc s = Ret (case xs of [] \<Rightarrow> 0 | x # _ \<Rightarrow> x) t \<and>
      inv (tl xs) t \<and> usable t = usable s"
    and free_law: "inv xs s \<Longrightarrow> usable s v \<Longrightarrow> v \<notin> set xs \<Longrightarrow> \<exists>t. free v s = Ret () t \<and>
      inv (v # xs) t \<and> usable t = usable s"
    and poke_law: "inv xs s \<Longrightarrow> usable s v \<Longrightarrow> v \<notin> set xs \<Longrightarrow> unat (a - v) < 4096 \<Longrightarrow>
      inv xs (poke a b s) \<and> usable (poke a b s) = usable s"
    and inv_pages: "inv xs s \<Longrightarrow> distinct xs \<and> (\<forall>x \<in> set xs. usable s x \<and> x \<noteq> 0)"
begin

lemma run_partition:
  assumes "page_run alloc free poke s t out" and "inv xs s"
  shows "\<exists>ys. inv ys t \<and> set ys \<inter> out = {} \<and> set ys \<union> out = set xs \<and> usable t = usable s"
  using assms(1)
proof (induction rule: page_run.induct)
  case start
  then show ?case using assms(2) by auto
next
  case (allocd t out v u)
  then obtain ys where ys: "inv ys t" "set ys \<inter> out = {}" "set ys \<union> out = set xs" "usable t = usable s"
    by blast
  from alloc_law [OF ys(1)] allocd(2) have u: "v = (case ys of [] \<Rightarrow> 0 | x # _ \<Rightarrow> x)" "inv (tl ys) u"
    "usable u = usable s" using ys(4) by auto
  from inv_pages [OF ys(1)] u ys(2,3) show ?case
    by (intro exI [of _ "tl ys"]) (cases ys; auto)
next
  case (freed t out v u)
  then obtain ys where ys: "inv ys t" "set ys \<inter> out = {}" "set ys \<union> out = set xs" "usable t = usable s"
    by blast
  from freed(2) ys have v: "v \<notin> set ys" "v \<in> set xs" by auto
  with inv_pages [OF assms(2)] ys(4) have "usable t v" by simp
  from free_law [OF ys(1) this v(1)] freed(3) have "inv (v # ys) u" "usable u = usable s" using ys(4) by auto
  with v ys(2,3) freed(2) show ?case by (intro exI [of _ "v # ys"]) auto
next
  case (wrote t out v a b)
  then obtain ys where ys: "inv ys t" "set ys \<inter> out = {}" "set ys \<union> out = set xs" "usable t = usable s"
    by blast
  from wrote(2) ys have v: "v \<notin> set ys" "v \<in> set xs" by auto
  with inv_pages [OF assms(2)] ys(4) have "usable t v" by simp
  from poke_law [OF ys(1) this v(1) wrote(3)] ys show ?case by auto
qed

lemma run_alloc_fresh:
  assumes "page_run alloc free poke s t out" and "inv xs s"
  shows "\<exists>v u. alloc t = Ret v u \<and> (if out = set xs then v = 0 else v \<in> set xs \<and> v \<notin> out)"
proof -
  from run_partition [OF assms] obtain ys where ys: "inv ys t" "set ys \<inter> out = {}" "set ys \<union> out = set xs"
    by blast
  from alloc_law [OF ys(1)] obtain u where u: "alloc t = Ret (case ys of [] \<Rightarrow> 0 | x # _ \<Rightarrow> x) u" by blast
  show ?thesis
  proof (cases ys)
    case Nil
    with u ys show ?thesis by auto
  next
    case (Cons y zs)
    with u ys have "y \<in> set xs" "y \<notin> out" "out \<noteq> set xs" by auto
    with u Cons show ?thesis by simp
  qed
qed

lemma run_free_returns:
  assumes "page_run alloc free poke s t out" and "inv xs s" and "v \<in> out"
  shows "\<exists>u. free v t = Ret () u"
proof -
  from run_partition [OF assms(1,2)] obtain ys where ys: "inv ys t" "set ys \<inter> out = {}"
    "set ys \<union> out = set xs" "usable t = usable s" by blast
  from assms(3) ys have "v \<notin> set ys" "v \<in> set xs" by auto
  with inv_pages [OF assms(2)] ys(4) have "usable t v" by simp
  from free_law [OF ys(1) this \<open>v \<notin> set ys\<close>] show ?thesis by blast
qed

end

definition poke_mem :: "u32 \<Rightarrow> u8 \<Rightarrow> 'a kstate_scheme \<Rightarrow> 'a kstate_scheme" where
  "poke_mem a b s = s\<lparr>mem := (mem s)(a := b)\<rparr>"

lemma chain_poke:
  assumes "page_ok e v" and "unat (a - v) < 4096" and "v \<notin> set xs" and "\<forall>x \<in> set xs. page_ok e x"
  shows "chain (m(a := b)) p xs = chain m p xs"
proof (rule chain_cong)
  fix x
  assume "x \<in> set xs"
  with assms have "apart x 4 v 4096" by (intro apart_mono [OF pages_apart [of e x v]]) auto
  from apart_not_in [OF this assms(2)] have "4 \<le> unat (a - x)" by simp
  then have "a \<noteq> x" "a \<noteq> x + 1" "a \<noteq> x + 2" "a \<noteq> x + 3" by auto
  then show "load32 (m(a := b)) x = load32 m x" by (simp add: load32_def)
qed

interpretation kmem: page_allocator kalloc kfree poke_mem kmem_inv "\<lambda>s. page_ok (kend s)"
proof unfold_locales
  fix xs and s :: "'a kstate_scheme"
  assume "kmem_inv xs s"
  from kalloc_spec [OF this]
  show "\<exists>t. kalloc s = Ret (case xs of [] \<Rightarrow> 0 | x # _ \<Rightarrow> x) t \<and> kmem_inv (tl xs) t \<and>
      page_ok (kend t) = page_ok (kend s)"
    by auto
next
  fix xs v and s :: "'a kstate_scheme"
  assume "kmem_inv xs s" "page_ok (kend s) v" "v \<notin> set xs"
  from kfree_spec [OF this]
  show "\<exists>t. kfree v s = Ret () t \<and> kmem_inv (v # xs) t \<and> page_ok (kend t) = page_ok (kend s)" by auto
next
  fix xs v a b and s :: "'a kstate_scheme"
  assume "kmem_inv xs s" "page_ok (kend s) v" "v \<notin> set xs" "unat (a - v) < 4096"
  then show "kmem_inv xs (poke_mem a b s) \<and> page_ok (kend (poke_mem a b s)) = page_ok (kend s)"
    using chain_poke [of "kend s" v a xs "mem s" b "freelist s"]
    by (simp add: kmem_inv_def poke_mem_def cpu_ok_def)
next
  fix xs and s :: "'a kstate_scheme"
  assume "kmem_inv xs s"
  then show "distinct xs \<and> (\<forall>x \<in> set xs. page_ok (kend s) x \<and> x \<noteq> 0)"
    using page_ok_nonzero by (auto simp: kmem_inv_def)
qed


subsection \<open>Building the free list\<close>

definition pages :: "u32 \<Rightarrow> nat \<Rightarrow> u32 list" where
  "pages p n = map (\<lambda>i. p + 4096 * of_nat i) [0..<n]"

lemma pages_0 [simp]: "pages p 0 = []"
  by (simp add: pages_def)

lemma pages_Suc: "pages p (Suc n) = p # pages (p + 4096) n"
  by (rule nth_equalityI) (auto simp: pages_def nth_Cons' algebra_simps simp del: upt_Suc)

lemma freerange_loop_spec:
  assumes "kmem_inv xs s" and "unat vend < unat p + 4096 * n + 4096" and "n = 0 \<or> unat p + 4096 * n \<le> unat vend"
    and "unat p + 4096 * n + 4096 < 4294967296"
    and "\<forall>x \<in> set (pages p n). page_ok (kend s) x" and "distinct (pages p n)" and "set (pages p n) \<inter> set xs = {}"
  shows "\<exists>m f. freerange_loop p vend s = Ret () (s\<lparr>mem := m, freelist := f\<rparr>) \<and>
    kmem_inv (rev (pages p n) @ xs) (s\<lparr>mem := m, freelist := f\<rparr>)"
  using assms
proof (induction n arbitrary: p xs s)
  case 0
  then have "\<not> p + 4096 \<le> vend" by (simp add: word_le_nat_alt unat_add_no_wrap)
  then show ?case using 0(1)
    by (intro exI [of _ "mem s"] exI [of _ "freelist s"]) (subst freerange_loop.simps, simp)
next
  case (Suc n)
  have p: "unat (p + 4096) = unat p + 4096" using Suc.prems(4) by (simp add: unat_add_no_wrap)
  then have le: "p + 4096 \<le> vend" using Suc.prems(3) by (simp add: word_le_nat_alt)
  from Suc.prems have "page_ok (kend s) p" "p \<notin> set xs" by (simp_all add: pages_Suc)
  from kfree_spec [OF Suc.prems(1) this] obtain m where m: "kfree p s = Ret () (s\<lparr>mem := m, freelist := p\<rparr>)"
    "kmem_inv (p # xs) (s\<lparr>mem := m, freelist := p\<rparr>)" by blast
  have "\<exists>m' f. freerange_loop (p + 4096) vend (s\<lparr>mem := m, freelist := p\<rparr>) =
        Ret () (s\<lparr>mem := m, freelist := p, mem := m', freelist := f\<rparr>) \<and>
      kmem_inv (rev (pages (p + 4096) n) @ p # xs) (s\<lparr>mem := m, freelist := p, mem := m', freelist := f\<rparr>)"
    using Suc.prems p m(2) by (intro Suc.IH) (auto simp: pages_Suc)
  with m(1) le show ?case by (subst freerange_loop.simps) (simp add: pages_Suc)
qed

lemma pages_ok:
  assumes "unat e \<le> unat p" and "4096 dvd unat p" and "2147483648 \<le> unat p"
    and "unat p + 4096 * n \<le> 2382364672"
  shows "\<forall>x \<in> set (pages p n). page_ok e x \<and> unat p \<le> unat x \<and> unat x + 4096 \<le> unat p + 4096 * n"
    and "distinct (pages p n)"
proof -
  have nth: "unat (p + 4096 * of_nat i) = unat p + 4096 * i" if "i < n" for i
  proof -
    have "unat (p + of_nat (4096 * i)) = unat p + 4096 * i"
      using that assms(4) by (intro unat_add_of_nat) simp
    then show ?thesis by simp
  qed
  show "distinct (pages p n)"
    using nth by (auto simp: pages_def distinct_map inj_on_def word_unat_eq_iff)
  have "page_ok e (p + 4096 * of_nat i)" if "i < n" for i
  proof -
    from nth [OF that] assms(2) have "unat ((p + 4096 * of_nat i) mod 4096) = 0"
      by (simp add: unat_mod_distrib mod_eq_0_iff_dvd)
    then have "(p + 4096 * of_nat i) mod 4096 = 0" by (simp only: unat_eq_0)
    moreover have "unat (p + 4096 * of_nat i - KERNBASE) < 234881024"
      using nth [OF that] assms(3,4) that by (simp add: unat_sub_u32)
    ultimately show ?thesis using nth [OF that] assms(1)
      by (simp add: page_ok_def V2P_def word_less_nat_alt word_le_nat_alt)
  qed
  with nth show "\<forall>x \<in> set (pages p n). page_ok e x \<and> unat p \<le> unat x \<and> unat x + 4096 \<le> unat p + 4096 * n"
    by (auto simp: pages_def)
qed

text \<open>
  C4: no page is handed out twice. Start from any state whose free list is well formed and let
  clients allocate pages, write anywhere into the pages they own and free pages they own, in any
  order. Then the next \<^verbatim>\<open>kalloc\<close> returns, and its result is a page that nobody owns, or 0 exactly
  when every page is handed out; and \<^verbatim>\<open>kfree\<close> of any owned page returns without a panic.
\<close>

theorem kalloc_no_double_allocation:
  assumes "kmem_inv xs s" and "page_run kalloc kfree poke_mem s t out"
  shows "(\<exists>v u. kalloc t = Ret v u \<and> (if out = set xs then v = 0 else v \<in> set xs \<and> v \<notin> out)) \<and>
    (\<forall>v \<in> out. \<exists>u. kfree v t = Ret () u)"
  using kmem.run_alloc_fresh [OF assms(2,1)] kmem.run_free_returns [OF assms(2,1)] by blast

text \<open>
  C20: \<^verbatim>\<open>kinit1\<close> puts exactly the whole pages between the rounded-up start and the end on the free
  list, without a panic, for every range between the end of the kernel and the top of memory.
\<close>

theorem kinit1_frees_range:
  assumes "cpu_ok s" and "freelist s = 0" and "kend s \<le> vstart" and "KERNBASE \<le> kend s"
    and "unat vstart \<le> 2382364672" and "unat vend \<le> 2382364672"
  shows "\<exists>t. kinit1 vstart vend s = Ret () t \<and>
    kmem_inv (rev (pages (PGROUNDUP vstart) ((unat vend - unat (PGROUNDUP vstart)) div 4096))) t"
proof -
  define p where "p = PGROUNDUP vstart"
  define n where "n = (unat vend - unat p) div 4096"
  have up: "unat p = (unat vstart + 4095) div 4096 * 4096"
    using unat_PGROUNDUP_no_wrap [of vstart] assms(5) by (simp add: p_def)
  then have b: "4096 dvd unat p" "unat vstart \<le> unat p" "unat p \<le> 2382364672"
    using assms(5) by auto
  have lo: "2147483648 \<le> unat (kend s)" "unat (kend s) \<le> unat vstart"
    using assms(3,4) by (simp_all add: word_le_nat_alt)
  have n: "unat vend < unat p + 4096 * n + 4096" "n = 0 \<or> unat p + 4096 * n \<le> unat vend"
    by (auto simp: n_def)
  have pb: "unat p + 4096 * n \<le> 2382364672" using n(2) b(3) assms(6) by auto
  let ?s = "(initlock KMEM ''kmem'' s)\<lparr>use_lock := False\<rparr>"
  have "kmem_inv [] ?s"
    using assms(1,2) by (simp add: kmem_inv_def initlock_def cpu_ok_def lock_free_def)
  moreover have "kend ?s = kend s" by (simp add: initlock_def)
  ultimately have "\<exists>m f. freerange_loop p vend ?s = Ret () (?s\<lparr>mem := m, freelist := f\<rparr>) \<and>
      kmem_inv (rev (pages p n) @ []) (?s\<lparr>mem := m, freelist := f\<rparr>)"
    using n pb pages_ok [of "kend s" p n] b lo by (intro freerange_loop_spec) auto
  then show ?thesis by (auto simp: kinit1_def freerange_def p_def n_def)
qed

text \<open>A machine whose kernel ends at \<^verbatim>\<open>0x80115000\<close>, just before \<^verbatim>\<open>kinit1\<close>.\<close>

definition boot_kstate :: kstate where
  "boot_kstate = cstate.extend boot_cstate
     \<lparr>mem = (\<lambda>_. 0), use_lock = False, freelist = 0, kend = 0x80115000, kdata = 0x80108000\<rparr>"

lemma boot_kstate_simps [simp]:
  "cpu_ok boot_kstate" "freelist boot_kstate = 0" "kend boot_kstate = 0x80115000"
  by (simp_all add: boot_kstate_def cstate.defs boot_cstate_def pstate.defs boot_pstate_def cpu_ok_def)

theorem kinit1_frees_range_witness:
  "\<exists>t. kinit1 0x80115400 0x80118000 boot_kstate = Ret () t \<and> kmem_inv [0x80117000, 0x80116000] t"
proof -
  have "PGROUNDUP 0x80115400 = 0x80116000" by (simp add: PGROUNDUP_def)
  then show ?thesis
    using kinit1_frees_range [of boot_kstate "0x80115400" "0x80118000"]
    by (simp add: pages_def upt_rec)
qed

definition two_pages :: kstate where
  "two_pages = boot_kstate\<lparr>mem := store32 0x80117000 0x80116000 (\<lambda>_. 0), freelist := 0x80117000\<rparr>"

lemma two_pages_inv: "kmem_inv [0x80117000, 0x80116000] two_pages"
proof -
  have ap: "apart 0x80117000 4 0x80116000 4" by (simp add: apart_def)
  have "load32 (store32 0x80117000 0x80116000 (\<lambda>_. 0)) 0x80116000 = 0"
    unfolding load32_store32_apart [OF ap] by (simp add: load32_def)
  moreover have "cpu_ok two_pages" "lock_free (locks two_pages KMEM)"
    by (simp_all add: two_pages_def boot_kstate_def cstate.defs boot_cstate_def pstate.defs boot_pstate_def cpu_ok_def lock_free_def)
  moreover have "page_ok 0x80115000 0x80117000" "page_ok 0x80115000 0x80116000"
    by (simp_all add: page_ok_def V2P_def)
  ultimately show ?thesis by (simp add: kmem_inv_def two_pages_def)
qed

theorem kalloc_no_double_allocation_witness:
  "\<exists>t u. page_run kalloc kfree poke_mem two_pages t {0x80117000} \<and> kalloc t = Ret 0x80116000 u"
proof -
  obtain t where t: "kalloc two_pages = Ret 0x80117000 t"
    using kalloc_spec(1) [OF two_pages_inv] by simp
  then have run: "page_run kalloc kfree poke_mem two_pages t {0x80117000}"
    using page_run.allocd [of kalloc kfree poke_mem, OF page_run.start t] by simp
  moreover have "\<exists>u. kalloc t = Ret 0x80116000 u"
    using kalloc_no_double_allocation [OF two_pages_inv run] by auto
  ultimately show ?thesis by blast
qed

end
