(* ===== verification/Vm.thy ===== *)
theory Vm
  imports Kalloc
begin

text \<open>
  Page tables (\<^verbatim>\<open>vm.c\<close>). Page directories and page tables are pages of kernel memory; an entry is the
  32-bit word at \<open>table + 4 * index\<close>. \<open>pt_entry\<close> reads the entry that the two-level walk finds for a
  virtual address; the lemmas say how each routine changes that function, on page tables whose
  pages do not overlap each other or the free list. \<^verbatim>\<open>loaduvm\<close> is in the theory of \<^verbatim>\<open>exec\<close>, as it reads
  from an inode.
\<close>

subsection \<open>Walking and mapping\<close>

definition walkpgdir :: "u32 \<Rightarrow> u32 \<Rightarrow> bool \<Rightarrow> 'a kstate_scheme \<Rightarrow> ('a kstate_scheme, u32) outcome" where
  "walkpgdir pgdir va alloc s =
     (let pde = pgdir + 4 * PDX va
      in if load32 (mem s) pde AND PTE_P \<noteq> 0
         then Ret (P2V (PTE_ADDR (load32 (mem s) pde)) + 4 * PTX va) s
         else if \<not> alloc then Ret 0 s
         else obind (kalloc s) (\<lambda>pgtab s.
           if pgtab = 0 then Ret 0 s
           else
             let s = s\<lparr>mem := memset pgtab 0 PGSIZE (mem s)\<rparr>;
                 s = s\<lparr>mem := store32 pde (V2P pgtab OR PTE_P OR PTE_W OR PTE_U) (mem s)\<rparr>
             in Ret (pgtab + 4 * PTX va) s))"

text \<open>
  The loop of \<^verbatim>\<open>mappages\<close> from \<open>a\<close> to \<open>lst\<close> (\<^verbatim>\<open>last\<close>). Both are page addresses, so \<open>(lst - a) div 4096 + 1\<close>
  rounds always reach the test \<^verbatim>\<open>a == last\<close>, which the fuel counts down.
\<close>

primrec mappages_loop ::
    "nat \<Rightarrow> u32 \<Rightarrow> u32 \<Rightarrow> u32 \<Rightarrow> u32 \<Rightarrow> u32 \<Rightarrow> 'a kstate_scheme \<Rightarrow> ('a kstate_scheme, int) outcome" where
  "mappages_loop 0 pgdir a lst pa perm s = Undef"
| "mappages_loop (Suc n) pgdir a lst pa perm s =
     obind (walkpgdir pgdir a True s) (\<lambda>pte s.
     if pte = 0 then Ret (- 1) s
     else if load32 (mem s) pte AND PTE_P \<noteq> 0 then Panic ''remap''
     else
       let s = s\<lparr>mem := store32 pte (pa OR perm OR PTE_P) (mem s)\<rparr>
       in if a = lst then Ret 0 s
          else mappages_loop n pgdir (a + PGSIZE) lst (pa + PGSIZE) perm s)"

definition mappages ::
    "u32 \<Rightarrow> u32 \<Rightarrow> u32 \<Rightarrow> u32 \<Rightarrow> u32 \<Rightarrow> 'a kstate_scheme \<Rightarrow> ('a kstate_scheme, int) outcome" where
  "mappages pgdir va siz pa perm s =
     (let a = PGROUNDDOWN va;
          lst = PGROUNDDOWN (va + siz - 1)
      in mappages_loop (Suc (unat (lst - a) div 4096)) pgdir a lst pa perm s)"

text \<open>The table \<^verbatim>\<open>kmap\<close>: virtual address, physical start and end, permissions.\<close>

definition kmap :: "'a kstate_scheme \<Rightarrow> (u32 \<times> u32 \<times> u32 \<times> u32) list" where
  "kmap s =
    [(KERNBASE, 0, EXTMEM, PTE_W),
     (KERNLINK, V2P KERNLINK, V2P (kdata s), 0),
     (kdata s, V2P (kdata s), PHYSTOP, PTE_W),
     (DEVSPACE, DEVSPACE, 0, PTE_W)]"

primrec setupkvm_loop :: "u32 \<Rightarrow> (u32 \<times> u32 \<times> u32 \<times> u32) list \<Rightarrow> 'a kstate_scheme \<Rightarrow> ('a kstate_scheme, u32) outcome" where
  "setupkvm_loop pgdir [] s = Ret pgdir s"
| "setupkvm_loop pgdir (k # ks) s =
     (case k of (virt, phys_start, phys_end, perm) \<Rightarrow>
      obind (mappages pgdir virt (phys_end - phys_start) phys_start perm s) (\<lambda>r s.
      if r < 0 then Ret 0 s else setupkvm_loop pgdir ks s))"

definition setupkvm :: "'a kstate_scheme \<Rightarrow> ('a kstate_scheme, u32) outcome" where
  "setupkvm s =
     obind (kalloc s) (\<lambda>pgdir s.
     if pgdir = 0 then Ret 0 s
     else
       let s = s\<lparr>mem := memset pgdir 0 PGSIZE (mem s)\<rparr>
       in if P2V PHYSTOP > DEVSPACE then Panic ''PHYSTOP too high''
          else setupkvm_loop pgdir (kmap s) s)"

definition kvmalloc :: "'a kstate_scheme \<Rightarrow> ('a kstate_scheme, unit) outcome" where
  "kvmalloc s = obind (setupkvm s) (\<lambda>d s. Ret () (switchkvm (s\<lparr>kpgdir := d\<rparr>)))"

text \<open>\<^verbatim>\<open>inituvm\<close> does not test the result of its \<^verbatim>\<open>kalloc\<close>; clearing the page at address 0 is undefined.\<close>

definition inituvm :: "u32 \<Rightarrow> u32 \<Rightarrow> u32 \<Rightarrow> 'a kstate_scheme \<Rightarrow> ('a kstate_scheme, unit) outcome" where
  "inituvm pgdir init sz s =
     (if sz \<ge> PGSIZE then Panic ''inituvm: more than a page''
      else obind (kalloc s) (\<lambda>p s.
        if p = 0 then Undef
        else
          let s = s\<lparr>mem := memset p 0 PGSIZE (mem s)\<rparr>
          in obind (mappages pgdir 0 PGSIZE (V2P p) (PTE_W OR PTE_U) s) (\<lambda>_ s.
             Ret () (s\<lparr>mem := memmove p init sz (mem s)\<rparr>))))"

subsection \<open>Growing, shrinking and freeing\<close>

text \<open>
  One round of the loop of \<^verbatim>\<open>deallocuvm\<close>: the result is the next address. An address that does not
  grow any more would make the C loop start over; that cannot happen below \<^verbatim>\<open>KERNBASE\<close>.
\<close>

definition deallocuvm_step :: "u32 \<Rightarrow> u32 \<Rightarrow> 'a kstate_scheme \<Rightarrow> ('a kstate_scheme, u32) outcome" where
  "deallocuvm_step pgdir a s =
     obind (walkpgdir pgdir a False s) (\<lambda>pte s.
     if pte = 0 then Ret (PGADDR (PDX a + 1) 0 0 - PGSIZE + PGSIZE) s
     else if load32 (mem s) pte AND PTE_P \<noteq> 0 then
       let pa = PTE_ADDR (load32 (mem s) pte)
       in if pa = 0 then Panic ''kfree''
          else obind (kfree (P2V pa) s) (\<lambda>_ s. Ret (a + PGSIZE) (s\<lparr>mem := store32 pte 0 (mem s)\<rparr>))
     else Ret (a + PGSIZE) s)"

function deallocuvm_loop :: "u32 \<Rightarrow> u32 \<Rightarrow> u32 \<Rightarrow> 'a kstate_scheme \<Rightarrow> ('a kstate_scheme, unit) outcome" where
  "deallocuvm_loop pgdir a oldsz s =
     (if a < oldsz
      then obind (deallocuvm_step pgdir a s) (\<lambda>a' s. if a' \<le> a then Undef else deallocuvm_loop pgdir a' oldsz s)
      else Ret () s)"
  by pat_completeness auto
termination
  by (relation "measure (\<lambda>(pgdir, a, oldsz, s). 4294967296 - unat a)")
    (auto simp: word_le_nat_alt not_le intro!: diff_less_mono2)

declare deallocuvm_loop.simps [simp del]

definition deallocuvm :: "u32 \<Rightarrow> u32 \<Rightarrow> u32 \<Rightarrow> 'a kstate_scheme \<Rightarrow> ('a kstate_scheme, u32) outcome" where
  "deallocuvm pgdir oldsz newsz s =
     (if newsz \<ge> oldsz then Ret oldsz s
      else obind (deallocuvm_loop pgdir (PGROUNDUP newsz) oldsz s) (\<lambda>_. Ret newsz))"

text \<open>
  The loop of \<^verbatim>\<open>allocuvm\<close>. The two console messages go through \<^verbatim>\<open>cprintf\<close>. As \<open>newsz\<close> is below \<^verbatim>\<open>KERNBASE\<close>,
  the address never wraps around.
\<close>

definition allocuvm_step :: "u32 \<Rightarrow> u32 \<Rightarrow> u32 \<Rightarrow> u32 \<Rightarrow> 'a kstate_scheme \<Rightarrow> ('a kstate_scheme, bool) outcome" where
  "allocuvm_step pgdir a oldsz newsz s =
     obind (kalloc s) (\<lambda>p s.
     if p = 0 then
       obind (cprintf (Some (str ''allocuvm out of memory'' @ [10])) [] s) (\<lambda>_ s.
       obind (deallocuvm pgdir newsz oldsz s) (\<lambda>_. Ret False))
     else
       let s = s\<lparr>mem := memset p 0 PGSIZE (mem s)\<rparr>
       in obind (mappages pgdir a PGSIZE (V2P p) (PTE_W OR PTE_U) s) (\<lambda>r s.
          if r < 0 then
            obind (cprintf (Some (str ''allocuvm out of memory (2)'' @ [10])) [] s) (\<lambda>_ s.
            obind (deallocuvm pgdir newsz oldsz s) (\<lambda>_ s.
            obind (kfree p s) (\<lambda>_. Ret False)))
          else Ret True s))"

function allocuvm_loop :: "u32 \<Rightarrow> u32 \<Rightarrow> u32 \<Rightarrow> u32 \<Rightarrow> 'a kstate_scheme \<Rightarrow> ('a kstate_scheme, u32) outcome" where
  "allocuvm_loop pgdir a oldsz newsz s =
     (if a < newsz then
        obind (allocuvm_step pgdir a oldsz newsz s) (\<lambda>ok s.
        if \<not> ok then Ret 0 s
        else if a + PGSIZE \<le> a then Undef
        else allocuvm_loop pgdir (a + PGSIZE) oldsz newsz s)
      else Ret newsz s)"
  by pat_completeness auto
termination
  by (relation "measure (\<lambda>(pgdir, a, oldsz, newsz, s). 4294967296 - unat a)")
    (auto simp: word_le_nat_alt not_le intro!: diff_less_mono2)

declare allocuvm_loop.simps [simp del]

definition allocuvm :: "u32 \<Rightarrow> u32 \<Rightarrow> u32 \<Rightarrow> 'a kstate_scheme \<Rightarrow> ('a kstate_scheme, u32) outcome" where
  "allocuvm pgdir oldsz newsz s =
     (if newsz \<ge> KERNBASE then Ret 0 s
      else if newsz < oldsz then Ret oldsz s
      else allocuvm_loop pgdir (PGROUNDUP oldsz) oldsz newsz s)"

primrec freevm_loop :: "u32 \<Rightarrow> nat list \<Rightarrow> 'a kstate_scheme \<Rightarrow> ('a kstate_scheme, unit) outcome" where
  "freevm_loop pgdir [] s = Ret () s"
| "freevm_loop pgdir (i # is) s =
     (let e = load32 (mem s) (pgdir + 4 * of_nat i)
      in obind (if e AND PTE_P \<noteq> 0 then kfree (P2V (PTE_ADDR e)) s else Ret () s) (\<lambda>_. freevm_loop pgdir is))"

definition freevm :: "u32 \<Rightarrow> 'a kstate_scheme \<Rightarrow> ('a kstate_scheme, unit) outcome" where
  "freevm pgdir s =
     (if pgdir = 0 then Panic ''freevm: no pgdir''
      else
        obind (deallocuvm pgdir KERNBASE 0 s) (\<lambda>_ s.
        obind (freevm_loop pgdir [0..<NPDENTRIES] s) (\<lambda>_.
        kfree pgdir)))"

definition clearpteu :: "u32 \<Rightarrow> u32 \<Rightarrow> 'a kstate_scheme \<Rightarrow> ('a kstate_scheme, unit) outcome" where
  "clearpteu pgdir uva s =
     obind (walkpgdir pgdir uva False s) (\<lambda>pte s.
     if pte = 0 then Panic ''clearpteu''
     else Ret () (s\<lparr>mem := store32 pte (load32 (mem s) pte AND NOT PTE_U) (mem s)\<rparr>))"

subsection \<open>Copying\<close>

text \<open>The loop of \<^verbatim>\<open>copyuvm\<close>: \<open>False\<close> is the \<^verbatim>\<open>goto bad\<close>.\<close>

definition copyuvm_step :: "u32 \<Rightarrow> u32 \<Rightarrow> u32 \<Rightarrow> 'a kstate_scheme \<Rightarrow> ('a kstate_scheme, bool) outcome" where
  "copyuvm_step pgdir d i s =
     obind (walkpgdir pgdir i False s) (\<lambda>pte s.
     if pte = 0 then Panic ''copyuvm: pte should exist''
     else if load32 (mem s) pte AND PTE_P = 0 then Panic ''copyuvm: page not present''
     else
       let pa = PTE_ADDR (load32 (mem s) pte);
           flags = PTE_FLAGS (load32 (mem s) pte)
       in obind (kalloc s) (\<lambda>p s.
          if p = 0 then Ret False s
          else
            let s = s\<lparr>mem := memmove p (P2V pa) PGSIZE (mem s)\<rparr>
            in obind (mappages d i PGSIZE (V2P p) flags s) (\<lambda>r. Ret (\<not> r < 0))))"

function copyuvm_loop :: "u32 \<Rightarrow> u32 \<Rightarrow> u32 \<Rightarrow> u32 \<Rightarrow> 'a kstate_scheme \<Rightarrow> ('a kstate_scheme, bool) outcome" where
  "copyuvm_loop pgdir d i sz s =
     (if i < sz then
        obind (copyuvm_step pgdir d i s) (\<lambda>ok s.
        if \<not> ok then Ret False s
        else if i + PGSIZE \<le> i then Undef
        else copyuvm_loop pgdir d (i + PGSIZE) sz s)
      else Ret True s)"
  by pat_completeness auto
termination
  by (relation "measure (\<lambda>(pgdir, d, i, sz, s). 4294967296 - unat i)")
    (auto simp: word_le_nat_alt not_le intro!: diff_less_mono2)

declare copyuvm_loop.simps [simp del]

definition copyuvm :: "u32 \<Rightarrow> u32 \<Rightarrow> 'a kstate_scheme \<Rightarrow> ('a kstate_scheme, u32) outcome" where
  "copyuvm pgdir sz s =
     obind (setupkvm s) (\<lambda>d s.
     if d = 0 then Ret 0 s
     else obind (copyuvm_loop pgdir d 0 sz s) (\<lambda>ok s.
       if ok then Ret d s else obind (freevm d s) (\<lambda>_. Ret 0)))"

text \<open>\<^verbatim>\<open>uva2ka\<close> reads through the pointer \<^verbatim>\<open>walkpgdir\<close> returns without testing it.\<close>

definition uva2ka :: "u32 \<Rightarrow> u32 \<Rightarrow> 'a kstate_scheme \<Rightarrow> ('a kstate_scheme, u32) outcome" where
  "uva2ka pgdir uva s =
     obind (walkpgdir pgdir uva False s) (\<lambda>pte s.
     if pte = 0 then Undef
     else if load32 (mem s) pte AND PTE_P = 0 then Ret 0 s
     else if load32 (mem s) pte AND PTE_U = 0 then Ret 0 s
     else Ret (P2V (PTE_ADDR (load32 (mem s) pte))) s)"

text \<open>The part of a copy that stays within one page.\<close>

definition copyout_chunk :: "u32 \<Rightarrow> u32 \<Rightarrow> u32" where
  "copyout_chunk va len =
     (let n = PGSIZE - (va - PGROUNDDOWN va) in if n > len then len else n)"

lemma unat_sub_PGROUNDDOWN: "unat (va - PGROUNDDOWN va) = unat va mod 4096"
  by (simp add: unat_sub_u32 unat_PGROUNDDOWN minus_div_mult_eq_mod)

lemma unat_copyout_chunk: "unat (copyout_chunk va len) = min (4096 - unat va mod 4096) (unat len)"
proof -
  have "unat va mod 4096 < 4096" by simp
  then have "unat (PGSIZE - (va - PGROUNDDOWN va)) = 4096 - unat va mod 4096"
    by (simp add: unat_sub_u32 [of PGSIZE "va - PGROUNDDOWN va"] unat_sub_PGROUNDDOWN)
  then show ?thesis by (auto simp: copyout_chunk_def Let_def word_less_nat_alt min_def)
qed

function copyout :: "u32 \<Rightarrow> u32 \<Rightarrow> u32 \<Rightarrow> u32 \<Rightarrow> 'a kstate_scheme \<Rightarrow> ('a kstate_scheme, int) outcome" where
  "copyout pgdir va buf len s =
     (if len > 0 then
        let va0 = PGROUNDDOWN va
        in obind (uva2ka pgdir va0 s) (\<lambda>pa0 s.
           if pa0 = 0 then Ret (- 1) s
           else
             let n = copyout_chunk va len;
                 s = s\<lparr>mem := memmove (pa0 + (va - va0)) buf n (mem s)\<rparr>
             in copyout pgdir (va0 + PGSIZE) (buf + n) (len - n) s)
      else Ret 0 s)"
  by pat_completeness auto
termination
proof (relation "measure (\<lambda>(pgdir, va, buf, len, s). unat len)", goal_cases)
  case (2 pgdir va buf len s)
  then have "0 < unat len" by (simp add: word_less_nat_alt)
  moreover have "unat va mod 4096 < 4096" by simp
  ultimately show ?case using 2 by (auto simp: unat_sub_u32 unat_copyout_chunk)
qed simp

declare copyout.simps [simp del]


subsection \<open>Page tables in memory\<close>

definition present :: "u32 \<Rightarrow> bool" where
  "present e \<longleftrightarrow> e AND PTE_P \<noteq> 0"

definition pde :: "memory \<Rightarrow> u32 \<Rightarrow> u32 \<Rightarrow> u32" where
  "pde m pgdir i = load32 m (pgdir + 4 * i)"

definition tab :: "memory \<Rightarrow> u32 \<Rightarrow> u32 \<Rightarrow> u32" where
  "tab m pgdir i = P2V (PTE_ADDR (pde m pgdir i))"

text \<open>The page table entry for a virtual address, 0 where there is no page table.\<close>

definition pt_entry :: "memory \<Rightarrow> u32 \<Rightarrow> u32 \<Rightarrow> u32" where
  "pt_entry m pgdir va =
     (if present (pde m pgdir (PDX va)) then load32 m (tab m pgdir (PDX va) + 4 * PTX va) else 0)"

text \<open>The directory and its page tables are different pages.\<close>

definition pt_wf :: "u32 \<Rightarrow> memory \<Rightarrow> u32 \<Rightarrow> bool" where
  "pt_wf e m pgdir \<longleftrightarrow> page_ok e pgdir \<and>
     (\<forall>i < 1024. present (pde m pgdir i) \<longrightarrow> page_ok e (tab m pgdir i) \<and> tab m pgdir i \<noteq> pgdir) \<and>
     (\<forall>i < 1024. \<forall>j < 1024. i \<noteq> j \<longrightarrow> present (pde m pgdir i) \<longrightarrow> present (pde m pgdir j) \<longrightarrow>
        tab m pgdir i \<noteq> tab m pgdir j)"

definition pt_pages :: "memory \<Rightarrow> u32 \<Rightarrow> u32 set" where
  "pt_pages m pgdir = insert pgdir {tab m pgdir i | i. i < 1024 \<and> present (pde m pgdir i)}"

definition vm_ok :: "u32 list \<Rightarrow> u32 \<Rightarrow> 'a kstate_scheme \<Rightarrow> bool" where
  "vm_ok xs pgdir s \<longleftrightarrow> kmem_inv xs s \<and> pt_wf (kend s) (mem s) pgdir \<and> set xs \<inter> pt_pages (mem s) pgdir = {}"

lemma tab_in_pages: "i < 1024 \<Longrightarrow> present (pde m pgdir i) \<Longrightarrow> tab m pgdir i \<in> pt_pages m pgdir"
  by (auto simp: pt_pages_def)

lemma PDX_less [simp]: "PDX va < 1024"
proof -
  have "unat va div 4194304 < 1024" using unat_u32_less [of va] by (simp add: less_mult_imp_div_less)
  then show ?thesis by (simp add: word_less_nat_alt unat_PDX)
qed

lemma PTX_less [simp]: "PTX va < 1024"
  by (simp add: word_less_nat_alt unat_PTX)

text \<open>The entry of index \<open>i\<close> in the page \<open>p\<close> starts \<open>4 * i\<close> bytes into it.\<close>

lemma unat_entry:
  assumes "page_ok e p" and "i < 1024"
  shows "unat (p + 4 * i) = unat p + 4 * unat i"
proof -
  have i: "unat i < 1024" using assms(2) by (simp add: word_less_nat_alt)
  then have "unat (4 * i) = 4 * unat i" by (simp add: unat_word_ariths)
  with i page_ok_bounds(2) [OF assms(1)] show ?thesis by (simp add: unat_add_no_wrap)
qed

lemma entry_apart_same:
  assumes "page_ok e p" and "i < 1024" and "j < 1024" and "i \<noteq> j"
  shows "apart (p + 4 * i) 4 (p + 4 * j) 4"
proof -
  have "unat i \<noteq> unat j" using assms(4) by (simp add: word_unat_eq_iff)
  moreover have "unat i < 1024" "unat j < 1024" using assms(2,3) by (simp_all add: word_less_nat_alt)
  ultimately show ?thesis
    using unat_entry [OF assms(1,2)] unat_entry [OF assms(1,3)] page_ok_bounds(2) [OF assms(1)]
    by (auto simp: apart_def)
qed

lemma entry_apart_page:
  assumes "page_ok e p" and "page_ok e q" and "p \<noteq> q" and "i < 1024"
  shows "apart q 4096 (p + 4 * i) 4"
proof -
  have i: "unat i < 1024" using assms(4) by (simp add: word_less_nat_alt)
  with pages_apart [OF assms(1,2,3)] unat_entry [OF assms(1,4)] page_ok_bounds(2) [OF assms(2)]
  show ?thesis by (auto simp: apart_def)
qed

lemma entry_apart:
  assumes "page_ok e p" and "page_ok e q" and "p \<noteq> q" and "i < 1024" and "j < 1024"
  shows "apart (q + 4 * j) 4 (p + 4 * i) 4"
proof -
  have "unat j < 1024" using assms(5) by (simp add: word_less_nat_alt)
  with entry_apart_page [OF assms(1-4)] unat_entry [OF assms(2,5)] page_ok_bounds(2) [OF assms(2)]
  show ?thesis by (auto simp: apart_def)
qed

lemma walk_find:
  "present (pde (mem s) pgdir (PDX va)) \<Longrightarrow>
   walkpgdir pgdir va alloc s = Ret (tab (mem s) pgdir (PDX va) + 4 * PTX va) s"
  by (simp add: walkpgdir_def present_def pde_def tab_def)

lemma walk_miss: "\<not> present (pde (mem s) pgdir (PDX va)) \<Longrightarrow> walkpgdir pgdir va False s = Ret 0 s"
  by (simp add: walkpgdir_def present_def pde_def)

text \<open>A found entry is not the null pointer.\<close>

lemma entry_nonzero:
  assumes "page_ok e p" and "i < 1024"
  shows "p + 4 * i \<noteq> 0"
proof -
  have "0 < unat (p + 4 * i)" using unat_entry [OF assms] page_ok_bounds(1) [OF assms(1)] by simp
  then show ?thesis by auto
qed

subsection \<open>Storing an entry\<close>

lemma pde_store_tab:
  assumes "pt_wf e m pgdir" and "i < 1024" and "present (pde m pgdir i)" and "j < 1024" and "k < 1024"
  shows "pde (store32 (tab m pgdir i + 4 * j) v m) pgdir k = pde m pgdir k"
proof -
  from assms have "page_ok e pgdir" "page_ok e (tab m pgdir i)" "pgdir \<noteq> tab m pgdir i"
    by (auto simp: pt_wf_def)
  with assms(4,5) have "apart (tab m pgdir i + 4 * j) 4 (pgdir + 4 * k) 4" by (intro entry_apart)
  then show ?thesis by (simp add: pde_def load32_store32_apart)
qed

lemma pt_wf_cong:
  assumes "pt_wf e m pgdir" and "\<And>k. k < 1024 \<Longrightarrow> pde m' pgdir k = pde m pgdir k"
  shows "pt_wf e m' pgdir" and "pt_pages m' pgdir = pt_pages m pgdir"
proof -
  have t: "k < 1024 \<Longrightarrow> tab m' pgdir k = tab m pgdir k" for k by (simp add: tab_def assms(2))
  from assms(1) show "pt_wf e m' pgdir" by (simp add: pt_wf_def assms(2) t)
  show "pt_pages m' pgdir = pt_pages m pgdir" by (auto simp: pt_pages_def assms(2) t) (metis assms(2) t)
qed

lemma pt_entry_store:
  fixes v :: u32
  assumes "pt_wf e m pgdir" and "present (pde m pgdir (PDX va))"
  defines "m' \<equiv> store32 (tab m pgdir (PDX va) + 4 * PTX va) v m"
  shows "pt_wf e m' pgdir" and "pt_pages m' pgdir = pt_pages m pgdir"
    and "pt_entry m' pgdir va' = (if PDX va' = PDX va \<and> PTX va' = PTX va then v else pt_entry m pgdir va')"
proof -
  have p: "pde m' pgdir k = pde m pgdir k" if "k < 1024" for k
    using pde_store_tab [OF assms(1) PDX_less assms(2) PTX_less that] by (simp add: m'_def)
  show "pt_wf e m' pgdir" "pt_pages m' pgdir = pt_pages m pgdir" using pt_wf_cong [OF assms(1) p] by blast+
  have t: "tab m' pgdir (PDX va') = tab m pgdir (PDX va')" by (simp add: tab_def p)
  show "pt_entry m' pgdir va' = (if PDX va' = PDX va \<and> PTX va' = PTX va then v else pt_entry m pgdir va')"
  proof (cases "present (pde m pgdir (PDX va'))")
    case False
    then show ?thesis using assms(2) p [of "PDX va'"] by (auto simp: pt_entry_def)
  next
    case True
    show ?thesis
    proof (cases "PDX va' = PDX va \<and> PTX va' = PTX va")
      case True
      then show ?thesis using assms(2) p [of "PDX va"] t by (simp add: pt_entry_def m'_def)
    next
      case ne: False
      have ok: "page_ok e (tab m pgdir (PDX va))" "page_ok e (tab m pgdir (PDX va'))"
        using assms(1,2) True by (simp_all add: pt_wf_def)
      have "apart (tab m pgdir (PDX va) + 4 * PTX va) 4 (tab m pgdir (PDX va') + 4 * PTX va') 4"
      proof (cases "PDX va' = PDX va")
        case True
        with ne ok show ?thesis by (simp add: entry_apart_same)
      next
        case False
        with assms(1,2) True have "tab m pgdir (PDX va') \<noteq> tab m pgdir (PDX va)" by (simp add: pt_wf_def)
        with ok show ?thesis by (intro entry_apart) simp_all
      qed
      then have "load32 m' (tab m pgdir (PDX va') + 4 * PTX va') = load32 m (tab m pgdir (PDX va') + 4 * PTX va')"
        by (simp add: m'_def load32_store32_apart)
      then show ?thesis using True ne t p [of "PDX va'"] by (auto simp: pt_entry_def)
    qed
  qed
qed

subsection \<open>Allocating a page table\<close>

lemma present_or: "present (a OR b) \<longleftrightarrow> present a \<or> present b"
proof -
  have "present c \<longleftrightarrow> bit c 0" for c by (simp add: present_def and_one_eq bit_0 odd_iff_mod_2_eq_one)
  then show ?thesis by (simp add: bit_simps)
qed

lemma present_numerals [simp]: "present 1" "present 7"
  by (simp_all add: present_def)

lemma V2P_aligned:
  assumes "page_ok e p"
  shows "PTE_ADDR (V2P p) = V2P p"
proof -
  have "unat (V2P p) = unat p - 2147483648"
    using page_ok_bounds(1) [OF assms] by (simp add: V2P_def unat_sub_u32)
  then show ?thesis
    using page_ok_bounds(3) [OF assms] by (simp add: PTE_ADDR_aligned_iff dvd_diff_nat)
qed

lemma load32_zero_page:
  assumes "i < 1024"
  shows "load32 (store_bytes p (replicate 4096 0) m) (p + 4 * i) = 0"
proof -
  have i: "unat i < 1024" using assms by (simp add: word_less_nat_alt)
  have "unat (4 * i + of_nat c) < 4096" if "c < 4" for c
  proof -
    have "unat (4 * i) = 4 * unat i" using i by (simp add: unat_word_ariths)
    with i that show ?thesis using unat_add_of_nat [of "4 * i" c] by simp
  qed
  from this [of 0] this [of 1] this [of 2] this [of 3] show ?thesis
    by (simp add: load32_def store_bytes_def)
qed

lemma new_table:
  assumes "vm_ok (p # xs) pgdir s" and "\<not> present (pde (mem s) pgdir (PDX va))"
  defines "m' \<equiv> store32 (pgdir + 4 * PDX va) (V2P p OR PTE_P OR PTE_W OR PTE_U) (memset p 0 PGSIZE (mem s))"
  shows "k < 1024 \<Longrightarrow> pde m' pgdir k = (if k = PDX va then V2P p OR PTE_P OR PTE_W OR PTE_U else pde (mem s) pgdir k)"
    and "tab m' pgdir (PDX va) = p"
    and "pt_entry m' pgdir va' = pt_entry (mem s) pgdir va'"
proof -
  let ?m1 = "store_bytes p (replicate 4096 0) (mem s)" and ?e = "V2P p OR PTE_P OR PTE_W OR PTE_U"
  have m': "m' = store32 (pgdir + 4 * PDX va) ?e ?m1" by (simp add: m'_def memset_eq)
  from assms(1) have ok: "page_ok (kend s) p" "page_ok (kend s) pgdir" "pt_wf (kend s) (mem s) pgdir"
    and ne: "p \<noteq> pgdir" "\<And>i. i < 1024 \<Longrightarrow> present (pde (mem s) pgdir i) \<Longrightarrow> p \<noteq> tab (mem s) pgdir i"
    by (auto simp: vm_ok_def kmem_inv_def pt_wf_def pt_pages_def)
  have pd: "pde m' pgdir k = (if k = PDX va then ?e else pde (mem s) pgdir k)" if "k < 1024" for k
  proof -
    have "apart p 4096 (pgdir + 4 * k) 4"
      using ok ne(1) that by (intro entry_apart_page) auto
    then have "load32 ?m1 (pgdir + 4 * k) = load32 (mem s) (pgdir + 4 * k)"
      by (intro load32_store_bytes_apart) simp
    moreover have "k \<noteq> PDX va \<Longrightarrow> apart (pgdir + 4 * PDX va) 4 (pgdir + 4 * k) 4"
      using ok(2) that by (intro entry_apart_same) auto
    ultimately show ?thesis by (auto simp: pde_def m' load32_store32_apart)
  qed
  then show "k < 1024 \<Longrightarrow> pde m' pgdir k = (if k = PDX va then ?e else pde (mem s) pgdir k)" .
  have "PTE_ADDR ?e = V2P p" using PTE_ADDR_mk [OF V2P_aligned [OF ok(1)], of 7] by simp
  then show tb: "tab m' pgdir (PDX va) = p" by (simp add: tab_def pd)
  show "pt_entry m' pgdir va' = pt_entry (mem s) pgdir va'"
  proof (cases "PDX va' = PDX va")
    case True
    have "apart (pgdir + 4 * PDX va) 4 (p + 4 * PTX va') 4" using ok ne(1) by (intro entry_apart) auto
    then have "load32 m' (p + 4 * PTX va') = 0" by (simp add: m' load32_store32_apart load32_zero_page)
    with True tb assms(2) show ?thesis by (simp add: pt_entry_def pd present_or)
  next
    case False
    show ?thesis
    proof (cases "present (pde (mem s) pgdir (PDX va'))")
      case True
      let ?t = "tab (mem s) pgdir (PDX va')"
      have t: "page_ok (kend s) ?t" "?t \<noteq> pgdir" "p \<noteq> ?t" using True ok(3) ne(2) by (auto simp: pt_wf_def)
      have "apart (pgdir + 4 * PDX va) 4 (?t + 4 * PTX va') 4" "apart p 4096 (?t + 4 * PTX va') 4"
        using t ok by (auto intro!: entry_apart entry_apart_page)
      then have "load32 m' (?t + 4 * PTX va') = load32 (mem s) (?t + 4 * PTX va')"
        by (simp add: m' load32_store32_apart load32_store_bytes_apart)
      moreover have "tab m' pgdir (PDX va') = ?t" using False by (simp add: tab_def pd)
      ultimately show ?thesis using False True by (simp add: pt_entry_def pd)
    next
      case absent: False
      with False show ?thesis by (simp add: pt_entry_def pd)
    qed
  qed
qed


text \<open>
  What \<^verbatim>\<open>walkpgdir\<close> with allocation does: it may take pages from the front of the free list for page
  tables, but no entry of the address space changes, and no byte outside the page table and the
  pages it took.
\<close>

definition walk_frame :: "u32 list \<Rightarrow> u32 list \<Rightarrow> u32 \<Rightarrow> 'a kstate_scheme \<Rightarrow> 'a kstate_scheme \<Rightarrow> bool" where
  "walk_frame xs ys pgdir s t \<longleftrightarrow> (\<exists>us. xs = us @ ys) \<and> (\<exists>m f. t = s\<lparr>mem := m, freelist := f\<rparr>) \<and>
     pt_pages (mem s) pgdir \<subseteq> pt_pages (mem t) pgdir \<and>
     pt_pages (mem t) pgdir \<subseteq> pt_pages (mem s) pgdir \<union> (set xs - set ys) \<and>
     (\<forall>q x. page_ok (kend s) q \<longrightarrow> q \<notin> set xs \<longrightarrow> q \<notin> pt_pages (mem s) pgdir \<longrightarrow> unat (x - q) < 4096 \<longrightarrow>
        mem t x = mem s x)"

lemma apart_sym: "apart a j b k \<Longrightarrow> apart b k a j"
  by (auto simp: apart_def)

lemma in_page: "unat (x - q) < 4096 \<Longrightarrow> \<exists>j < 4096. x = q + of_nat j"
  by (rule exI [of _ "unat (x - q)"]) simp

lemma chain_entry:
  assumes "page_ok e p" and "i < 1024" and "p \<notin> set xs" and "\<forall>x \<in> set xs. page_ok e x"
  shows "chain (store32 (p + 4 * i) v m) f xs = chain m f xs"
proof (rule chain_cong)
  fix x
  assume "x \<in> set xs"
  with assms have "apart (p + 4 * i) 4 (x + 4 * 0) 4" by (intro entry_apart) auto
  then show "load32 (store32 (p + 4 * i) v m) x = load32 m x" by (simp add: load32_store32_apart)
qed

lemma store32_other_page:
  assumes "page_ok e p" and "page_ok e q" and "p \<noteq> q" and "i < 1024" and "unat (x - q) < 4096"
  shows "store32 (p + 4 * i) v m x = m x"
proof -
  from in_page [OF assms(5)] obtain j where "j < 4096" "x = q + of_nat j" by blast
  with apart_not_in [OF apart_sym [OF entry_apart_page [OF assms(1-4)]], of j]
  show ?thesis unfolding store32_def by (intro store_outside) simp
qed

lemma fill_other_page:
  assumes "page_ok e p" and "page_ok e q" and "p \<noteq> q" and "unat (x - q) < 4096"
  shows "store_bytes p (replicate 4096 c) m x = m x"
proof -
  from in_page [OF assms(4)] obtain j where "j < 4096" "x = q + of_nat j" by blast
  with apart_not_in [OF pages_apart [OF assms(1-3)], of j] show ?thesis by (intro store_outside) simp
qed

lemma new_table_ok:
  assumes "vm_ok (p # ys) pgdir s" and "\<not> present (pde (mem s) pgdir (PDX va))"
  defines "m' \<equiv> store32 (pgdir + 4 * PDX va) (V2P p OR PTE_P OR PTE_W OR PTE_U) (memset p 0 PGSIZE (mem s))"
  defines "t \<equiv> s\<lparr>mem := m', freelist := load32 (mem s) p\<rparr>"
  shows "vm_ok ys pgdir t" and "pt_pages m' pgdir = insert p (pt_pages (mem s) pgdir)"
    and "walk_frame (p # ys) ys pgdir s t"
proof -
  note nt = new_table [OF assms(1,2), folded m'_def]
  have inv: "kmem_inv (p # ys) s" and wf: "pt_wf (kend s) (mem s) pgdir"
    and dis: "set (p # ys) \<inter> pt_pages (mem s) pgdir = {}"
    using assms(1) by (simp_all add: vm_ok_def)
  have ok: "page_ok (kend s) p" "page_ok (kend s) pgdir" "p \<noteq> pgdir" "p \<notin> set ys" "pgdir \<notin> set ys"
    "\<forall>y \<in> set ys. page_ok (kend s) y"
    using inv wf dis by (auto simp: kmem_inv_def pt_wf_def pt_pages_def)
  have ne: "i < 1024 \<Longrightarrow> present (pde (mem s) pgdir i) \<Longrightarrow> p \<noteq> tab (mem s) pgdir i" for i
    using dis by (auto simp: pt_pages_def)
  have pr: "present (pde m' pgdir (PDX va))" by (simp add: nt(1) present_or)
  have old: "i < 1024 \<Longrightarrow> i \<noteq> PDX va \<Longrightarrow> pde m' pgdir i = pde (mem s) pgdir i \<and> tab m' pgdir i = tab (mem s) pgdir i" for i
    by (simp add: nt(1) tab_def)
  have "pt_wf (kend s) m' pgdir"
    unfolding pt_wf_def
  proof (intro conjI allI impI)
    show "page_ok (kend s) pgdir" by (rule ok)
  next
    fix i :: u32
    assume "i < 1024" "present (pde m' pgdir i)"
    then show "page_ok (kend s) (tab m' pgdir i)" "tab m' pgdir i \<noteq> pgdir"
      using old [of i] nt(2) ok wf by (cases "i = PDX va"; simp add: pt_wf_def)+
  next
    fix i j :: u32
    assume "i < 1024" "j < 1024" "i \<noteq> j" "present (pde m' pgdir i)" "present (pde m' pgdir j)"
    then show "tab m' pgdir i \<noteq> tab m' pgdir j"
      using old [of i] old [of j] nt(2) ne [of i] ne [of j] wf
      by (cases "i = PDX va"; cases "j = PDX va") (auto simp: pt_wf_def)
  qed
  moreover have "tab m' pgdir i \<in> insert p (pt_pages (mem s) pgdir)" if "i < 1024" "present (pde m' pgdir i)" for i
    using that old [of i] nt(2) by (cases "i = PDX va") (auto simp: pt_pages_def)
  moreover have "tab (mem s) pgdir i \<in> pt_pages m' pgdir" if "i < 1024" "present (pde (mem s) pgdir i)" for i
    using that old [of i] assms(2) tab_in_pages [of i m' pgdir] by (cases "i = PDX va") auto
  moreover have "p \<in> pt_pages m' pgdir" using pr nt(2) tab_in_pages [of "PDX va" m' pgdir] by simp
  ultimately show pp: "pt_pages m' pgdir = insert p (pt_pages (mem s) pgdir)"
    by (auto simp: pt_pages_def)
  have "chain m' (load32 (mem s) p) ys = chain (mem s) (load32 (mem s) p) ys"
    using ok by (simp add: m'_def chain_entry memset_eq chain_store_page)
  then have "kmem_inv ys t"
    using inv by (simp add: kmem_inv_def t_def cpu_ok_def)
  with \<open>pt_wf (kend s) m' pgdir\<close> pp dis ok show "vm_ok ys pgdir t" by (auto simp: vm_ok_def t_def)
  have "m' x = mem s x" if q: "page_ok (kend s) q" "q \<notin> set (p # ys)" "q \<notin> pt_pages (mem s) pgdir" "unat (x - q) < 4096" for q x
  proof -
    have "pgdir \<noteq> q" "p \<noteq> q" using q(2,3) by (auto simp: pt_pages_def)
    then show ?thesis
      using store32_other_page [OF ok(2) q(1) _ _ q(4)] fill_other_page [OF ok(1) q(1) _ q(4)]
      by (simp add: m'_def memset_eq)
  qed
  then show "walk_frame (p # ys) ys pgdir s t"
    using pp ok(4) unfolding walk_frame_def by (auto simp: t_def)
qed

lemma walk_alloc:
  assumes "vm_ok xs pgdir s"
  shows "\<exists>ys t. vm_ok ys pgdir t \<and> walk_frame xs ys pgdir s t \<and>
    (\<forall>v. pt_entry (mem t) pgdir v = pt_entry (mem s) pgdir v) \<and>
    (walkpgdir pgdir va True s = Ret 0 t \<and> xs = [] \<or>
     present (pde (mem t) pgdir (PDX va)) \<and>
     walkpgdir pgdir va True s = Ret (tab (mem t) pgdir (PDX va) + 4 * PTX va) t)"
proof (cases "present (pde (mem s) pgdir (PDX va))")
  case True
  have "walk_frame xs xs pgdir s s"
    unfolding walk_frame_def by (auto intro!: exI [of _ "mem s"] exI [of _ "freelist s"])
  with True assms walk_find [OF True] show ?thesis by blast
next
  case False
  have inv: "kmem_inv xs s" using assms by (simp add: vm_ok_def)
  show ?thesis
  proof (cases xs)
    case Nil
    let ?t = "s\<lparr>freelist := 0\<rparr>"
    have "walkpgdir pgdir va True s = Ret 0 ?t"
      using False kalloc_spec(1) [OF inv] Nil by (simp add: walkpgdir_def present_def pde_def)
    moreover have "vm_ok [] pgdir ?t"
      using assms kalloc_spec(2) [OF inv] Nil by (simp add: vm_ok_def)
    moreover have "walk_frame [] [] pgdir s ?t"
      unfolding walk_frame_def by (auto intro!: exI [of _ "mem s"])
    ultimately show ?thesis using Nil by (intro exI [of _ "[]"] exI [of _ ?t]) simp
  next
    case (Cons p ys)
    let ?m = "store32 (pgdir + 4 * PDX va) (V2P p OR PTE_P OR PTE_W OR PTE_U) (memset p 0 PGSIZE (mem s))"
    let ?t = "s\<lparr>mem := ?m, freelist := load32 (mem s) p\<rparr>"
    have vm: "vm_ok (p # ys) pgdir s" using assms Cons by simp
    have "p \<noteq> 0" using inv Cons page_ok_nonzero by (auto simp: kmem_inv_def)
    then have w: "walkpgdir pgdir va True s = Ret (p + 4 * PTX va) ?t"
      using False kalloc_spec(1) [OF inv] Cons by (simp add: walkpgdir_def present_def pde_def Let_def)
    show ?thesis
      using new_table [OF vm False] new_table_ok [OF vm False] w Cons
      by (intro exI [of _ ys] exI [of _ ?t]) (simp add: present_or)
  qed
qed


lemma walk_frame_refl [simp]: "walk_frame xs xs pgdir s s"
  unfolding walk_frame_def by (auto intro!: exI [of _ "mem s"] exI [of _ "freelist s"])

lemma walk_frame_trans:
  assumes "walk_frame xs ys pgdir s t" and "walk_frame ys zs pgdir t u"
  shows "walk_frame xs zs pgdir s u"
  unfolding walk_frame_def
proof (intro conjI allI impI)
  show "\<exists>us. xs = us @ zs" using assms unfolding walk_frame_def by (metis append.assoc)
  from assms obtain m f m' f' where "t = s\<lparr>mem := m, freelist := f\<rparr>" "u = t\<lparr>mem := m', freelist := f'\<rparr>"
    unfolding walk_frame_def by blast
  then have "u = s\<lparr>mem := m', freelist := f'\<rparr>" by simp
  then show "\<exists>m f. u = s\<lparr>mem := m, freelist := f\<rparr>" by blast
  have sub: "set zs \<subseteq> set ys" "set ys \<subseteq> set xs" "kend t = kend s" using assms unfolding walk_frame_def by auto
  show "pt_pages (mem s) pgdir \<subseteq> pt_pages (mem u) pgdir" using assms unfolding walk_frame_def by blast
  show "pt_pages (mem u) pgdir \<subseteq> pt_pages (mem s) pgdir \<union> (set xs - set zs)"
    using assms sub unfolding walk_frame_def by blast
  fix q x
  assume q: "page_ok (kend s) q" "q \<notin> set xs" "q \<notin> pt_pages (mem s) pgdir" "unat (x - q) < 4096"
  then have "mem t x = mem s x" using assms(1) unfolding walk_frame_def by blast
  moreover have "q \<notin> set ys" "q \<notin> pt_pages (mem t) pgdir" using q sub assms(1) unfolding walk_frame_def by blast+
  with q sub(3) have "mem u x = mem t x" using assms(2) unfolding walk_frame_def by simp
  ultimately show "mem u x = mem s x" by simp
qed

lemma store_entry_ok:
  fixes v :: u32
  assumes "vm_ok xs pgdir s" and "present (pde (mem s) pgdir (PDX va))"
  defines "t \<equiv> s\<lparr>mem := store32 (tab (mem s) pgdir (PDX va) + 4 * PTX va) v (mem s)\<rparr>"
  shows "vm_ok xs pgdir t" and "walk_frame xs xs pgdir s t"
proof -
  have inv: "kmem_inv xs s" and wf: "pt_wf (kend s) (mem s) pgdir" and dis: "set xs \<inter> pt_pages (mem s) pgdir = {}"
    using assms(1) by (simp_all add: vm_ok_def)
  let ?p = "tab (mem s) pgdir (PDX va)"
  have p: "page_ok (kend s) ?p" "?p \<in> pt_pages (mem s) pgdir"
    using wf assms(2) tab_in_pages by (auto simp: pt_wf_def)
  note st = pt_entry_store [OF wf assms(2)]
  have "chain (store32 (?p + 4 * PTX va) v (mem s)) (freelist s) xs = chain (mem s) (freelist s) xs"
    using p dis inv by (intro chain_entry [of "kend s"]) (auto simp: kmem_inv_def)
  with inv st dis show "vm_ok xs pgdir t" by (simp add: vm_ok_def kmem_inv_def t_def cpu_ok_def)
  have "store32 (?p + 4 * PTX va) v (mem s) x = mem s x"
    if "page_ok (kend s) q" "q \<notin> pt_pages (mem s) pgdir" "unat (x - q) < 4096" for q x
    using that p by (intro store32_other_page [of "kend s" ?p q]) auto
  then show "walk_frame xs xs pgdir s t"
    unfolding walk_frame_def t_def by (auto simp: st(2) intro!: exI [of _ "freelist s"])
qed

lemma same_page_iff: "PDX v = PDX w \<and> PTX v = PTX w \<longleftrightarrow> unat v div 4096 = unat w div 4096"
proof -
  have "unat v div 4194304 = unat v div 4096 div 1024" for v :: u32 by (simp add: div_mult2_eq [symmetric])
  then show ?thesis
    by (simp add: word_unat_eq_iff unat_PDX unat_PTX) (metis div_mod_decomp)
qed

text \<open>The page number of an address, and an address space with a range of pages mapped to consecutive frames.\<close>

abbreviation pgno :: "u32 \<Rightarrow> nat" where
  "pgno a \<equiv> unat a div 4096"

definition map_range :: "u32 \<Rightarrow> nat \<Rightarrow> u32 \<Rightarrow> u32 \<Rightarrow> (u32 \<Rightarrow> u32) \<Rightarrow> u32 \<Rightarrow> u32" where
  "map_range a n pa perm f = (\<lambda>v. if pgno a \<le> pgno v \<and> pgno v \<le> pgno a + n
     then (pa + 4096 * of_nat (pgno v - pgno a)) OR perm OR PTE_P else f v)"

lemma map_range_Suc:
  assumes "unat a + 4096 < 4294967296"
  shows "map_range (a + 4096) n (pa + 4096) perm (map_range a 0 pa perm f) = map_range a (Suc n) pa perm f"
proof
  fix v
  have b: "pgno (a + 4096) = pgno a + 1" using assms by (simp add: unat_add_no_wrap)
  show "map_range (a + 4096) n (pa + 4096) perm (map_range a 0 pa perm f) v = map_range a (Suc n) pa perm f v"
  proof (cases "pgno v = pgno a")
    case False
    then have "pgno a \<le> pgno v \<longleftrightarrow> pgno a + 1 \<le> pgno v" by linarith
    moreover have "pgno v - pgno a = Suc (pgno v - (pgno a + 1))" if "pgno a + 1 \<le> pgno v" using that by simp
    ultimately show ?thesis using False by (auto simp: map_range_def b algebra_simps)
  qed (simp add: map_range_def b)
qed

lemma map_one:
  assumes "vm_ok xs pgdir s" and "\<not> present (pt_entry (mem s) pgdir a)"
  shows "\<exists>ys t. vm_ok ys pgdir t \<and> walk_frame xs ys pgdir s t \<and>
    (walkpgdir pgdir a True s = Ret 0 t \<and> ys = [] \<or>
     (\<exists>pte u. walkpgdir pgdir a True s = Ret pte u \<and> pte \<noteq> 0 \<and> load32 (mem u) pte AND PTE_P = 0 \<and>
        t = u\<lparr>mem := store32 pte (pa OR perm OR PTE_P) (mem u)\<rparr> \<and>
        pt_entry (mem t) pgdir = map_range a 0 pa perm (pt_entry (mem s) pgdir)))"
proof -
  let ?e = "pa OR perm OR PTE_P"
  from walk_alloc [OF assms(1), of a] obtain ys u where u: "vm_ok ys pgdir u" "walk_frame xs ys pgdir s u"
    "\<forall>v. pt_entry (mem u) pgdir v = pt_entry (mem s) pgdir v"
    "walkpgdir pgdir a True s = Ret 0 u \<and> xs = [] \<or> present (pde (mem u) pgdir (PDX a)) \<and>
     walkpgdir pgdir a True s = Ret (tab (mem u) pgdir (PDX a) + 4 * PTX a) u"
    by blast
  show ?thesis
  proof (cases "walkpgdir pgdir a True s = Ret 0 u \<and> xs = []")
    case True
    with u(2) have "ys = []" by (simp add: walk_frame_def)
    with True u(1,2) show ?thesis by blast
  next
    case False
    let ?pte = "tab (mem u) pgdir (PDX a) + 4 * PTX a"
    let ?t = "u\<lparr>mem := store32 ?pte ?e (mem u)\<rparr>"
    from False u(4) have pr: "present (pde (mem u) pgdir (PDX a))"
      and w: "walkpgdir pgdir a True s = Ret ?pte u" by blast+
    have wf: "pt_wf (kend u) (mem u) pgdir" using u(1) by (simp add: vm_ok_def)
    have "?pte \<noteq> 0" using wf pr by (intro entry_nonzero [of "kend u"]) (simp_all add: pt_wf_def)
    moreover have "load32 (mem u) ?pte AND PTE_P = 0"
      using assms(2) u(3) [rule_format, of a] pr by (simp add: pt_entry_def present_def)
    moreover have "pt_entry (mem ?t) pgdir = map_range a 0 pa perm (pt_entry (mem s) pgdir)"
      using pt_entry_store(3) [OF wf pr, of ?e] u(3) by (auto simp: same_page_iff map_range_def fun_eq_iff)
    ultimately show ?thesis
      using w store_entry_ok [OF u(1) pr] walk_frame_trans [OF u(2)] by blast
  qed
qed

lemma mappages_loop_step:
  assumes "walkpgdir pgdir a True s = Ret pte u" and "pte \<noteq> 0" and "load32 (mem u) pte AND PTE_P = 0"
  shows "mappages_loop (Suc n) pgdir a lst pa perm s =
    (let t = u\<lparr>mem := store32 pte (pa OR perm OR PTE_P) (mem u)\<rparr>
     in if a = lst then Ret 0 t else mappages_loop n pgdir (a + 4096) lst (pa + 4096) perm t)"
  using assms by (simp add: Let_def)

lemma mappages_loop_spec:
  assumes "vm_ok xs pgdir s" and "4096 dvd unat a" and "unat a + 4096 * n < 4294967296"
    and "lst = a + 4096 * of_nat n"
    and "\<forall>v. pgno a \<le> pgno v \<and> pgno v \<le> pgno a + n \<longrightarrow> \<not> present (pt_entry (mem s) pgdir v)"
  shows "\<exists>ys t r. mappages_loop (Suc n) pgdir a lst pa perm s = Ret r t \<and> vm_ok ys pgdir t \<and>
    walk_frame xs ys pgdir s t \<and> (r = - 1 \<and> ys = [] \<or>
      r = 0 \<and> pt_entry (mem t) pgdir = map_range a n pa perm (pt_entry (mem s) pgdir))"
  using assms
proof (induction n arbitrary: a pa xs s)
  case 0
  then have "\<not> present (pt_entry (mem s) pgdir a)" by simp
  from map_one [OF 0(1) this, of pa perm] 0(4) show ?case by (fastforce simp: Let_def)
next
  case (Suc n)
  let ?b = "a + 4096"
  have b: "unat ?b = unat a + 4096" using Suc.prems(3) by (simp add: unat_add_no_wrap)
  have "unat (a + of_nat (4096 * Suc n)) = unat a + 4096 * Suc n"
    using Suc.prems(3) by (intro unat_add_of_nat) simp
  then have ne: "a \<noteq> lst" using Suc.prems(4) by (auto simp: algebra_simps)
  have "\<not> present (pt_entry (mem s) pgdir a)" using Suc.prems(5) by simp
  from map_one [OF Suc.prems(1) this, of pa perm] obtain ys t where t: "vm_ok ys pgdir t" "walk_frame xs ys pgdir s t"
    "walkpgdir pgdir a True s = Ret 0 t \<and> ys = [] \<or>
     (\<exists>pte u. walkpgdir pgdir a True s = Ret pte u \<and> pte \<noteq> 0 \<and> load32 (mem u) pte AND PTE_P = 0 \<and>
        t = u\<lparr>mem := store32 pte (pa OR perm OR PTE_P) (mem u)\<rparr> \<and>
        pt_entry (mem t) pgdir = map_range a 0 pa perm (pt_entry (mem s) pgdir))"
    by blast
  from t(3) show ?case
  proof
    assume "walkpgdir pgdir a True s = Ret 0 t \<and> ys = []"
    with t show ?thesis by auto
  next
    assume "\<exists>pte u. walkpgdir pgdir a True s = Ret pte u \<and> pte \<noteq> 0 \<and> load32 (mem u) pte AND PTE_P = 0 \<and>
        t = u\<lparr>mem := store32 pte (pa OR perm OR PTE_P) (mem u)\<rparr> \<and>
        pt_entry (mem t) pgdir = map_range a 0 pa perm (pt_entry (mem s) pgdir)"
    then have loop: "mappages_loop (Suc (Suc n)) pgdir a lst pa perm s = mappages_loop (Suc n) pgdir ?b lst (pa + 4096) perm t"
      and ent: "pt_entry (mem t) pgdir = map_range a 0 pa perm (pt_entry (mem s) pgdir)"
      using ne mappages_loop_step by (force simp: Let_def)+
    have "\<exists>zs w r. mappages_loop (Suc n) pgdir ?b lst (pa + 4096) perm t = Ret r w \<and> vm_ok zs pgdir w \<and>
      walk_frame ys zs pgdir t w \<and> (r = - 1 \<and> zs = [] \<or> r = 0 \<and>
        pt_entry (mem w) pgdir = map_range ?b n (pa + 4096) perm (pt_entry (mem t) pgdir))"
      using Suc.prems b by (intro Suc.IH [OF t(1)]) (auto simp: ent map_range_def algebra_simps)
    moreover have "map_range ?b n (pa + 4096) perm (pt_entry (mem t) pgdir) =
        map_range a (Suc n) pa perm (pt_entry (mem s) pgdir)"
      using Suc.prems(3) by (simp only: ent) (simp add: map_range_Suc)
    ultimately show ?thesis unfolding loop using walk_frame_trans [OF t(2)] by metis
  qed
qed

text \<open>
  C10: \<^verbatim>\<open>mappages\<close> maps exactly the pages it is asked to. On a well-formed page table, for a non-empty
  range that does not wrap around and is not mapped yet, it returns 0 or -1. When it returns 0, the
  entry of every page of the range is the consecutive physical page with the permissions and the
  present bit, and every other entry of the address space is unchanged; -1 means that the free list
  is empty. In both cases the page table stays well formed and no page that is neither part of it
  nor was free has changed.
\<close>

theorem mappages_correct:
  assumes "vm_ok xs pgdir s" and "0 < siz" and "unat va + unat siz \<le> 4294967296"
    and "\<forall>v. pgno va \<le> pgno v \<and> pgno v \<le> (unat va + unat siz - 1) div 4096 \<longrightarrow> \<not> present (pt_entry (mem s) pgdir v)"
  shows "\<exists>ys t r. mappages pgdir va siz pa perm s = Ret r t \<and> vm_ok ys pgdir t \<and> walk_frame xs ys pgdir s t \<and>
    (r = - 1 \<and> ys = [] \<or> r = 0 \<and> (\<forall>v. pt_entry (mem t) pgdir v =
      (if pgno va \<le> pgno v \<and> pgno v \<le> (unat va + unat siz - 1) div 4096
       then (pa + 4096 * of_nat (pgno v - pgno va)) OR perm OR PTE_P else pt_entry (mem s) pgdir v)))"
proof -
  define a lst n where "a = PGROUNDDOWN va" and "lst = PGROUNDDOWN (va + siz - 1)"
    and "n = (unat va + unat siz - 1) div 4096 - pgno va"
  have sz: "0 < unat siz" using assms(2) by (simp add: word_less_nat_alt)
  have s1: "unat (siz - 1) = unat siz - 1" using sz by (simp add: unat_sub_u32)
  have a1: "va + siz - 1 = va + (siz - 1)" by simp
  have e: "unat (va + siz - 1) = unat va + unat siz - 1"
    unfolding a1 using unat_add_no_wrap [of va "siz - 1"] s1 sz assms(3) by simp
  have pa: "pgno a = pgno va" "4096 dvd unat a" "unat a = 4096 * pgno va" by (simp_all add: a_def unat_PGROUNDDOWN)
  have le: "pgno va \<le> (unat va + unat siz - 1) div 4096" using sz by (intro div_le_mono) simp
  have ul: "unat lst = 4096 * (pgno va + n)" using e le by (simp add: lst_def unat_PGROUNDDOWN n_def)
  have lt: "unat a + 4096 * n < 4294967296" using ul pa(3) unat_u32_less [of lst] by simp
  have "unat (a + of_nat (4096 * n)) = unat a + 4096 * n" using lt by (rule unat_add_of_nat)
  then have l: "lst = a + 4096 * of_nat n" using ul pa(3) by (intro u32_eqI) (simp add: algebra_simps)
  have un: "unat (lst - a) div 4096 = n" using ul pa(3) by (simp add: unat_sub_u32)
  have "\<exists>ys t r. mappages_loop (Suc n) pgdir a lst pa perm s = Ret r t \<and> vm_ok ys pgdir t \<and>
      walk_frame xs ys pgdir s t \<and> (r = - 1 \<and> ys = [] \<or>
        r = 0 \<and> pt_entry (mem t) pgdir = map_range a n pa perm (pt_entry (mem s) pgdir))"
    using assms(1,4) pa lt l le by (intro mappages_loop_spec) (auto simp: n_def)
  moreover have "mappages pgdir va siz pa perm s = mappages_loop (Suc n) pgdir a lst pa perm s"
    by (simp only: mappages_def Let_def un flip: a_def lst_def)
  moreover have "map_range a n pa perm f v = (if pgno va \<le> pgno v \<and> pgno v \<le> (unat va + unat siz - 1) div 4096
      then (pa + 4096 * of_nat (pgno v - pgno va)) OR perm OR PTE_P else f v)" for f v
    using pa(1) le by (simp add: map_range_def n_def)
  ultimately show ?thesis by (simp only: fun_eq_iff)
qed


text \<open>A page directory with no entries next to a free list of two pages.\<close>

lemma empty_pgdir_ok: "vm_ok [0x80117000, 0x80116000] 0x80118000 two_pages"
  and empty_pgdir_entry: "pt_entry (mem two_pages) 0x80118000 v = 0"
proof -
  have ok: "page_ok 0x80115000 0x80118000" "page_ok 0x80115000 0x80117000"
    by (simp_all add: page_ok_def V2P_def)
  have pd: "pde (mem two_pages) 0x80118000 i = 0" if "i < 1024" for i
  proof -
    have "apart 0x80117000 4096 (0x80118000 + 4 * i) 4"
      by (rule entry_apart_page [OF ok _ that]) simp
    then have "apart 0x80117000 4 (0x80118000 + 4 * i) 4" by (rule apart_mono) simp_all
    then show ?thesis
      unfolding pde_def two_pages_def by (simp add: load32_store32_apart) (simp add: load32_def)
  qed
  then have np: "i < 1024 \<Longrightarrow> \<not> present (pde (mem two_pages) 0x80118000 i)" for i
    by (simp add: present_def)
  have k: "kend two_pages = 0x80115000" by (simp add: two_pages_def)
  have "pt_wf (kend two_pages) (mem two_pages) 0x80118000" using np ok(1) by (simp add: pt_wf_def k)
  moreover have "pt_pages (mem two_pages) 0x80118000 = {0x80118000}" using np by (auto simp: pt_pages_def)
  ultimately show "vm_ok [0x80117000, 0x80116000] 0x80118000 two_pages"
    using two_pages_inv by (simp add: vm_ok_def)
  show "pt_entry (mem two_pages) 0x80118000 v = 0" using np by (simp add: pt_entry_def)
qed

theorem mappages_correct_witness:
  "\<exists>ys t r. mappages 0x80118000 0x1000 0x2000 0x5000 6 two_pages = Ret r t \<and> vm_ok ys 0x80118000 t \<and>
    (r = - 1 \<and> ys = [] \<or> r = 0 \<and> pt_entry (mem t) 0x80118000 0x2abc = 0x6007)"
proof -
  have "\<forall>v. pgno 0x1000 \<le> pgno v \<and> pgno v \<le> (unat (0x1000 :: u32) + unat (0x2000 :: u32) - 1) div 4096 \<longrightarrow>
      \<not> present (pt_entry (mem two_pages) 0x80118000 v)"
    by (simp add: empty_pgdir_entry present_def)
  from mappages_correct [OF empty_pgdir_ok _ _ this, of "0x5000" 6] obtain ys t r where
    r: "mappages 0x80118000 0x1000 0x2000 0x5000 6 two_pages = Ret r t" "vm_ok ys 0x80118000 t"
    "r = - 1 \<and> ys = [] \<or> r = 0 \<and> (\<forall>v. pt_entry (mem t) 0x80118000 v =
      (if pgno 0x1000 \<le> pgno v \<and> pgno v \<le> (unat (0x1000 :: u32) + unat (0x2000 :: u32) - 1) div 4096
       then (0x5000 + 4096 * of_nat (pgno v - pgno 0x1000)) OR 6 OR PTE_P else pt_entry (mem two_pages) 0x80118000 v))"
    by auto
  then have "r = - 1 \<and> ys = [] \<or> r = 0 \<and> pt_entry (mem t) 0x80118000 0x2abc = 0x6007" by auto
  with r(1,2) show ?thesis by blast
qed

subsection \<open>The loops make progress\<close>

text \<open>
  Below \<^verbatim>\<open>KERNBASE\<close> the next address of \<^verbatim>\<open>deallocuvm\<close> is always larger, also when a whole missing page
  table is skipped, so its loop ends; the same holds for the loops that step by a page.
\<close>

lemma skip_table_grows:
  assumes "unat a < 2147483648"
  shows "a < PGADDR (PDX a + 1) 0 0 - PGSIZE + PGSIZE"
proof -
  define x where "x = PDX a + 1"
  have "unat a div 4194304 < 512" using assms by (simp add: less_mult_imp_div_less)
  moreover from this have "unat x = unat a div 4194304 + 1" by (simp add: x_def unat_add_no_wrap unat_PDX)
  ultimately have "unat (push_bit 22 x) = (unat a div 4194304 + 1) * 4194304"
    by (simp add: push_bit_eq_mult unat_word_ariths)
  moreover have "unat a < (unat a div 4194304 + 1) * 4194304" by (simp add: dividend_less_div_times)
  ultimately show ?thesis by (simp add: PGADDR_def word_less_nat_alt flip: x_def)
qed

lemma page_step_grows: "unat a < 2147483648 \<Longrightarrow> a < a + PGSIZE"
  by (simp add: word_less_nat_alt unat_add_no_wrap)

lemma deallocuvm_step_grows:
  assumes "deallocuvm_step pgdir a s = Ret a' t" and "unat a < 2147483648"
  shows "a < a'"
  using assms page_step_grows [OF assms(2)] skip_table_grows [OF assms(2)]
  by (auto simp: deallocuvm_step_def Let_def obind_eq_Ret_iff split: if_splits)

lemma allocuvm_result:
  assumes "allocuvm pgdir oldsz newsz s = Ret r t"
  shows "r = 0 \<or> newsz < KERNBASE \<and> (r = oldsz \<and> newsz < oldsz \<or> r = newsz \<and> oldsz \<le> newsz)"
proof -
  have loop: "allocuvm_loop pgdir a oldsz newsz s = Ret r t \<Longrightarrow> r = 0 \<or> r = newsz" for a
  proof (induction pgdir a oldsz newsz s rule: allocuvm_loop.induct)
    case (1 pgdir a oldsz newsz s)
    from 1(2) show ?case
      by (subst (asm) allocuvm_loop.simps) (auto simp: obind_eq_Ret_iff split: if_splits dest: 1(1))
  qed
  from assms show ?thesis by (auto simp: allocuvm_def not_le not_less split: if_splits dest!: loop)
qed

lemma uva2ka_null: "\<not> present (pde (mem s) pgdir (PDX uva)) \<Longrightarrow> uva2ka pgdir uva s = Undef"
  by (simp add: uva2ka_def walk_miss)

end
