(* ===== verification/Uspace.thy ===== *)
theory Uspace
  imports Vm
begin

text \<open>
  Memory as the running kernel code addresses it: through the page table that \<^verbatim>\<open>cr3\<close> points to. System
  calls use it to reach the buffers of the calling process. An access without a translation is
  \<open>None\<close>: the page fault that the kernel answers with a panic.
\<close>

definition umap :: "'a kstate_scheme \<Rightarrow> u32 \<Rightarrow> u32 option" where
  "umap s va =
     (let e = pt_entry (mem s) (P2V (cr3 s)) va
      in if present e then Some (P2V (PTE_ADDR e) + (va AND 0xFFF)) else None)"

primrec uread :: "nat \<Rightarrow> u32 \<Rightarrow> 'a kstate_scheme \<Rightarrow> u8 list option" where
  "uread 0 va s = Some []"
| "uread (Suc n) va s =
     (case umap s va of None \<Rightarrow> None | Some a \<Rightarrow> map_option ((#) (mem s a)) (uread n (va + 1) s))"

definition uwrite1 :: "u32 \<Rightarrow> u8 \<Rightarrow> 'a kstate_scheme \<Rightarrow> 'a kstate_scheme option" where
  "uwrite1 va x s = (case umap s va of None \<Rightarrow> None | Some a \<Rightarrow> Some (s\<lparr>mem := (mem s)(a := x)\<rparr>))"

fun uwrite :: "u32 \<Rightarrow> u8 list \<Rightarrow> 'a kstate_scheme \<Rightarrow> 'a kstate_scheme option" where
  "uwrite va [] s = Some s"
| "uwrite va (x # xs) s = (case uwrite1 va x s of None \<Rightarrow> None | Some s \<Rightarrow> uwrite (va + 1) xs s)"

lemma uread_length: "uread n va s = Some bs \<Longrightarrow> length bs = n"
  by (induction n arbitrary: va bs) (auto split: option.splits)

lemma uread_take: "uread n va s = Some bs \<Longrightarrow> j \<le> n \<Longrightarrow> uread j va s = Some (take j bs)"
proof (induction n arbitrary: va bs j)
  case (Suc n)
  then show ?case by (cases j) (auto split: option.splits)
qed simp

lemma uread_nth:
  "uread n va s = Some bs \<Longrightarrow> i < n \<Longrightarrow> \<exists>a. umap s (va + of_nat i) = Some a \<and> mem s a = bs ! i"
proof (induction n arbitrary: va bs i)
  case (Suc n)
  then obtain a cs where c: "umap s va = Some a" "uread n (va + 1) s = Some cs" "bs = mem s a # cs"
    by (auto split: option.splits)
  show ?case
  proof (cases i)
    case 0
    with c show ?thesis by simp
  next
    case (Suc j)
    with Suc.IH [OF c(2), of j] Suc.prems c(3) show ?thesis by (simp add: add.assoc)
  qed
qed simp

text \<open>Only the memory and \<^verbatim>\<open>cr3\<close> matter for a translation; a write changes nothing but memory.\<close>

lemma umap_cong: "mem s = mem t \<Longrightarrow> cr3 s = cr3 t \<Longrightarrow> umap s = umap t"
  by (rule ext) (simp add: umap_def)

lemma uread_cong:
  assumes "mem s = mem t" "cr3 s = cr3 t"
  shows "uread n va s = uread n va t"
  by (induction n arbitrary: va) (simp_all add: umap_cong [OF assms] assms split: option.split)

lemma uwrite_mem: "uwrite va xs s = Some t \<Longrightarrow> \<exists>m. t = s\<lparr>mem := m\<rparr>"
proof (induction va xs s arbitrary: t rule: uwrite.induct)
  case (1 va s)
  then show ?case by (auto intro: exI [of _ "mem s"])
next
  case (2 va x xs s)
  from "2.prems" obtain s1 where s1: "uwrite1 va x s = Some s1" "uwrite (va + 1) xs s1 = Some t"
    by (auto split: option.splits)
  with "2.IH" [OF s1] show ?case by (auto simp: uwrite1_def split: option.splits)
qed

end
