(* ===== verification/Sleeplock.thy ===== *)
theory Sleeplock
  imports Kalloc
begin

text \<open>
  Sleep locks (\<^verbatim>\<open>sleeplock.c\<close>) on top of \<^verbatim>\<open>sleep\<close> and \<^verbatim>\<open>wakeup\<close>. The buffers and the in-memory inodes
  carry one each. The second half follows several processes through \<^verbatim>\<open>acquiresleep\<close>, \<^verbatim>\<open>sleep\<close>,
  \<^verbatim>\<open>wakeup\<close> and \<^verbatim>\<open>releasesleep\<close> one lock operation at a time and shows that the lock excludes and
  that no wakeup is lost.
\<close>

datatype slockid = BufLock nat | InodeLock nat

record sleeplock =
  slp_locked :: u32
  slp_name :: string
  slp_pid :: int

record slstate = kstate +
  sleeplocks :: "slockid \<Rightarrow> sleeplock"

text \<open>The spinlock \<^verbatim>\<open>lk->lk\<close> and the wait channel \<^verbatim>\<open>lk\<close> of a sleep lock.\<close>

fun lk_of :: "slockid \<Rightarrow> lockid" where
  "lk_of (BufLock i) = BUFLK i"
| "lk_of (InodeLock i) = INODELK i"

fun chan_of :: "slockid \<Rightarrow> chan" where
  "chan_of (BufLock i) = ChBufLock i"
| "chan_of (InodeLock i) = ChInodeLock i"

definition initsleeplock :: "slockid \<Rightarrow> string \<Rightarrow> 'a slstate_scheme \<Rightarrow> 'a slstate_scheme" where
  "initsleeplock l nm s =
     (initlock (lk_of l) ''sleep lock'' s)\<lparr>sleeplocks := (sleeplocks s)
        (l := \<lparr>slp_locked = 0, slp_name = nm, slp_pid = 0\<rparr>)\<rparr>"

text \<open>The loop of \<^verbatim>\<open>acquiresleep\<close>; a call that sleeps continues in \<open>acquiresleep_resume\<close>.\<close>

definition acquiresleep_loop :: "slockid \<Rightarrow> 'a slstate_scheme \<Rightarrow> ('a slstate_scheme, unit) outcome" where
  "acquiresleep_loop l s =
     (if slp_locked (sleeplocks s l) \<noteq> 0 then sleep (chan_of l) (lk_of l) s
      else case curproc s of
        None \<Rightarrow> Undef
      | Some i \<Rightarrow>
          release (lk_of l) (s\<lparr>sleeplocks := (sleeplocks s)(l := (sleeplocks s l)
            \<lparr>slp_locked := 1, slp_pid := p_pid (procs s ! i)\<rparr>)\<rparr>))"

definition acquiresleep :: "slockid \<Rightarrow> 'a slstate_scheme \<Rightarrow> ('a slstate_scheme, unit) outcome" where
  "acquiresleep l s = obind (acquire (lk_of l) s) (\<lambda>_. acquiresleep_loop l)"

definition acquiresleep_resume :: "slockid \<Rightarrow> 'a slstate_scheme \<Rightarrow> ('a slstate_scheme, unit) outcome" where
  "acquiresleep_resume l s = obind (sleep_resume (lk_of l) s) (\<lambda>_. acquiresleep_loop l)"

definition releasesleep :: "slockid \<Rightarrow> 'a slstate_scheme \<Rightarrow> ('a slstate_scheme, unit) outcome" where
  "releasesleep l s =
     obind (acquire (lk_of l) s) (\<lambda>_ s.
     let s = s\<lparr>sleeplocks := (sleeplocks s)(l := (sleeplocks s l)\<lparr>slp_locked := 0, slp_pid := 0\<rparr>)\<rparr>
     in obind (wakeup (chan_of l) s) (\<lambda>_. release (lk_of l)))"

definition holdingsleep :: "slockid \<Rightarrow> 'a slstate_scheme \<Rightarrow> ('a slstate_scheme, bool) outcome" where
  "holdingsleep l s =
     obind (acquire (lk_of l) s) (\<lambda>_ s.
     let r = (slp_locked (sleeplocks s l) \<noteq> 0)
     in obind (release (lk_of l) s) (\<lambda>_. Ret r))"

subsection \<open>One process at a time\<close>

definition sl_free :: "slockid \<Rightarrow> 'a slstate_scheme \<Rightarrow> bool" where
  "sl_free l s \<longleftrightarrow> slp_locked (sleeplocks s l) = 0"

lemma lk_of_neq [simp]: "lk_of l \<noteq> PTABLE" "PTABLE \<noteq> lk_of l"
  by (cases l; simp)+

lemma sleeplocks_acquired [simp]: "sleeplocks (acquired s lk) = sleeplocks s"
  by (simp add: acquired_def)

lemma cpu_ok_sleeplocks [simp]: "cpu_ok (s\<lparr>sleeplocks := f\<rparr>) = cpu_ok s"
  by (simp add: cpu_ok_def)

lemma acquired_sleeplocks: "(acquired s lk)\<lparr>sleeplocks := f\<rparr> = acquired (s\<lparr>sleeplocks := f\<rparr>) lk"
  by (cases s) (simp add: acquired_def)

lemma acquiresleep_free:
  assumes "cpu_ok s" and "lock_free (locks s (lk_of l))" and "sl_free l s" and "curproc s = Some i"
  shows "acquiresleep l s = Ret () (s\<lparr>sleeplocks := (sleeplocks s)(l := (sleeplocks s l)
      \<lparr>slp_locked := 1, slp_pid := p_pid (procs s ! i)\<rparr>)\<rparr>)"
  using assms
  by (simp add: acquiresleep_def acquire_ok acquiresleep_loop_def sl_free_def acquired_sleeplocks release_acquired)

lemma holdingsleep_eq:
  assumes "cpu_ok s" and "lock_free (locks s (lk_of l))"
  shows "holdingsleep l s = Ret (\<not> sl_free l s) s"
  using assms by (simp add: holdingsleep_def acquire_ok Let_def release_acquired sl_free_def)

lemma releasesleep_eq:
  assumes "cpu_ok s" and "lock_free (locks s (lk_of l))" and "lock_free (locks s PTABLE)"
  shows "releasesleep l s = Ret () (wakeup1 (chan_of l) (s\<lparr>sleeplocks := (sleeplocks s)(l := (sleeplocks s l)
      \<lparr>slp_locked := 0, slp_pid := 0\<rparr>)\<rparr>))"
proof -
  let ?s = "s\<lparr>sleeplocks := (sleeplocks s)(l := (sleeplocks s l)\<lparr>slp_locked := 0, slp_pid := 0\<rparr>)\<rparr>"
  have "wakeup1 (chan_of l) (acquired ?s (lk_of l)) = acquired (wakeup1 (chan_of l) ?s) (lk_of l)"
    by (cases s) (simp add: wakeup1_def acquired_def)
  moreover have "cpu_ok (wakeup1 (chan_of l) ?s)" "lock_free (locks (wakeup1 (chan_of l) ?s) (lk_of l))"
    using assms by (simp_all add: wakeup1_def)
  ultimately show ?thesis using assms
    by (simp add: releasesleep_def acquire_ok Let_def acquired_sleeplocks wakeup_ok release_acquired)
qed

subsection \<open>Several processes and one sleep lock\<close>

text \<open>
  Program counters of a process that alternates \<^verbatim>\<open>acquiresleep\<close> and \<^verbatim>\<open>releasesleep\<close>. Between two
  steps other processes run; a step takes or drops one of the two spinlocks involved
  (\<^verbatim>\<open>lk->lk\<close> and \<^verbatim>\<open>ptable.lock\<close>) or does the work in between.
\<close>

datatype wpc =
    WOut
  | WAcq      \<comment> \<open>waits for \<^verbatim>\<open>lk->lk\<close> in \<^verbatim>\<open>acquiresleep\<close>, or in \<^verbatim>\<open>sleep\<close> after waking up\<close>
  | WTest     \<comment> \<open>has \<^verbatim>\<open>lk->lk\<close>, about to test \<^verbatim>\<open>lk->locked\<close>\<close>
  | WPt       \<comment> \<open>in \<^verbatim>\<open>sleep\<close>, waits for \<^verbatim>\<open>ptable.lock\<close>\<close>
  | WDrop     \<comment> \<open>in \<^verbatim>\<open>sleep\<close> with both locks, about to release \<^verbatim>\<open>lk->lk\<close>\<close>
  | WGo       \<comment> \<open>in \<^verbatim>\<open>sleep\<close> with \<^verbatim>\<open>ptable.lock\<close>, about to set SLEEPING and switch away\<close>
  | WAsleep   \<comment> \<open>SLEEPING; the scheduler has released \<^verbatim>\<open>ptable.lock\<close>\<close>
  | WWoken    \<comment> \<open>RUNNABLE again, not yet chosen by the scheduler\<close>
  | WBack     \<comment> \<open>back from \<^verbatim>\<open>sched\<close> with \<^verbatim>\<open>ptable.lock\<close>\<close>
  | WTake     \<comment> \<open>saw \<^verbatim>\<open>lk->locked\<close> clear, about to set it\<close>
  | WTaken    \<comment> \<open>\<^verbatim>\<open>lk->locked\<close> set, about to release \<^verbatim>\<open>lk->lk\<close>\<close>
  | WHold     \<comment> \<open>between \<^verbatim>\<open>acquiresleep\<close> and \<^verbatim>\<open>releasesleep\<close>\<close>
  | RAcq      \<comment> \<open>waits for \<^verbatim>\<open>lk->lk\<close> in \<^verbatim>\<open>releasesleep\<close>\<close>
  | RClear    \<comment> \<open>about to clear \<^verbatim>\<open>lk->locked\<close>\<close>
  | RPt       \<comment> \<open>in \<^verbatim>\<open>wakeup\<close>, waits for \<^verbatim>\<open>ptable.lock\<close>\<close>
  | RWake     \<comment> \<open>about to run \<^verbatim>\<open>wakeup1\<close>\<close>
  | RDone     \<comment> \<open>woke everybody, about to release \<^verbatim>\<open>ptable.lock\<close>\<close>
  | RDrop     \<comment> \<open>about to release \<^verbatim>\<open>lk->lk\<close>\<close>

record wstate =
  wpcs :: "nat \<Rightarrow> wpc"
  wlk :: "nat option"    \<comment> \<open>the process that holds \<^verbatim>\<open>lk->lk\<close>\<close>
  wpt :: "nat option"    \<comment> \<open>the process that holds \<^verbatim>\<open>ptable.lock\<close>\<close>
  wlocked :: bool        \<comment> \<open>\<^verbatim>\<open>lk->locked\<close>\<close>

definition wgo :: "nat \<Rightarrow> wpc \<Rightarrow> wstate \<Rightarrow> wstate" where
  "wgo c p w = w\<lparr>wpcs := (wpcs w)(c := p)\<rparr>"

inductive sl_step :: "wstate \<Rightarrow> wstate \<Rightarrow> bool" where
  enter: "wpcs w c = WOut \<Longrightarrow> sl_step w (wgo c WAcq w)"
| acq: "wpcs w c = WAcq \<Longrightarrow> wlk w = None \<Longrightarrow> sl_step w (wgo c WTest (w\<lparr>wlk := Some c\<rparr>))"
| test: "wpcs w c = WTest \<Longrightarrow> sl_step w (wgo c (if wlocked w then WPt else WTake) w)"
| sleep_pt: "wpcs w c = WPt \<Longrightarrow> wpt w = None \<Longrightarrow> sl_step w (wgo c WDrop (w\<lparr>wpt := Some c\<rparr>))"
| sleep_drop: "wpcs w c = WDrop \<Longrightarrow> sl_step w (wgo c WGo (w\<lparr>wlk := None\<rparr>))"
| sleep_go: "wpcs w c = WGo \<Longrightarrow> sl_step w (wgo c WAsleep (w\<lparr>wpt := None\<rparr>))"
| scheduled: "wpcs w c = WWoken \<Longrightarrow> wpt w = None \<Longrightarrow> sl_step w (wgo c WBack (w\<lparr>wpt := Some c\<rparr>))"
| resumed: "wpcs w c = WBack \<Longrightarrow> sl_step w (wgo c WAcq (w\<lparr>wpt := None\<rparr>))"
| take: "wpcs w c = WTake \<Longrightarrow> sl_step w (wgo c WTaken (w\<lparr>wlocked := True\<rparr>))"
| taken: "wpcs w c = WTaken \<Longrightarrow> sl_step w (wgo c WHold (w\<lparr>wlk := None\<rparr>))"
| rel: "wpcs w c = WHold \<Longrightarrow> sl_step w (wgo c RAcq w)"
| rel_acq: "wpcs w c = RAcq \<Longrightarrow> wlk w = None \<Longrightarrow> sl_step w (wgo c RClear (w\<lparr>wlk := Some c\<rparr>))"
| rel_clear: "wpcs w c = RClear \<Longrightarrow> sl_step w (wgo c RPt (w\<lparr>wlocked := False\<rparr>))"
| wake_pt: "wpcs w c = RPt \<Longrightarrow> wpt w = None \<Longrightarrow> sl_step w (wgo c RWake (w\<lparr>wpt := Some c\<rparr>))"
| wake: "wpcs w c = RWake \<Longrightarrow>
    sl_step w (wgo c RDone (w\<lparr>wpcs := (\<lambda>d. if wpcs w d = WAsleep then WWoken else wpcs w d)\<rparr>))"
| wake_done: "wpcs w c = RDone \<Longrightarrow> sl_step w (wgo c RDrop (w\<lparr>wpt := None\<rparr>))"
| rel_drop: "wpcs w c = RDrop \<Longrightarrow> sl_step w (wgo c WOut (w\<lparr>wlk := None\<rparr>))"

inductive sl_reach :: "wstate \<Rightarrow> bool" where
  start: "sl_reach \<lparr>wpcs = (\<lambda>_. WOut), wlk = None, wpt = None, wlocked = False\<rparr>"
| step: "sl_reach w \<Longrightarrow> sl_step w v \<Longrightarrow> sl_reach v"

text \<open>Who holds \<^verbatim>\<open>lk->lk\<close>, \<^verbatim>\<open>ptable.lock\<close> and the sleep lock, and who is about to wake the sleepers.\<close>

fun has_lk :: "wpc \<Rightarrow> bool" where
  "has_lk WTest = True"
| "has_lk WPt = True"
| "has_lk WDrop = True"
| "has_lk WTake = True"
| "has_lk WTaken = True"
| "has_lk RClear = True"
| "has_lk RPt = True"
| "has_lk RWake = True"
| "has_lk RDone = True"
| "has_lk RDrop = True"
| "has_lk _ = False"

fun has_pt :: "wpc \<Rightarrow> bool" where
  "has_pt WDrop = True"
| "has_pt WGo = True"
| "has_pt WBack = True"
| "has_pt RWake = True"
| "has_pt RDone = True"
| "has_pt _ = False"

fun holds_sl :: "wpc \<Rightarrow> bool" where
  "holds_sl WTaken = True"
| "holds_sl WHold = True"
| "holds_sl RAcq = True"
| "holds_sl RClear = True"
| "holds_sl _ = False"

fun waking :: "wpc \<Rightarrow> bool" where
  "waking RPt = True"
| "waking RWake = True"
| "waking _ = False"

fun going :: "wpc \<Rightarrow> bool" where
  "going WPt = True"
| "going WDrop = True"
| "going _ = False"

fun waiting :: "wpc \<Rightarrow> bool" where
  "waiting WGo = True"
| "waiting WAsleep = True"
| "waiting _ = False"

definition wake_pending :: "wstate \<Rightarrow> bool" where
  "wake_pending w \<longleftrightarrow> (case wlk w of None \<Rightarrow> False | Some d \<Rightarrow> waking (wpcs w d))"

definition pinv :: "nat option \<Rightarrow> wstate \<Rightarrow> nat \<Rightarrow> bool" where
  "pinv h w c \<longleftrightarrow>
     (has_lk (wpcs w c) \<longleftrightarrow> wlk w = Some c) \<and> (has_pt (wpcs w c) \<longleftrightarrow> wpt w = Some c) \<and>
     (holds_sl (wpcs w c) \<longleftrightarrow> h = Some c) \<and> (going (wpcs w c) \<longrightarrow> wlocked w) \<and>
     (wpcs w c = WTake \<longrightarrow> \<not> wlocked w) \<and> (waiting (wpcs w c) \<longrightarrow> wlocked w \<or> wake_pending w)"

definition sl_inv :: "nat option \<Rightarrow> wstate \<Rightarrow> bool" where
  "sl_inv h w \<longleftrightarrow> (wlocked w \<longleftrightarrow> h \<noteq> None) \<and> (\<forall>c. pinv h w c)"

text \<open>
  What one process does is checked against each process \<open>d\<close> separately, with the invariant at hand for
  the moving process and for \<open>d\<close> only.
\<close>

lemma sl_inv_move:
  assumes "sl_inv h w" and "(wlocked w \<longleftrightarrow> h \<noteq> None) \<Longrightarrow> pinv h w c \<Longrightarrow> wlocked v \<longleftrightarrow> h' \<noteq> None"
    and "\<And>d. (wlocked w \<longleftrightarrow> h \<noteq> None) \<Longrightarrow> pinv h w c \<Longrightarrow> pinv h w d \<Longrightarrow> pinv h' v d"
  shows "\<exists>h'. sl_inv h' v"
  using assms unfolding sl_inv_def by blast

lemmas sl_simps = pinv_def wgo_def wake_pending_def

lemma going_has_lk: "going p \<Longrightarrow> has_lk p"
  by (cases p) simp_all

lemma waiting_cases: "waiting p \<Longrightarrow> p = WAsleep \<or> p = WGo"
  by (cases p) simp_all

lemma sl_inv_step: "sl_step w v \<Longrightarrow> sl_inv h w \<Longrightarrow> \<exists>h'. sl_inv h' v"
proof (induction rule: sl_step.induct)
  case (enter w c)
  show ?case
    by (rule sl_inv_move [OF enter(2), where c = c and h' = h])
      (use enter(1) in \<open>auto simp: sl_simps split: option.splits if_splits dest: going_has_lk waiting_cases\<close>)
next
  case (acq w c)
  show ?case
    by (rule sl_inv_move [OF acq(3), where c = c and h' = h])
      (use acq(1,2) in \<open>auto simp: sl_simps split: option.splits if_splits dest: going_has_lk waiting_cases\<close>)
next
  case (test w c)
  show ?case
    by (rule sl_inv_move [OF test(2), where c = c and h' = h])
      (use test(1) in \<open>auto simp: sl_simps split: option.splits if_splits dest: going_has_lk waiting_cases\<close>)
next
  case (sleep_pt w c)
  show ?case
    by (rule sl_inv_move [OF sleep_pt(3), where c = c and h' = h])
      (use sleep_pt(1,2) in \<open>auto simp: sl_simps split: option.splits if_splits dest: going_has_lk waiting_cases\<close>)
next
  case (sleep_drop w c)
  show ?case
    by (rule sl_inv_move [OF sleep_drop(2), where c = c and h' = h])
      (use sleep_drop(1) in \<open>auto simp: sl_simps split: option.splits if_splits dest: going_has_lk waiting_cases\<close>)
next
  case (sleep_go w c)
  show ?case
    by (rule sl_inv_move [OF sleep_go(2), where c = c and h' = h])
      (use sleep_go(1) in \<open>auto simp: sl_simps split: option.splits if_splits dest: going_has_lk waiting_cases\<close>)
next
  case (scheduled w c)
  show ?case
    by (rule sl_inv_move [OF scheduled(3), where c = c and h' = h])
      (use scheduled(1,2) in \<open>auto simp: sl_simps split: option.splits if_splits dest: going_has_lk waiting_cases\<close>)
next
  case (resumed w c)
  show ?case
    by (rule sl_inv_move [OF resumed(2), where c = c and h' = h])
      (use resumed(1) in \<open>auto simp: sl_simps split: option.splits if_splits dest: going_has_lk waiting_cases\<close>)
next
  case (take w c)
  show ?case
    by (rule sl_inv_move [OF take(2), where c = c and h' = "Some c"])
      (use take(1) in \<open>auto simp: sl_simps split: option.splits if_splits dest: going_has_lk waiting_cases\<close>)
next
  case (taken w c)
  show ?case
    by (rule sl_inv_move [OF taken(2), where c = c and h' = h])
      (use taken(1) in \<open>auto simp: sl_simps split: option.splits if_splits dest: going_has_lk waiting_cases\<close>)
next
  case (rel w c)
  show ?case
    by (rule sl_inv_move [OF rel(2), where c = c and h' = h])
      (use rel(1) in \<open>auto simp: sl_simps split: option.splits if_splits dest: going_has_lk waiting_cases\<close>)
next
  case (rel_acq w c)
  show ?case
    by (rule sl_inv_move [OF rel_acq(3), where c = c and h' = h])
      (use rel_acq(1,2) in \<open>auto simp: sl_simps split: option.splits if_splits dest: going_has_lk waiting_cases\<close>)
next
  case (rel_clear w c)
  show ?case
    by (rule sl_inv_move [OF rel_clear(2), where c = c and h' = None])
      (use rel_clear(1) in \<open>auto simp: sl_simps split: option.splits if_splits dest: going_has_lk waiting_cases\<close>)
next
  case (wake_pt w c)
  show ?case
    by (rule sl_inv_move [OF wake_pt(3), where c = c and h' = h])
      (use wake_pt(1,2) in \<open>auto simp: sl_simps split: option.splits if_splits dest: going_has_lk waiting_cases\<close>)
next
  case (wake w c)
  show ?case
    by (rule sl_inv_move [OF wake(2), where c = c and h' = h])
      (use wake(1) in \<open>auto simp: sl_simps split: option.splits if_splits dest: going_has_lk waiting_cases\<close>)
next
  case (wake_done w c)
  show ?case
    by (rule sl_inv_move [OF wake_done(2), where c = c and h' = h])
      (use wake_done(1) in \<open>auto simp: sl_simps split: option.splits if_splits dest: going_has_lk waiting_cases\<close>)
next
  case (rel_drop w c)
  show ?case
    by (rule sl_inv_move [OF rel_drop(2), where c = c and h' = h])
      (use rel_drop(1) in \<open>auto simp: sl_simps split: option.splits if_splits dest: going_has_lk waiting_cases\<close>)
qed


lemma sl_reach_inv: "sl_reach w \<Longrightarrow> \<exists>h. sl_inv h w"
proof (induction rule: sl_reach.induct)
  case start
  then show ?case by (auto simp: sl_inv_def sl_simps)
next
  case (step w v)
  then show ?case using sl_inv_step by blast
qed

text \<open>
  C6: a sleep lock excludes and loses no wakeup. In every state that any interleaving of
  \<^verbatim>\<open>acquiresleep\<close> and \<^verbatim>\<open>releasesleep\<close> calls can reach, at most one process has the lock, and as long
  as a process sleeps on it either some process has the lock (and will call \<^verbatim>\<open>releasesleep\<close>) or some
  process is about to wake the sleepers.
\<close>

theorem sleeplock_no_lost_wakeup:
  assumes "sl_reach w"
  shows "(\<forall>c d. holds_sl (wpcs w c) \<and> holds_sl (wpcs w d) \<longrightarrow> c = d) \<and>
    (\<forall>c. wpcs w c = WAsleep \<longrightarrow> (\<exists>d. holds_sl (wpcs w d)) \<or> (\<exists>d. waking (wpcs w d)))"
proof -
  from sl_reach_inv [OF assms] obtain h where h: "wlocked w \<longleftrightarrow> h \<noteq> None" "\<And>c. pinv h w c"
    by (auto simp: sl_inv_def)
  from h(2) have "\<forall>c. holds_sl (wpcs w c) \<longleftrightarrow> h = Some c" by (simp add: pinv_def)
  moreover have "wlocked w \<or> wake_pending w" if "wpcs w c = WAsleep" for c
    using h(2) [of c] that by (simp add: pinv_def)
  moreover have "wake_pending w \<Longrightarrow> \<exists>d. waking (wpcs w d)"
    by (auto simp: wake_pending_def split: option.splits)
  ultimately show ?thesis using h(1) by fastforce
qed

definition two_procs :: "wpc \<Rightarrow> wpc \<Rightarrow> nat option \<Rightarrow> nat option \<Rightarrow> bool \<Rightarrow> wstate" where
  "two_procs a b l q k = \<lparr>wpcs = (\<lambda>_. WOut)(0 := a, 1 := b), wlk = l, wpt = q, wlocked = k\<rparr>"

lemma sl_reach_by: "sl_reach w \<Longrightarrow> sl_step w v \<Longrightarrow> u = v \<Longrightarrow> sl_reach u"
  using sl_reach.step by simp

lemma sleeper_reachable: "sl_reach (two_procs WHold WAsleep None None True)"
proof -
  have "sl_reach (two_procs WOut WOut None None False)"
    using sl_reach.start by (simp add: two_procs_def fun_upd_idem)
  then have "sl_reach (two_procs WAcq WOut None None False)"
    by (rule sl_reach_by [OF _ sl_step.enter [where c = 0]]) (simp_all add: two_procs_def wgo_def fun_upd_twist)
  then have "sl_reach (two_procs WTest WOut (Some 0) None False)"
    by (rule sl_reach_by [OF _ sl_step.acq [where c = 0]]) (simp_all add: two_procs_def wgo_def fun_upd_twist)
  then have "sl_reach (two_procs WTake WOut (Some 0) None False)"
    by (rule sl_reach_by [OF _ sl_step.test [where c = 0]]) (simp_all add: two_procs_def wgo_def fun_upd_twist)
  then have "sl_reach (two_procs WTaken WOut (Some 0) None True)"
    by (rule sl_reach_by [OF _ sl_step.take [where c = 0]]) (simp_all add: two_procs_def wgo_def fun_upd_twist)
  then have "sl_reach (two_procs WHold WOut None None True)"
    by (rule sl_reach_by [OF _ sl_step.taken [where c = 0]]) (simp_all add: two_procs_def wgo_def fun_upd_twist)
  then have "sl_reach (two_procs WHold WAcq None None True)"
    by (rule sl_reach_by [OF _ sl_step.enter [where c = 1]]) (simp_all add: two_procs_def wgo_def fun_upd_twist)
  then have "sl_reach (two_procs WHold WTest (Some 1) None True)"
    by (rule sl_reach_by [OF _ sl_step.acq [where c = 1]]) (simp_all add: two_procs_def wgo_def fun_upd_twist)
  then have "sl_reach (two_procs WHold WPt (Some 1) None True)"
    by (rule sl_reach_by [OF _ sl_step.test [where c = 1]]) (simp_all add: two_procs_def wgo_def fun_upd_twist)
  then have "sl_reach (two_procs WHold WDrop (Some 1) (Some 1) True)"
    by (rule sl_reach_by [OF _ sl_step.sleep_pt [where c = 1]]) (simp_all add: two_procs_def wgo_def fun_upd_twist)
  then have "sl_reach (two_procs WHold WGo None (Some 1) True)"
    by (rule sl_reach_by [OF _ sl_step.sleep_drop [where c = 1]]) (simp_all add: two_procs_def wgo_def fun_upd_twist)
  then have "sl_reach (two_procs WHold WAsleep None None True)"
    by (rule sl_reach_by [OF _ sl_step.sleep_go [where c = 1]]) (simp_all add: two_procs_def wgo_def fun_upd_twist)
  then show ?thesis .
qed

theorem sleeplock_no_lost_wakeup_witness:
  "wpcs (two_procs WHold WAsleep None None True) 1 = WAsleep \<and>
   (\<exists>d. holds_sl (wpcs (two_procs WHold WAsleep None None True) d))"
proof -
  have "\<not> waking (wpcs (two_procs WHold WAsleep None None True) d)" for d by (simp add: two_procs_def)
  moreover have "wpcs (two_procs WHold WAsleep None None True) 1 = WAsleep" by (simp add: two_procs_def)
  ultimately show ?thesis using sleeplock_no_lost_wakeup [OF sleeper_reachable] by blast
qed

end
