(* ===== verification/Pipe.thy ===== *)
theory Pipe
  imports Uspace Sleeplock
begin

text \<open>
  Pipes (\<^verbatim>\<open>pipe.c\<close>). The pipe structures live in pages of their own; here they are a table indexed by
  the page's address, so that writing user memory does not reach them. A call that has to wait ends
  in \<open>Sleep\<close> with its loop counter saved in the process and continues in its \<open>resume\<close> form.
\<close>

record pipe =
  pi_data :: "u8 list"
  pi_nread :: u32
  pi_nwrite :: u32
  pi_readopen :: bool
  pi_writeopen :: bool

record ppstate = slstate +
  pipes :: "u32 \<Rightarrow> pipe"

abbreviation (input) PIPESIZE :: u32 where "PIPESIZE \<equiv> 512"

definition upd_pipe :: "u32 \<Rightarrow> (pipe \<Rightarrow> pipe) \<Rightarrow> 'a ppstate_scheme \<Rightarrow> 'a ppstate_scheme" where
  "upd_pipe p f s = s\<lparr>pipes := (pipes s)(p := f (pipes s p))\<rparr>"

definition pipe_put :: "u8 \<Rightarrow> pipe \<Rightarrow> pipe" where
  "pipe_put c q = q\<lparr>pi_data := (pi_data q)[unat (pi_nwrite q mod PIPESIZE) := c], pi_nwrite := pi_nwrite q + 1\<rparr>"

definition pipe_get :: "pipe \<Rightarrow> u8 \<times> pipe" where
  "pipe_get q = (pi_data q ! unat (pi_nread q mod PIPESIZE), q\<lparr>pi_nread := pi_nread q + 1\<rparr>)"

definition cur_killed :: "'a pstate_scheme \<Rightarrow> bool" where
  "cur_killed s = p_killed (procs s ! the (curproc s))"

definition save_locals :: "int list \<Rightarrow> 'a pstate_scheme \<Rightarrow> 'a pstate_scheme" where
  "save_locals vs s = upd_proc (the (curproc s)) (\<lambda>p. p\<lparr>p_locals := vs\<rparr>) s"

definition saved_locals :: "'a pstate_scheme \<Rightarrow> int list" where
  "saved_locals s = p_locals (procs s ! the (curproc s))"

definition pipeclose :: "u32 \<Rightarrow> bool \<Rightarrow> 'a ppstate_scheme \<Rightarrow> ('a ppstate_scheme, unit) outcome" where
  "pipeclose p writable s =
     obind (acquire (PIPELOCK p) s) (\<lambda>_ s.
     obind (if writable
            then wakeup (ChPipeRead p) (upd_pipe p (\<lambda>q. q\<lparr>pi_writeopen := False\<rparr>) s)
            else wakeup (ChPipeWrite p) (upd_pipe p (\<lambda>q. q\<lparr>pi_readopen := False\<rparr>) s)) (\<lambda>_ s.
     if \<not> pi_readopen (pipes s p) \<and> \<not> pi_writeopen (pipes s p)
     then obind (release (PIPELOCK p) s) (\<lambda>_. kfree p)
     else release (PIPELOCK p) s))"

text \<open>The loop of \<^verbatim>\<open>pipewrite\<close> with \<open>k\<close> bytes left to write; the byte index is \<^verbatim>\<open>n - k\<close>.\<close>

primrec pipewrite_loop :: "nat \<Rightarrow> u32 \<Rightarrow> u32 \<Rightarrow> int \<Rightarrow> 'a ppstate_scheme \<Rightarrow> ('a ppstate_scheme, int) outcome" where
  "pipewrite_loop 0 p addr n s =
     obind (wakeup (ChPipeRead p) s) (\<lambda>_ s. obind (release (PIPELOCK p) s) (\<lambda>_. Ret n))"
| "pipewrite_loop (Suc k) p addr n s =
     (let i = n - int (Suc k)
      in if pi_nwrite (pipes s p) = pi_nread (pipes s p) + PIPESIZE
         then if \<not> pi_readopen (pipes s p) \<or> cur_killed s
              then obind (release (PIPELOCK p) s) (\<lambda>_. Ret (- 1))
              else obind (wakeup (ChPipeRead p) s) (\<lambda>_ s.
                obind (sleep (ChPipeWrite p) (PIPELOCK p) (save_locals [i] s)) (\<lambda>_. Ret 0))
         else case umap s (addr + of_int i) of
             None \<Rightarrow> Panic ''trap''
           | Some a \<Rightarrow> pipewrite_loop k p addr n (upd_pipe p (pipe_put (mem s a)) s))"

definition pipewrite :: "u32 \<Rightarrow> u32 \<Rightarrow> int \<Rightarrow> 'a ppstate_scheme \<Rightarrow> ('a ppstate_scheme, int) outcome" where
  "pipewrite p addr n s = obind (acquire (PIPELOCK p) s) (\<lambda>_. pipewrite_loop (nat n) p addr n)"

definition pipewrite_resume :: "u32 \<Rightarrow> u32 \<Rightarrow> int \<Rightarrow> 'a ppstate_scheme \<Rightarrow> ('a ppstate_scheme, int) outcome" where
  "pipewrite_resume p addr n s =
     obind (sleep_resume (PIPELOCK p) s) (\<lambda>_ s. pipewrite_loop (nat (n - hd (saved_locals s))) p addr n s)"

text \<open>The copying loop of \<^verbatim>\<open>piperead\<close> with room for \<open>k\<close> more bytes, and the whole call.\<close>

primrec piperead_copy :: "nat \<Rightarrow> u32 \<Rightarrow> u32 \<Rightarrow> int \<Rightarrow> 'a ppstate_scheme \<Rightarrow> ('a ppstate_scheme, int) outcome" where
  "piperead_copy 0 p addr i s =
     obind (wakeup (ChPipeWrite p) s) (\<lambda>_ s. obind (release (PIPELOCK p) s) (\<lambda>_. Ret i))"
| "piperead_copy (Suc k) p addr i s =
     (if pi_nread (pipes s p) = pi_nwrite (pipes s p)
      then obind (wakeup (ChPipeWrite p) s) (\<lambda>_ s. obind (release (PIPELOCK p) s) (\<lambda>_. Ret i))
      else case uwrite1 (addr + of_int i) (fst (pipe_get (pipes s p))) s of
          None \<Rightarrow> Panic ''trap''
        | Some t \<Rightarrow> piperead_copy k p addr (i + 1) (upd_pipe p (\<lambda>q. snd (pipe_get q)) t))"

definition piperead_loop :: "u32 \<Rightarrow> u32 \<Rightarrow> int \<Rightarrow> 'a ppstate_scheme \<Rightarrow> ('a ppstate_scheme, int) outcome" where
  "piperead_loop p addr n s =
     (if pi_nread (pipes s p) = pi_nwrite (pipes s p) \<and> pi_writeopen (pipes s p)
      then if cur_killed s then obind (release (PIPELOCK p) s) (\<lambda>_. Ret (- 1))
           else obind (sleep (ChPipeRead p) (PIPELOCK p) s) (\<lambda>_. Ret 0)
      else piperead_copy (nat n) p addr 0 s)"

definition piperead :: "u32 \<Rightarrow> u32 \<Rightarrow> int \<Rightarrow> 'a ppstate_scheme \<Rightarrow> ('a ppstate_scheme, int) outcome" where
  "piperead p addr n s = obind (acquire (PIPELOCK p) s) (\<lambda>_. piperead_loop p addr n)"

definition piperead_resume :: "u32 \<Rightarrow> u32 \<Rightarrow> int \<Rightarrow> 'a ppstate_scheme \<Rightarrow> ('a ppstate_scheme, int) outcome" where
  "piperead_resume p addr n s = obind (sleep_resume (PIPELOCK p) s) (\<lambda>_. piperead_loop p addr n)"

subsection \<open>A pipe is a bounded queue\<close>

definition pipe_contents :: "pipe \<Rightarrow> u8 list" where
  "pipe_contents q = ring (pi_data q) (pi_nread q) (pi_nwrite q)"

definition pipe_inv :: "pipe \<Rightarrow> bool" where
  "pipe_inv q \<longleftrightarrow> length (pi_data q) = 512 \<and> unat (pi_nwrite q - pi_nread q) \<le> 512"

lemma pipe_ring_size: "pipe_inv q \<Longrightarrow> ring_size (pi_data q)"
  by (simp add: pipe_inv_def ring_size_def)

lemma pipe_slot: "pipe_inv q \<Longrightarrow> unat (i mod PIPESIZE) = slot (pi_data q) i"
  by (simp add: pipe_inv_def slot_def unat_mod_distrib)

lemma pipe_put_fold: "pi_readopen (fold pipe_put xs q) = pi_readopen q"
  by (induction xs arbitrary: q) (simp_all add: pipe_put_def)

lemma pipe_put_law:
  assumes "pipe_inv q" "length (pipe_contents q) < 512"
  shows "pipe_inv (pipe_put x q) \<and> pipe_contents (pipe_put x q) = pipe_contents q @ [x]"
proof -
  have l: "unat (pi_nwrite q - pi_nread q) < length (pi_data q)"
    using assms by (simp add: pipe_contents_def pipe_inv_def)
  have "unat (pi_nwrite q + 1 - pi_nread q) = Suc (unat (pi_nwrite q - pi_nread q))"
    using l assms(1) by (intro unat_suc_sub) (simp add: pipe_inv_def)
  with ring_push [OF pipe_ring_size [OF assms(1)] l, of x] l assms(1) show ?thesis
    by (simp add: pipe_put_def pipe_contents_def pipe_slot [OF assms(1)]) (simp add: pipe_inv_def)
qed

lemma pipe_get_law:
  assumes "pipe_inv q" "pipe_contents q \<noteq> []"
  shows "pipe_inv (snd (pipe_get q)) \<and> fst (pipe_get q) = hd (pipe_contents q) \<and>
    pipe_contents (snd (pipe_get q)) = tl (pipe_contents q)"
proof -
  have n: "pi_nread q \<noteq> pi_nwrite q" using assms(2) by (auto simp: pipe_contents_def)
  have "unat (pi_nwrite q - pi_nread q - 1) = unat (pi_nwrite q - pi_nread q) - 1"
    using n by (intro unat_dec) simp
  then have "unat (pi_nwrite q - (pi_nread q + 1)) \<le> 512" using assms(1) by (simp add: pipe_inv_def diff_diff_add le_diff_conv)
  with ring_pop [OF n, of "pi_data q"] assms(1) show ?thesis
    by (simp add: pipe_get_def pipe_contents_def pipe_slot [OF assms(1)]) (simp add: pipe_inv_def)
qed

context fifo
begin

lemma get_all:
  "inv q \<Longrightarrow> j \<le> length (contents q) \<Longrightarrow>
   inv (((\<lambda>q. snd (get q)) ^^ j) q) \<and> contents (((\<lambda>q. snd (get q)) ^^ j) q) = drop j (contents q)"
proof (induction j arbitrary: q)
  case (Suc j)
  then have "contents q \<noteq> []" by auto
  from get_law [OF Suc.prems(1) this] Suc.IH [of "snd (get q)"] Suc.prems(2)
  show ?case by (simp add: funpow_Suc_right drop_Suc del: funpow.simps)
qed simp

end

interpretation pq: fifo pipe_put pipe_get pipe_contents 512 pipe_inv
proof
  show "pipe_inv q \<Longrightarrow> length (pipe_contents q) \<le> 512" for q
    by (simp add: pipe_contents_def pipe_inv_def)
qed (use pipe_put_law pipe_get_law in blast)+

lemma pipe_full_iff:
  assumes "pipe_inv q"
  shows "pi_nwrite q = pi_nread q + PIPESIZE \<longleftrightarrow> length (pipe_contents q) = 512"
proof -
  have "pi_nwrite q = pi_nread q + PIPESIZE \<longleftrightarrow> pi_nwrite q - pi_nread q = 512"
    by (metis add_diff_cancel_left' diff_add_cancel add.commute)
  also have "\<dots> \<longleftrightarrow> unat (pi_nwrite q - pi_nread q) = unat (512 :: u32)" by (rule word_unat_eq_iff)
  finally show ?thesis by (simp add: pipe_contents_def)
qed

lemma pipe_empty_iff: "pipe_contents q = [] \<longleftrightarrow> pi_nread q = pi_nwrite q"
proof (cases "pi_nread q = pi_nwrite q")
  case False
  then have "0 < unat (pi_nwrite q - pi_nread q)" by (intro unat_diff_pos) simp
  then have "pipe_contents q \<noteq> []" by (simp add: pipe_contents_def flip: length_greater_0_conv)
  with False show ?thesis by simp
qed (simp add: pipe_contents_def)

subsection \<open>Writing\<close>

lemma pipes_upd_pipe [simp]: "pipes (upd_pipe p f s) p = f (pipes s p)"
  by (simp add: upd_pipe_def)

lemma upd_pipe_simps [simp]:
  "mem (upd_pipe p f s) = mem s" "cr3 (upd_pipe p f s) = cr3 s" "locks (upd_pipe p f s) = locks s"
  "procs (upd_pipe p f s) = procs s" "curproc (upd_pipe p f s) = curproc s" "cpu_ok (upd_pipe p f s) = cpu_ok s"
  "umap (upd_pipe p f s) = umap s"
  by (simp_all add: upd_pipe_def cpu_ok_def umap_def fun_eq_iff)

lemma upd_pipe_id [simp]: "upd_pipe p (\<lambda>q. q) s = s"
  by (simp add: upd_pipe_def)

lemma upd_pipe_upd_pipe: "upd_pipe p f (upd_pipe p g s) = upd_pipe p (f \<circ> g) s"
  by (simp add: upd_pipe_def)

lemma pipes_acquired [simp]: "pipes (acquired s lk) = pipes s"
  by (simp add: acquired_def)

lemma mem_acquired [simp]: "mem (acquired s lk) = mem s" "cr3 (acquired s lk) = cr3 s"
  by (simp_all add: acquired_def)

lemma upd_pipe_acquired: "upd_pipe p f (acquired s lk) = acquired (upd_pipe p f s) lk"
  by (cases s) (simp add: upd_pipe_def acquired_def)

lemma wakeup1_acquired: "wakeup1 c (acquired s lk) = acquired (wakeup1 c s) lk"
  by (cases s) (simp add: wakeup1_def acquired_def)

lemma wakeup1_simps [simp]:
  "locks (wakeup1 c s) = locks s" "cpu_ok (wakeup1 c s) = cpu_ok s" "curproc (wakeup1 c s) = curproc s"
  by (simp_all add: wakeup1_def cpu_ok_def)

lemma wakeup1_pipes [simp]: "pipes (wakeup1 c s) = pipes s"
  by (simp add: wakeup1_def)

lemma wakeup1_mem [simp]: "mem (wakeup1 c s) = mem s" "cr3 (wakeup1 c s) = cr3 s"
  by (simp_all add: wakeup1_def)

text \<open>Waking inside the critical section of a pipe and leaving it.\<close>

lemma wakeup_release:
  assumes "cpu_ok s" "lock_free (locks s lk)" "lock_free (locks s PTABLE)" "lk \<noteq> PTABLE"
  shows "obind (wakeup c (acquired s lk)) (\<lambda>_ s. obind (release lk s) (\<lambda>_. Ret r)) = Ret r (wakeup1 c s)"
  using assms by (simp add: wakeup_ok wakeup1_acquired release_acquired)

lemma pipewrite_steps:
  "uread j (addr + of_int (n - int (j + k))) s = Some bs \<Longrightarrow> pipe_inv (pipes s p) \<Longrightarrow>
   length (pipe_contents (pipes s p)) + j \<le> 512 \<Longrightarrow>
   pipewrite_loop (j + k) p addr n s = pipewrite_loop k p addr n (upd_pipe p (fold pipe_put bs) s)"
proof (induction j arbitrary: s bs)
  case 0
  then show ?case by (simp add: id_def)
next
  case (Suc j)
  define va where "va = addr + of_int (n - int (Suc j + k))"
  from Suc.prems(1) obtain a cs where a: "umap s va = Some a" "uread j (va + 1) s = Some cs" "bs = mem s a # cs"
    by (auto simp: va_def split: option.splits)
  have va1: "va + 1 = addr + of_int (n - int (j + k))" by (simp add: va_def)
  define t where "t = upd_pipe p (pipe_put (mem s a)) s"
  have "length (pipe_contents (pipes s p)) < 512" using Suc.prems(3) by simp
  then have t: "pipe_inv (pipes t p)" "pipe_contents (pipes t p) = pipe_contents (pipes s p) @ [mem s a]"
    using pq.put_law [OF Suc.prems(2), of "mem s a"] by (simp_all add: t_def)
  have "uread j (va + 1) t = Some cs" using a(2) uread_cong [of t s j "va + 1"] by (simp add: t_def)
  then have "pipewrite_loop (j + k) p addr n t = pipewrite_loop k p addr n (upd_pipe p (fold pipe_put cs) t)"
    using t Suc.prems(3) unfolding va1 by (intro Suc.IH) simp_all
  moreover have "pi_nwrite (pipes s p) \<noteq> pi_nread (pipes s p) + PIPESIZE"
    using pipe_full_iff [OF Suc.prems(2)] Suc.prems(3) by simp
  ultimately show ?case using a unfolding va_def
    by (simp add: t_def [symmetric] Let_def) (simp add: t_def upd_pipe_upd_pipe comp_def)
qed

lemma pipewrite_fills:
  fixes s :: "'a ppstate_scheme"
  assumes "pipe_inv (pipes s p)" "cpu_ok s" "lock_free (locks s (PIPELOCK p))"
    and "0 \<le> n" "uread (nat n) addr s = Some bs" "nat n = j + k" "length (pipe_contents (pipes s p)) + j \<le> 512"
  shows "pipewrite p addr n s =
    pipewrite_loop k p addr n (acquired (upd_pipe p (fold pipe_put (take j bs)) s) (PIPELOCK p))"
proof -
  have "n - int (j + k) = 0" using assms(4,6) by linarith
  then have "uread j (addr + of_int (n - int (j + k))) (acquired s (PIPELOCK p)) = Some (take j bs)"
    using uread_take [OF assms(5), of j] uread_cong [of "acquired s (PIPELOCK p)" s j addr] assms(6)
    by (simp only:) simp
  then have "pipewrite_loop (j + k) p addr n (acquired s (PIPELOCK p)) =
      pipewrite_loop k p addr n (upd_pipe p (fold pipe_put (take j bs)) (acquired s (PIPELOCK p)))"
    using assms(1,7) by (intro pipewrite_steps) simp_all
  then show ?thesis using assms(2,3,6) by (simp add: pipewrite_def acquire_ok upd_pipe_acquired)
qed

text \<open>
  C31: \<^verbatim>\<open>pipewrite\<close> appends the caller's bytes in order, as many as the pipe has room for. If all fit it
  wakes the readers and returns the count; if not, it returns an error when the reader has gone or
  the caller was killed, and otherwise wakes the readers and sleeps with the number of bytes already
  written saved. The counters may wrap around.
\<close>

theorem pipewrite_correct:
  fixes s :: "'a ppstate_scheme"
  assumes "pipe_inv (pipes s p)" "cpu_ok s" "lock_free (locks s (PIPELOCK p))" "lock_free (locks s PTABLE)"
    and "0 \<le> n" "uread (nat n) addr s = Some bs"
  shows "let room = 512 - length (pipe_contents (pipes s p)); t = upd_pipe p (fold pipe_put (take room bs)) s
    in pipe_contents (pipes t p) = pipe_contents (pipes s p) @ take room bs \<and>
       pipewrite p addr n s =
         (if nat n \<le> room then Ret n (wakeup1 (ChPipeRead p) t)
          else if \<not> pi_readopen (pipes s p) \<or> cur_killed s then Ret (- 1) t
          else obind (sleep (ChPipeWrite p) (PIPELOCK p)
            (save_locals [int room] (acquired (wakeup1 (ChPipeRead p) t) (PIPELOCK p)))) (\<lambda>_. Ret 0))"
proof -
  let ?lk = "PIPELOCK p"
  define room where "room = 512 - length (pipe_contents (pipes s p))"
  define j where "j = min (nat n) room"
  define t where "t = upd_pipe p (fold pipe_put (take room bs)) s"
  have bs: "take room bs = take j bs" using uread_length [OF assms(6)] by (simp add: j_def min_def)
  have le: "length (pipe_contents (pipes s p)) \<le> 512" by (rule pq.cap_law [OF assms(1)])
  have ct: "pipe_inv (pipes t p)" "pipe_contents (pipes t p) = pipe_contents (pipes s p) @ take room bs"
    using pq.put_all [OF assms(1), of "take room bs"] le by (auto simp: t_def room_def)
  obtain k where k: "nat n = j + k" using le_Suc_ex [of j "nat n"] by (auto simp: j_def)
  have "length (pipe_contents (pipes s p)) + j \<le> 512" using le by (simp add: j_def room_def)
  with assms k have pw: "pipewrite p addr n s = pipewrite_loop k p addr n (acquired t ?lk)"
    unfolding t_def bs by (intro pipewrite_fills)
  have tt: "cpu_ok t" "lock_free (locks t ?lk)" "lock_free (locks t PTABLE)" "procs t = procs s" "curproc t = curproc s"
    using assms(2-4) by (simp_all add: t_def)
  have "pipewrite p addr n s =
         (if nat n \<le> room then Ret n (wakeup1 (ChPipeRead p) t)
          else if \<not> pi_readopen (pipes s p) \<or> cur_killed s then Ret (- 1) t
          else obind (sleep (ChPipeWrite p) ?lk
            (save_locals [int room] (acquired (wakeup1 (ChPipeRead p) t) ?lk))) (\<lambda>_. Ret 0))"
  proof (cases "nat n \<le> room")
    case True
    then have "j = nat n" by (simp add: j_def)
    with k have k0: "k = 0" by linarith
    show ?thesis unfolding pw k0 if_P [OF True] pipewrite_loop.simps by (rule wakeup_release [OF tt(1,2,3)]) simp
  next
    case False
    then have j: "j = room" by (simp add: j_def)
    with k False obtain k' where k': "k = Suc k'" by (cases k) auto
    have i: "n - int (Suc k') = int room" using k j k' assms(5) by linarith
    have "pi_nwrite (pipes t p) = pi_nread (pipes t p) + PIPESIZE"
      using False uread_length [OF assms(6)] le ct by (simp add: pipe_full_iff room_def)
    moreover have "pi_readopen (pipes t p) = pi_readopen (pipes s p)" by (simp add: t_def pipe_put_fold)
    moreover have "cur_killed (acquired t ?lk) = cur_killed s" by (simp add: cur_killed_def tt)
    ultimately show ?thesis unfolding pw k' using False tt i
      by (simp add: Let_def release_acquired wakeup_ok wakeup1_acquired)
  qed
  with ct(2) show ?thesis unfolding Let_def room_def [symmetric] t_def [symmetric] by (rule conjI)
qed

subsection \<open>Reading\<close>

definition pipe_drain :: "nat \<Rightarrow> pipe \<Rightarrow> pipe" where
  "pipe_drain j = (\<lambda>q. snd (pipe_get q)) ^^ j"

lemma uwrite1_upd_pipe: "uwrite1 va x (upd_pipe p f s) = map_option (upd_pipe p f) (uwrite1 va x s)"
  by (simp add: uwrite1_def upd_pipe_def split: option.split) (simp add: umap_def)

lemma uwrite_upd_pipe: "uwrite va xs (upd_pipe p f s) = map_option (upd_pipe p f) (uwrite va xs s)"
  by (induction va xs s rule: uwrite.induct) (auto simp: uwrite1_upd_pipe split: option.split)

lemma uwrite_acquired: "uwrite va xs (acquired s lk) = map_option (\<lambda>s. acquired s lk) (uwrite va xs s)"
proof (induction va xs s rule: uwrite.induct)
  case (2 va x xs s)
  have "uwrite1 va x (acquired s lk) = map_option (\<lambda>s. acquired s lk) (uwrite1 va x s)"
    by (cases s) (simp add: uwrite1_def umap_def acquired_def Let_def)
  with 2 show ?case by (auto split: option.split)
qed simp

lemma uwrite_pipes: "uwrite va xs s = Some t \<Longrightarrow> pipes t = pipes s"
  by (drule uwrite_mem) auto

lemma piperead_steps:
  "uwrite (addr + of_int i) (take j (pipe_contents (pipes s p))) s = Some t \<Longrightarrow> pipe_inv (pipes s p) \<Longrightarrow>
   j \<le> length (pipe_contents (pipes s p)) \<Longrightarrow>
   piperead_copy (j + k) p addr i s = piperead_copy k p addr (i + int j) (upd_pipe p (pipe_drain j) t)"
proof (induction j arbitrary: i s t)
  case 0
  then show ?case by (simp add: pipe_drain_def id_def)
next
  case (Suc j)
  have ne: "pipe_contents (pipes s p) \<noteq> []" using Suc.prems(3) by auto
  note g = pq.get_law [OF Suc.prems(2) ne]
  define c where "c = fst (pipe_get (pipes s p))"
  have c: "take (Suc j) (pipe_contents (pipes s p)) = c # take j (tl (pipe_contents (pipes s p)))"
    using g ne by (cases "pipe_contents (pipes s p)") (auto simp: c_def)
  from Suc.prems(1) obtain u where u: "uwrite1 (addr + of_int i) c s = Some u"
      "uwrite (addr + of_int i + 1) (take j (tl (pipe_contents (pipes s p)))) u = Some t"
    unfolding c by (auto split: option.splits)
  define v where "v = upd_pipe p (\<lambda>q. snd (pipe_get q)) u"
  have pu: "pipes u = pipes s" using u(1) by (auto simp: uwrite1_def split: option.splits)
  have v: "pipe_inv (pipes v p)" "pipe_contents (pipes v p) = tl (pipe_contents (pipes s p))"
    using g by (simp_all add: v_def pu)
  have w: "uwrite (addr + of_int (i + 1)) (take j (pipe_contents (pipes v p))) v =
      Some (upd_pipe p (\<lambda>q. snd (pipe_get q)) t)"
    unfolding v(2) using u(2) by (simp add: v_def uwrite_upd_pipe add.assoc)
  have "piperead_copy (j + k) p addr (i + 1) v =
      piperead_copy k p addr (i + 1 + int j) (upd_pipe p (pipe_drain j) (upd_pipe p (\<lambda>q. snd (pipe_get q)) t))"
    using Suc.prems(3) v by (intro Suc.IH [OF w]) simp_all
  moreover have "upd_pipe p (pipe_drain j) (upd_pipe p (\<lambda>q. snd (pipe_get q)) t) = upd_pipe p (pipe_drain (Suc j)) t"
    by (simp add: upd_pipe_upd_pipe pipe_drain_def funpow_Suc_right comp_def del: funpow.simps)
  moreover have "pi_nread (pipes s p) \<noteq> pi_nwrite (pipes s p)" using ne pipe_empty_iff by blast
  ultimately show ?case using u(1) by (simp add: c_def [symmetric] v_def [symmetric] ac_simps)
qed

text \<open>
  C32: \<^verbatim>\<open>piperead\<close> waits only while the pipe is empty and a writer remains (an error if the caller was
  killed); otherwise it delivers the oldest bytes in order, as many as asked for and available, to
  the caller's buffer, removes exactly these from the pipe and wakes the writers. End of file is 0.
\<close>

theorem piperead_correct:
  fixes s :: "'a ppstate_scheme"
  assumes "pipe_inv (pipes s p)" "cpu_ok s" "lock_free (locks s (PIPELOCK p))" "lock_free (locks s PTABLE)"
    and "0 \<le> n" "uwrite addr (take (nat n) (pipe_contents (pipes s p))) s = Some t"
  shows "let bs = take (nat n) (pipe_contents (pipes s p)); u = upd_pipe p (pipe_drain (length bs)) t
    in pipe_contents (pipes s p) = bs @ pipe_contents (pipes u p) \<and>
       piperead p addr n s =
         (if pipe_contents (pipes s p) = [] \<and> pi_writeopen (pipes s p)
          then if cur_killed s then Ret (- 1) s
               else obind (sleep (ChPipeRead p) (PIPELOCK p) (acquired s (PIPELOCK p))) (\<lambda>_. Ret 0)
          else Ret (int (length bs)) (wakeup1 (ChPipeWrite p) u))"
proof -
  let ?lk = "PIPELOCK p"
  define bs where "bs = take (nat n) (pipe_contents (pipes s p))"
  define j where "j = length bs"
  define u where "u = upd_pipe p (pipe_drain j) t"
  have pt: "pipes t = pipes s" "locks t = locks s" "cpu_ok t = cpu_ok s"
    using uwrite_mem [OF assms(6)] by (auto simp: cpu_ok_def)
  have j: "j \<le> nat n" "j \<le> length (pipe_contents (pipes s p))" "take j (pipe_contents (pipes s p)) = bs"
    by (simp_all add: j_def bs_def min_def)
  have u: "pipe_contents (pipes u p) = drop j (pipe_contents (pipes s p))"
    using pq.get_all [OF assms(1) j(2)] by (simp add: u_def pipe_drain_def pt)
  obtain k where k: "nat n = j + k" using j(1) le_Suc_ex by blast
  have fin: "obind (wakeup (ChPipeWrite p) (acquired u ?lk)) (\<lambda>_ s. obind (release ?lk s) (\<lambda>_. Ret r)) =
      Ret r (wakeup1 (ChPipeWrite p) u)" for r
    using assms(2-4) by (intro wakeup_release) (simp_all add: u_def pt)
  have "piperead_copy (nat n) p addr 0 (acquired s ?lk) = piperead_copy k p addr (0 + int j) (upd_pipe p (pipe_drain j) (acquired t ?lk))"
    unfolding k using assms(1,6) j by (intro piperead_steps) (simp_all add: uwrite_acquired bs_def)
  also have "\<dots> = Ret (int j) (wakeup1 (ChPipeWrite p) u)"
  proof (cases k)
    case 0
    then show ?thesis by (simp add: upd_pipe_acquired u_def [symmetric] fin)
  next
    case (Suc k')
    then have "length (pipe_contents (pipes s p)) = j" using k j(2) by (simp add: j_def bs_def)
    then have "pi_nread (pipes u p) = pi_nwrite (pipes u p)" using u pipe_empty_iff [of "pipes u p"] by simp
    with Suc show ?thesis by (simp add: upd_pipe_acquired u_def [symmetric] fin)
  qed
  finally have c: "piperead_copy (nat n) p addr 0 (acquired s ?lk) = Ret (int j) (wakeup1 (ChPipeWrite p) u)" .
  have "piperead p addr n s = (if pipe_contents (pipes s p) = [] \<and> pi_writeopen (pipes s p)
      then if cur_killed s then Ret (- 1) s else obind (sleep (ChPipeRead p) ?lk (acquired s ?lk)) (\<lambda>_. Ret 0)
      else Ret (int j) (wakeup1 (ChPipeWrite p) u))"
    using assms(2,3) c
    by (simp add: piperead_def acquire_ok piperead_loop_def pipe_empty_iff cur_killed_def release_acquired)
  moreover have "pipe_contents (pipes s p) = bs @ pipe_contents (pipes u p)"
    using u j(3) by (metis append_take_drop_id)
  ultimately show ?thesis unfolding Let_def bs_def [symmetric] j_def [symmetric] u_def [symmetric] by blast
qed

subsection \<open>A pipe whose counters are about to wrap around\<close>

definition boot_slstate :: slstate where
  "boot_slstate = kstate.extend boot_kstate \<lparr>sleeplocks = (\<lambda>_. \<lparr>slp_locked = 0, slp_name = [], slp_pid = 0\<rparr>)\<rparr>"

text \<open>In memory filled with threes every address is mapped to the page at \<^verbatim>\<open>0x83030000\<close>.\<close>

definition demo_pipe :: ppstate where
  "demo_pipe = slstate.extend (boot_slstate\<lparr>mem := (\<lambda>_. 3)\<rparr>)
     \<lparr>pipes = (\<lambda>_. \<lparr>pi_data = (replicate 512 0)[511 := 7], pi_nread = 0xFFFFFFFF, pi_nwrite = 0, pi_readopen = True, pi_writeopen = True\<rparr>)\<rparr>"

lemmas demo_pipe_defs = demo_pipe_def slstate.defs boot_slstate_def kstate.defs boot_kstate_def cstate.defs
  boot_cstate_def pstate.defs boot_pstate_def

lemma demo_pipe_ok:
  "pipe_inv (pipes demo_pipe p)" "cpu_ok demo_pipe" "lock_free (locks demo_pipe lk)"
  "pipe_contents (pipes demo_pipe p) = [7]" "pi_readopen (pipes demo_pipe p)" "mem demo_pipe = (\<lambda>_. 3)" "cr3 demo_pipe = 0"
  by (simp_all add: demo_pipe_defs pipe_inv_def cpu_ok_def lock_free_def pipe_contents_def ring_def slot_def)

lemma demo_pipe_map: "umap demo_pipe 0x100 = Some 0x83030100" "umap demo_pipe 0x101 = Some 0x83030101"
  by (simp_all add: umap_def demo_pipe_ok pt_entry_def pde_def tab_def load32_def present_def PTE_ADDR_def P2V_def)

lemma pipewrite_correct_witness:
  "\<exists>t. pipewrite 0x80117000 0x100 2 demo_pipe = Ret 2 (wakeup1 (ChPipeRead 0x80117000) t) \<and>
     pipe_contents (pipes t 0x80117000) = [7, 3, 3]"
proof -
  have "uread (nat 2) 0x100 demo_pipe = Some [3, 3]"
    by (simp add: numeral_2_eq_2 demo_pipe_map demo_pipe_ok)
  from pipewrite_correct [OF demo_pipe_ok(1,2,3,3) _ this, of "0x80117000"] show ?thesis
    by (auto simp: demo_pipe_ok Let_def intro!: exI)
qed

lemma piperead_correct_witness:
  "\<exists>t. piperead 0x80117000 0x100 5 demo_pipe = Ret 1 (wakeup1 (ChPipeWrite 0x80117000) t) \<and>
     pipe_contents (pipes t 0x80117000) = []"
proof -
  have "uwrite 0x100 (take (nat 5) (pipe_contents (pipes demo_pipe 0x80117000))) demo_pipe =
      Some (demo_pipe\<lparr>mem := (\<lambda>_. 3)(0x83030100 := 7)\<rparr>)"
    by (simp add: demo_pipe_map demo_pipe_ok uwrite1_def)
  from piperead_correct [OF demo_pipe_ok(1,2,3,3) _ this] show ?thesis
    by (auto simp: demo_pipe_ok Let_def intro!: exI)
qed

end
