(* ===== verification/Bio.thy ===== *)
theory Bio
  imports Pipe
begin

text \<open>
  The buffer cache (\<^verbatim>\<open>bio.c\<close>) over the memory disk (\<^verbatim>\<open>memide.c\<close>). Buffers are indices below 30, the list
  head is index 30, and the least-recently-used list is the pair of link fields of the code. The two
  bits of \<^verbatim>\<open>flags\<close> are two fields. The disk is an array of blocks; \<open>dhist\<close> records the block writes in the
  order in which they reach the disk, for reasoning about crashes. A locked buffer is one whose sleep
  lock is taken.
\<close>

record buf =
  b_valid :: bool          \<comment> \<open>\<^verbatim>\<open>B_VALID\<close>\<close>
  b_dirty :: bool          \<comment> \<open>\<^verbatim>\<open>B_DIRTY\<close>\<close>
  b_dev :: u32
  b_blockno :: u32
  b_refcnt :: nat
  b_prev :: nat
  b_next :: nat
  b_data :: "u8 list"

record bstate = ppstate +
  bufs :: "nat \<Rightarrow> buf"      \<comment> \<open>\<^verbatim>\<open>bcache.buf[]\<close>, and \<^verbatim>\<open>bcache.head\<close> at \<open>NBUF\<close>\<close>
  disk :: "u32 \<Rightarrow> u8 list"
  disksize :: u32
  dhist :: "(u32 \<times> u8 list) list"

abbreviation (input) BHEAD :: nat where "BHEAD \<equiv> NBUF"

definition upd_buf :: "nat \<Rightarrow> (buf \<Rightarrow> buf) \<Rightarrow> 'a bstate_scheme \<Rightarrow> 'a bstate_scheme" where
  "upd_buf b f s = s\<lparr>bufs := (bufs s)(b := f (bufs s b))\<rparr>"

subsection \<open>bio.c\<close>

text \<open>Inserting a buffer behind the head, the four assignments of \<^verbatim>\<open>binit\<close> and \<^verbatim>\<open>brelse\<close>.\<close>

definition link_front :: "nat \<Rightarrow> (nat \<Rightarrow> buf) \<Rightarrow> (nat \<Rightarrow> buf)" where
  "link_front b f =
     (let f = f(b := (f b)\<lparr>b_next := b_next (f BHEAD)\<rparr>);
          f = f(b := (f b)\<lparr>b_prev := BHEAD\<rparr>);
          n = b_next (f BHEAD);
          f = f(n := (f n)\<lparr>b_prev := b\<rparr>)
      in f(BHEAD := (f BHEAD)\<lparr>b_next := b\<rparr>))"

definition unlink :: "nat \<Rightarrow> (nat \<Rightarrow> buf) \<Rightarrow> (nat \<Rightarrow> buf)" where
  "unlink b f =
     (let n = b_next (f b);
          f = f(n := (f n)\<lparr>b_prev := b_prev (f b)\<rparr>);
          p = b_prev (f b)
      in f(p := (f p)\<lparr>b_next := b_next (f b)\<rparr>))"

primrec binit_loop :: "nat list \<Rightarrow> 'a bstate_scheme \<Rightarrow> 'a bstate_scheme" where
  "binit_loop [] s = s"
| "binit_loop (b # bs) s = binit_loop bs ((initsleeplock (BufLock b) ''buffer'' s)\<lparr>bufs := link_front b (bufs s)\<rparr>)"

definition binit :: "'a bstate_scheme \<Rightarrow> 'a bstate_scheme" where
  "binit s =
     (let s = initlock BCACHE ''bcache'' s;
          s = upd_buf BHEAD (\<lambda>h. h\<lparr>b_prev := BHEAD, b_next := BHEAD\<rparr>) s
      in binit_loop [0..<NBUF] s)"

text \<open>
  A walk along the links from \<open>b\<close> to the head: the first buffer with the property, or \<open>Some None\<close> at the
  head; \<open>None\<close> when the walk does not come to an end within \<open>n\<close> steps.
\<close>

primrec bscan :: "nat \<Rightarrow> (buf \<Rightarrow> bool) \<Rightarrow> (buf \<Rightarrow> nat) \<Rightarrow> (nat \<Rightarrow> buf) \<Rightarrow> nat \<Rightarrow> nat option option" where
  "bscan 0 P link f b = None"
| "bscan (Suc n) P link f b =
     (if b = BHEAD then Some None else if P (f b) then Some (Some b) else bscan n P link f (link (f b)))"

definition bget_take :: "nat \<Rightarrow> (buf \<Rightarrow> buf) \<Rightarrow> 'a bstate_scheme \<Rightarrow> ('a bstate_scheme, nat) outcome" where
  "bget_take b f s =
     obind (release BCACHE (upd_buf b f s)) (\<lambda>_ s. obind (acquiresleep (BufLock b) s) (\<lambda>_. Ret b))"

definition bget :: "u32 \<Rightarrow> u32 \<Rightarrow> 'a bstate_scheme \<Rightarrow> ('a bstate_scheme, nat) outcome" where
  "bget dev blockno s =
     obind (acquire BCACHE s) (\<lambda>_ s.
     case bscan (NBUF + 1) (\<lambda>b. b_dev b = dev \<and> b_blockno b = blockno) b_next (bufs s) (b_next (bufs s BHEAD)) of
       None \<Rightarrow> Spin
     | Some (Some b) \<Rightarrow> bget_take b (\<lambda>b. b\<lparr>b_refcnt := b_refcnt b + 1\<rparr>) s
     | Some None \<Rightarrow>
         (case bscan (NBUF + 1) (\<lambda>b. b_refcnt b = 0 \<and> \<not> b_dirty b) b_prev (bufs s) (b_prev (bufs s BHEAD)) of
            None \<Rightarrow> Spin
          | Some (Some b) \<Rightarrow> bget_take b (\<lambda>b. b\<lparr>b_dev := dev, b_blockno := blockno, b_valid := False, b_dirty := False,
              b_refcnt := 1\<rparr>) s
          | Some None \<Rightarrow> Panic ''bget: no buffers''))"

definition bget_resume :: "nat \<Rightarrow> 'a bstate_scheme \<Rightarrow> ('a bstate_scheme, nat) outcome" where
  "bget_resume b s = obind (acquiresleep_resume (BufLock b) s) (\<lambda>_. Ret b)"

subsection \<open>memide.c\<close>

definition ideinit :: "u32 \<Rightarrow> 'a bstate_scheme \<Rightarrow> 'a bstate_scheme" where
  "ideinit img_size s = s\<lparr>disksize := img_size div BSIZE\<rparr>"

definition iderw :: "nat \<Rightarrow> 'a bstate_scheme \<Rightarrow> ('a bstate_scheme, unit) outcome" where
  "iderw b s =
     obind (holdingsleep (BufLock b) s) (\<lambda>h s.
     let x = bufs s b
     in if \<not> h then Panic ''iderw: buf not locked''
        else if b_valid x \<and> \<not> b_dirty x then Panic ''iderw: nothing to do''
        else if b_dev x \<noteq> 1 then Panic ''iderw: request not for disk 1''
        else if disksize s \<le> b_blockno x then Panic ''iderw: block out of range''
        else if b_dirty x
        then Ret () (upd_buf b (\<lambda>x. x\<lparr>b_dirty := False, b_valid := True\<rparr>)
               (s\<lparr>disk := (disk s)(b_blockno x := b_data x), dhist := dhist s @ [(b_blockno x, b_data x)]\<rparr>))
        else Ret () (upd_buf b (\<lambda>y. y\<lparr>b_data := disk s (b_blockno x), b_valid := True\<rparr>) s))"

subsection \<open>bio.c, continued\<close>

definition bread :: "u32 \<Rightarrow> u32 \<Rightarrow> 'a bstate_scheme \<Rightarrow> ('a bstate_scheme, nat) outcome" where
  "bread dev blockno s =
     obind (bget dev blockno s) (\<lambda>b s.
     if \<not> b_valid (bufs s b) then obind (iderw b s) (\<lambda>_. Ret b) else Ret b s)"

definition bwrite :: "nat \<Rightarrow> 'a bstate_scheme \<Rightarrow> ('a bstate_scheme, unit) outcome" where
  "bwrite b s =
     obind (holdingsleep (BufLock b) s) (\<lambda>h s.
     if \<not> h then Panic ''bwrite'' else iderw b (upd_buf b (\<lambda>x. x\<lparr>b_dirty := True\<rparr>) s))"

definition brelse :: "nat \<Rightarrow> 'a bstate_scheme \<Rightarrow> ('a bstate_scheme, unit) outcome" where
  "brelse b s =
     obind (holdingsleep (BufLock b) s) (\<lambda>h s.
     if \<not> h then Panic ''brelse''
     else obind (releasesleep (BufLock b) s) (\<lambda>_ s.
          obind (acquire BCACHE s) (\<lambda>_ s.
          let s = upd_buf b (\<lambda>x. x\<lparr>b_refcnt := b_refcnt x - 1\<rparr>) s;
              s = (if b_refcnt (bufs s b) = 0 then s\<lparr>bufs := link_front b (unlink b (bufs s))\<rparr> else s)
          in release BCACHE s)))"

subsection \<open>The doubly linked list\<close>

fun seg :: "(nat \<Rightarrow> nat) \<Rightarrow> (nat \<Rightarrow> nat) \<Rightarrow> nat \<Rightarrow> nat list \<Rightarrow> nat \<Rightarrow> bool" where
  "seg n p a [] z \<longleftrightarrow> n a = z \<and> p z = a"
| "seg n p a (x # xs) z \<longleftrightarrow> n a = x \<and> p x = a \<and> seg n p x xs z"

lemma seg_append: "seg n p a (xs @ y # ys) z \<longleftrightarrow> seg n p a xs y \<and> seg n p y ys z"
  by (induction xs arbitrary: a) auto

lemma seg_cong:
  "(\<And>x. x \<in> insert a (set xs) \<Longrightarrow> n x = n' x) \<Longrightarrow> (\<And>x. x \<in> insert z (set xs) \<Longrightarrow> p x = p' x) \<Longrightarrow>
   seg n p a xs z \<longleftrightarrow> seg n' p' a xs z"
  by (induction xs arbitrary: a) auto

definition dll :: "(nat \<Rightarrow> buf) \<Rightarrow> nat list \<Rightarrow> bool" where
  "dll f xs \<longleftrightarrow> seg (\<lambda>b. b_next (f b)) (\<lambda>b. b_prev (f b)) BHEAD xs BHEAD \<and> distinct xs \<and> BHEAD \<notin> set xs"

lemma dll_link_front:
  assumes "dll f xs" "b \<notin> set xs" "b \<noteq> BHEAD"
  shows "dll (link_front b f) (b # xs)"
proof (cases xs)
  case Nil
  then show ?thesis using assms by (auto simp: dll_def link_front_def Let_def)
next
  case (Cons y ys)
  let ?n = "\<lambda>b. b_next (f b)" and ?p = "\<lambda>b. b_prev (f b)"
  let ?g = "link_front b f"
  have y: "b_next (f BHEAD) = y" "seg ?n ?p y ys BHEAD" "y \<noteq> b" "y \<noteq> BHEAD" "y \<notin> set ys"
    using assms Cons by (auto simp: dll_def)
  have g: "?g = f(b := (f b)\<lparr>b_next := y, b_prev := BHEAD\<rparr>, y := (f y)\<lparr>b_prev := b\<rparr>, BHEAD := (f BHEAD)\<lparr>b_next := b\<rparr>)"
    using y assms(3) by (simp add: link_front_def Let_def)
  have "seg (\<lambda>b. b_next (?g b)) (\<lambda>b. b_prev (?g b)) y ys BHEAD \<longleftrightarrow> seg ?n ?p y ys BHEAD"
    unfolding g using y assms Cons by (intro seg_cong) (auto simp: dll_def)
  with y show ?thesis using assms Cons by (auto simp: dll_def g)
qed

lemma seg_ends: "seg n p a xs z \<Longrightarrow> n a \<in> insert z (set xs) \<and> p z \<in> insert a (set xs)"
  by (induction xs arbitrary: a) auto

lemma seg_unlink:
  assumes "seg n p a (xs @ b # ys) z" "distinct (xs @ b # ys)" "a \<notin> set (xs @ b # ys)" "z \<notin> set (xs @ b # ys)"
  shows "seg (n(p b := n b)) (p(n b := p b)) a (xs @ ys) z"
  using assms
proof (induction xs arbitrary: a)
  case Nil
  then have n: "n a = b" "p b = a" "seg n p b ys z" by auto
  show ?case
  proof (cases ys)
    case (Cons y ys')
    then have "n b = y" "seg n p y ys' z" using n by auto
    moreover have "seg (n(a := y)) (p(y := a)) y ys' z \<longleftrightarrow> seg n p y ys' z"
      using Nil.prems Cons by (intro seg_cong) auto
    ultimately show ?thesis using n Cons by (simp add: fun_upd_def)
  qed (use n in simp)
next
  case (Cons x xs)
  have "seg (n(p b := n b)) (p(n b := p b)) x (xs @ ys) z" using Cons.prems by (intro Cons.IH) auto
  moreover have "p b \<in> insert x (set xs)" "n b \<in> insert z (set ys)"
    using Cons.prems(1) seg_append [of n p x xs b ys z] seg_ends [of n p x xs b] seg_ends [of n p b ys z] by auto
  then have "p b \<noteq> a" "n b \<noteq> x" using Cons.prems by auto
  ultimately show ?case using Cons.prems(1) by (simp add: fun_upd_def)
qed

lemma dll_unlink:
  assumes "dll f (xs @ b # ys)"
  shows "dll (unlink b f) (xs @ ys)"
proof -
  let ?n = "\<lambda>b. b_next (f b)" and ?p = "\<lambda>b. b_prev (f b)"
  have s: "seg ?n ?p BHEAD (xs @ b # ys) BHEAD" and d: "distinct (xs @ b # ys)" "BHEAD \<notin> set (xs @ b # ys)"
    using assms by (auto simp: dll_def)
  have "?n b \<noteq> b"
    using seg_ends [of ?n ?p b ys BHEAD] s d by (auto simp: seg_append)
  then have "(\<lambda>x. b_next (unlink b f x)) = ?n(?p b := ?n b)" "(\<lambda>x. b_prev (unlink b f x)) = ?p(?n b := ?p b)"
    by (auto simp: unlink_def Let_def fun_eq_iff)
  with seg_unlink [OF s d(1) d(2) d(2)] d show ?thesis by (auto simp: dll_def)
qed

lemma bscan_seg:
  "seg n p a xs BHEAD \<Longrightarrow> (\<And>b. link (f b) = n b) \<Longrightarrow> BHEAD \<notin> set xs \<Longrightarrow> length xs < k \<Longrightarrow>
   bscan k P link f (n a) = Some (find (\<lambda>b. P (f b)) xs)"
proof (induction xs arbitrary: a k)
  case Nil
  then show ?case by (cases k) auto
next
  case (Cons x xs)
  then obtain k' where k: "k = Suc k'" by (cases k) auto
  have "bscan k' P link f (n x) = Some (find (\<lambda>b. P (f b)) xs)" using Cons.prems k by (intro Cons.IH) auto
  then show ?case using Cons.prems k by auto
qed

lemma seg_rev: "seg n p a xs z \<longleftrightarrow> seg p n z (rev xs) a"
proof (induction xs arbitrary: a)
  case (Cons x xs)
  have "seg p n z (rev xs @ [x]) a \<longleftrightarrow> seg p n z (rev xs) x \<and> seg p n x [] a" by (rule seg_append)
  with Cons show ?case by auto
qed auto

subsection \<open>The operations without contention\<close>

text \<open>A process is running and no spinlock is taken, as between any two calls of kernel routines.\<close>

definition kern_ok :: "'a pstate_scheme \<Rightarrow> bool" where
  "kern_ok s \<longleftrightarrow> cpu_ok s \<and> (\<forall>lk. lock_free (locks s lk)) \<and> curproc s \<noteq> None"

lemma kern_okD: "kern_ok s \<Longrightarrow> cpu_ok s" "kern_ok s \<Longrightarrow> lock_free (locks s lk)"
  by (simp_all add: kern_ok_def)

definition lock_buf :: "nat \<Rightarrow> 'a bstate_scheme \<Rightarrow> 'a bstate_scheme" where
  "lock_buf b s = s\<lparr>sleeplocks := (sleeplocks s)(BufLock b := (sleeplocks s (BufLock b))
     \<lparr>slp_locked := 1, slp_pid := p_pid (procs s ! the (curproc s))\<rparr>)\<rparr>"

definition unlock_buf :: "nat \<Rightarrow> 'a bstate_scheme \<Rightarrow> 'a bstate_scheme" where
  "unlock_buf b s = wakeup1 (ChBufLock b) (s\<lparr>sleeplocks := (sleeplocks s)(BufLock b := (sleeplocks s (BufLock b))
     \<lparr>slp_locked := 0, slp_pid := 0\<rparr>)\<rparr>)"

definition bheld :: "'a bstate_scheme \<Rightarrow> nat \<Rightarrow> bool" where
  "bheld s b \<longleftrightarrow> slp_locked (sleeplocks s (BufLock b)) \<noteq> 0"

lemma bstate_frames [simp]:
  "kern_ok (upd_buf b f s) = kern_ok s" "kern_ok (lock_buf b s) = kern_ok s" "kern_ok (unlock_buf b s) = kern_ok s"
  "bheld (upd_buf b f s) = bheld s" "bheld (lock_buf b s) = (bheld s)(b := True)"
  "bheld (unlock_buf b s) = (bheld s)(b := False)"
  "bufs (lock_buf b s) = bufs s" "bufs (unlock_buf b s) = bufs s" "disk (lock_buf b s) = disk s" "disk (unlock_buf b s) = disk s"
  "disksize (lock_buf b s) = disksize s" "disksize (unlock_buf b s) = disksize s"
  "disk (upd_buf b f s) = disk s" "disksize (upd_buf b f s) = disksize s"
  by (simp_all add: kern_ok_def cpu_ok_def upd_buf_def lock_buf_def unlock_buf_def wakeup1_def bheld_def fun_eq_iff)

lemma bufs_upd_buf: "bufs (upd_buf b f s) = (bufs s)(b := f (bufs s b))"
  by (simp add: upd_buf_def)

lemma upd_buf_acquired: "upd_buf b f (acquired s lk) = acquired (upd_buf b f s) lk"
  by (cases s) (simp add: upd_buf_def acquired_def)

lemma bufs_acquired [simp]: "bufs (acquired s lk) = bufs s"
  by (simp add: acquired_def)

lemma acquire_buf:
  assumes "kern_ok s" "\<not> bheld s b"
  shows "acquiresleep (BufLock b) s = Ret () (lock_buf b s)"
proof -
  obtain i where "curproc s = Some i" using assms(1) by (auto simp: kern_ok_def)
  then show ?thesis using assms kern_okD [OF assms(1)]
    by (simp add: acquiresleep_free sl_free_def bheld_def lock_buf_def)
qed

lemma holding_buf: "kern_ok s \<Longrightarrow> holdingsleep (BufLock b) s = Ret (bheld s b) s"
  by (simp add: holdingsleep_eq kern_ok_def sl_free_def bheld_def)

lemma release_buf: "kern_ok s \<Longrightarrow> releasesleep (BufLock b) s = Ret () (unlock_buf b s)"
  by (simp add: releasesleep_eq kern_ok_def unlock_buf_def)

lemma bget_take_ok:
  assumes "kern_ok s" "\<not> bheld s b"
  shows "bget_take b f (acquired s BCACHE) = Ret b (lock_buf b (upd_buf b f s))"
  using assms kern_okD [of "upd_buf b f s"] by (simp add: bget_take_def upd_buf_acquired release_acquired acquire_buf)

lemma bget_eq:
  assumes "kern_ok s" "dll (bufs s) xs" "length xs \<le> NBUF"
  shows "bget dev n s =
    (case find (\<lambda>b. b_dev (bufs s b) = dev \<and> b_blockno (bufs s b) = n) xs of
       Some b \<Rightarrow> bget_take b (\<lambda>b. b\<lparr>b_refcnt := b_refcnt b + 1\<rparr>) (acquired s BCACHE)
     | None \<Rightarrow>
        (case find (\<lambda>b. b_refcnt (bufs s b) = 0 \<and> \<not> b_dirty (bufs s b)) (rev xs) of
           Some b \<Rightarrow> bget_take b (\<lambda>b. b\<lparr>b_dev := dev, b_blockno := n, b_valid := False, b_dirty := False, b_refcnt := 1\<rparr>)
             (acquired s BCACHE)
         | None \<Rightarrow> Panic ''bget: no buffers''))"
proof -
  let ?n = "\<lambda>b. b_next (bufs s b)" and ?p = "\<lambda>b. b_prev (bufs s b)"
  have d: "seg ?n ?p BHEAD xs BHEAD" "BHEAD \<notin> set xs" using assms(2) by (auto simp: dll_def)
  have "bscan (NBUF + 1) P b_next (bufs s) (?n BHEAD) = Some (find (\<lambda>b. P (bufs s b)) xs)" for P
    using d assms(3) by (intro bscan_seg [where n = ?n and p = ?p]) auto
  moreover have "bscan (NBUF + 1) P b_prev (bufs s) (?p BHEAD) = Some (find (\<lambda>b. P (bufs s b)) (rev xs))" for P
    using d assms(3) seg_rev [of ?n ?p BHEAD xs BHEAD] by (intro bscan_seg [where n = ?p and p = ?n]) auto
  ultimately show ?thesis using kern_okD [OF assms(1)]
    by (simp add: bget_def acquire_ok split: option.split)
qed

subsection \<open>What the cache promises\<close>

text \<open>
  The contract of the cache with its users: \<open>vw\<close> is the current content of each block, \<open>lck\<close> maps the
  buffers in use to their block and content, \<open>dty\<close> is the set of blocks pinned with changes not yet
  on disk, \<open>dsk\<close> the disk, \<open>hist\<close> the writes that reached it, and \<open>env s t\<close> says that the rest of the
  kernel state is the same.
\<close>

locale block_cache =
  fixes brd :: "u32 \<Rightarrow> 's \<Rightarrow> ('s, nat) outcome"
    and bwr brl :: "nat \<Rightarrow> 's \<Rightarrow> ('s, unit) outcome"
    and setd :: "nat \<Rightarrow> u8 list \<Rightarrow> 's \<Rightarrow> 's"
    and pin :: "nat \<Rightarrow> 's \<Rightarrow> 's"
    and inv :: "'s \<Rightarrow> bool"
    and lck :: "'s \<Rightarrow> nat \<Rightarrow> (u32 \<times> u8 list) option"
    and vw dsk :: "'s \<Rightarrow> u32 \<Rightarrow> u8 list"
    and dty :: "'s \<Rightarrow> u32 set"
    and hist :: "'s \<Rightarrow> (u32 \<times> u8 list) list"
    and dsz :: "'s \<Rightarrow> u32"
    and env :: "'s \<Rightarrow> 's \<Rightarrow> bool"
  assumes brd_law: "inv s \<Longrightarrow> n < dsz s \<Longrightarrow> n \<notin> fst ` ran (lck s) \<Longrightarrow>
      n \<in> dty s \<or> card (dty s \<union> fst ` ran (lck s)) < NBUF \<Longrightarrow>
      \<exists>b t. brd n s = Ret b t \<and> inv t \<and> lck s b = None \<and> lck t = (lck s)(b \<mapsto> (n, vw s n)) \<and> vw t = vw s \<and>
        dty t = dty s \<and> dsk t = dsk s \<and> hist t = hist s \<and> env s t"
    and setd_law: "inv s \<Longrightarrow> lck s b = Some (n, d) \<Longrightarrow> length d' = 512 \<Longrightarrow>
      inv (setd b d' s) \<and> lck (setd b d' s) = (lck s)(b \<mapsto> (n, d')) \<and> vw (setd b d' s) = (vw s)(n := d') \<and>
        dty (setd b d' s) = dty s \<and> dsk (setd b d' s) = dsk s \<and> hist (setd b d' s) = hist s \<and> env s (setd b d' s)"
    and pin_law: "inv s \<Longrightarrow> lck s b = Some (n, d) \<Longrightarrow>
      inv (pin b s) \<and> lck (pin b s) = lck s \<and> vw (pin b s) = vw s \<and> dty (pin b s) = insert n (dty s) \<and>
        dsk (pin b s) = dsk s \<and> hist (pin b s) = hist s \<and> env s (pin b s)"
    and bwr_law: "inv s \<Longrightarrow> lck s b = Some (n, d) \<Longrightarrow>
      \<exists>t. bwr b s = Ret () t \<and> inv t \<and> lck t = lck s \<and> vw t = vw s \<and> dty t = dty s - {n} \<and>
        dsk t = (dsk s)(n := d) \<and> hist t = hist s @ [(n, d)] \<and> env s t"
    and brl_law: "inv s \<Longrightarrow> lck s b = Some (n, d) \<Longrightarrow> n \<in> dty s \<or> dsk s n = d \<Longrightarrow>
      \<exists>t. brl b s = Ret () t \<and> inv t \<and> lck t = (lck s)(b := None) \<and> vw t = vw s \<and> dty t = dty s \<and>
        dsk t = dsk s \<and> hist t = hist s \<and> env s t"
    and lck_law: "inv s \<Longrightarrow> lck s b = Some (n, d) \<Longrightarrow> n < dsz s \<and> length d = 512 \<and> vw s n = d"
    and lck_inj: "inv s \<Longrightarrow> lck s b = Some (n, d) \<Longrightarrow> lck s c = Some (n, e) \<Longrightarrow> b = c"
    and dty_law: "inv s \<Longrightarrow> finite (dty s)"
    and clean_law: "inv s \<Longrightarrow> n \<notin> dty s \<Longrightarrow> n \<notin> fst ` ran (lck s) \<Longrightarrow> vw s n = dsk s n"
    and size_law: "inv s \<Longrightarrow> n < dsz s \<Longrightarrow> length (vw s n) = 512"
    and env_dsz: "env s t \<Longrightarrow> dsz t = dsz s"
    and env_refl: "env s s"
    and env_trans: "env s t \<Longrightarrow> env t u \<Longrightarrow> env s u"

text \<open>The abstraction of the cache.\<close>

definition lockd :: "'a bstate_scheme \<Rightarrow> nat \<Rightarrow> (u32 \<times> u8 list) option" where
  "lockd s b = (if b < NBUF \<and> bheld s b then Some (b_blockno (bufs s b), b_data (bufs s b)) else None)"

definition dirtyb :: "'a bstate_scheme \<Rightarrow> u32 set" where
  "dirtyb s = {b_blockno (bufs s i) | i. i < NBUF \<and> b_dirty (bufs s i)}"

definition cached :: "'a bstate_scheme \<Rightarrow> u32 \<Rightarrow> nat \<Rightarrow> bool" where
  "cached s n i \<longleftrightarrow> i < NBUF \<and> b_dev (bufs s i) = 1 \<and> b_blockno (bufs s i) = n"

definition blk :: "'a bstate_scheme \<Rightarrow> u32 \<Rightarrow> u8 list" where
  "blk s n = (case find (cached s n) [0..<NBUF] of Some i \<Rightarrow> b_data (bufs s i) | None \<Rightarrow> disk s n)"

definition buf_ok :: "'a bstate_scheme \<Rightarrow> nat \<Rightarrow> bool" where
  "buf_ok s i \<longleftrightarrow>
     (let x = bufs s i
      in b_refcnt x = (if bheld s i then 1 else 0) \<and>
         (b_dev x = 0 \<and> \<not> b_valid x \<and> \<not> b_dirty x \<and> \<not> bheld s i \<or>
          b_dev x = 1 \<and> b_valid x \<and> b_blockno x < disksize s \<and> length (b_data x) = 512 \<and>
          (b_dirty x \<or> bheld s i \<or> b_data x = disk s (b_blockno x))))"

definition uniq :: "'a bstate_scheme \<Rightarrow> bool" where
  "uniq s \<longleftrightarrow> (\<forall>n i j. cached s n i \<longrightarrow> cached s n j \<longrightarrow> i = j)"

definition bio_inv :: "'a bstate_scheme \<Rightarrow> bool" where
  "bio_inv s \<longleftrightarrow> kern_ok s \<and> (\<exists>xs. dll (bufs s) xs \<and> set xs = {..<NBUF}) \<and> (\<forall>i < NBUF. buf_ok s i) \<and> uniq s \<and>
     (\<forall>n < disksize s. length (disk s n) = 512)"

definition benv :: "'a bstate_scheme \<Rightarrow> 'a bstate_scheme \<Rightarrow> bool" where
  "benv s t \<longleftrightarrow> (\<exists>ps sl bf dk h. t = s\<lparr>procs := ps, sleeplocks := sl, bufs := bf, disk := dk, dhist := h\<rparr> \<and>
     map (\<lambda>p. p\<lparr>p_state := UNUSED\<rparr>) ps = map (\<lambda>p. p\<lparr>p_state := UNUSED\<rparr>) (procs s) \<and>
     (\<forall>i. sl (InodeLock i) = sleeplocks s (InodeLock i)))"

definition set_data :: "nat \<Rightarrow> u8 list \<Rightarrow> 'a bstate_scheme \<Rightarrow> 'a bstate_scheme" where
  "set_data b d s = upd_buf b (\<lambda>x. x\<lparr>b_data := d\<rparr>) s"

definition pin_buf :: "nat \<Rightarrow> 'a bstate_scheme \<Rightarrow> 'a bstate_scheme" where
  "pin_buf b s = upd_buf b (\<lambda>x. x\<lparr>b_dirty := True\<rparr>) s"

lemma benvI:
  "t = s\<lparr>procs := ps, sleeplocks := sl, bufs := bf, disk := dk, dhist := h\<rparr> \<Longrightarrow>
   map (\<lambda>p. p\<lparr>p_state := UNUSED\<rparr>) ps = map (\<lambda>p. p\<lparr>p_state := UNUSED\<rparr>) (procs s) \<Longrightarrow>
   (\<And>i. sl (InodeLock i) = sleeplocks s (InodeLock i)) \<Longrightarrow> benv s t"
  unfolding benv_def by blast

lemma benv_refl [simp]: "benv s s"
  by (rule benvI [where ps = "procs s" and sl = "sleeplocks s" and bf = "bufs s" and dk = "disk s" and h = "dhist s"]) simp_all

lemma benv_trans:
  assumes "benv s t" "benv t u"
  shows "benv s u"
proof -
  from assms(1) obtain ps sl bf dk h where t: "t = s\<lparr>procs := ps, sleeplocks := sl, bufs := bf, disk := dk, dhist := h\<rparr>"
      "map (\<lambda>p. p\<lparr>p_state := UNUSED\<rparr>) ps = map (\<lambda>p. p\<lparr>p_state := UNUSED\<rparr>) (procs s)"
      "\<And>i. sl (InodeLock i) = sleeplocks s (InodeLock i)"
    unfolding benv_def by blast
  from assms(2) obtain ps' sl' bf' dk' h' where u:
      "u = t\<lparr>procs := ps', sleeplocks := sl', bufs := bf', disk := dk', dhist := h'\<rparr>"
      "map (\<lambda>p. p\<lparr>p_state := UNUSED\<rparr>) ps' = map (\<lambda>p. p\<lparr>p_state := UNUSED\<rparr>) (procs t)"
      "\<And>i. sl' (InodeLock i) = sleeplocks t (InodeLock i)"
    unfolding benv_def by blast
  show ?thesis
  proof (rule benvI)
    show "u = s\<lparr>procs := ps', sleeplocks := sl', bufs := bf', disk := dk', dhist := h'\<rparr>" unfolding u(1) t(1) by simp
    show "map (\<lambda>p. p\<lparr>p_state := UNUSED\<rparr>) ps' = map (\<lambda>p. p\<lparr>p_state := UNUSED\<rparr>) (procs s)"
      using u(2) t(2) unfolding t(1) by simp
    show "sl' (InodeLock i) = sleeplocks s (InodeLock i)" for i using u(3) t(3) unfolding t(1) by simp
  qed
qed

lemma benv_disksize: "benv s t \<Longrightarrow> disksize t = disksize s"
  by (auto simp: benv_def)

lemma benv_upd_buf: "benv s (upd_buf b f s)"
  by (rule benvI [where ps = "procs s" and sl = "sleeplocks s" and bf = "bufs (upd_buf b f s)" and dk = "disk s" and h = "dhist s"])
    (simp_all add: upd_buf_def)

lemma benv_lock_buf: "benv s (lock_buf b s)"
  by (rule benvI [where ps = "procs s" and sl = "sleeplocks (lock_buf b s)" and bf = "bufs s" and dk = "disk s" and h = "dhist s"])
    (simp_all add: lock_buf_def)

lemma benv_unlock_buf: "benv s (unlock_buf b s)"
  by (rule benvI [where ps = "procs (unlock_buf b s)" and sl = "sleeplocks (unlock_buf b s)" and bf = "bufs s" and dk = "disk s" and h = "dhist s"])
    (simp_all add: unlock_buf_def wakeup1_def)

subsection \<open>Content of blocks\<close>

lemma find_upt_None: "find P [0..<n] = None \<longleftrightarrow> (\<forall>i < n. \<not> P i)"
  by (auto simp: find_None_iff)

lemma find_upt_Some: "find P [0..<n] = Some i \<Longrightarrow> i < n \<and> P i"
  by (auto simp: find_Some_iff)

lemma blk_uncached: "(\<And>i. \<not> cached s n i) \<Longrightarrow> blk s n = disk s n"
  by (simp add: blk_def find_upt_None option.case_eq_if)

lemma blk_cached:
  assumes "uniq s" "cached s n i"
  shows "blk s n = b_data (bufs s i)"
proof -
  have "find (cached s n) [0..<NBUF] \<noteq> None" using assms(2) by (auto simp: find_upt_None cached_def)
  then obtain j where j: "find (cached s n) [0..<NBUF] = Some j" by blast
  then have "cached s n j" using find_upt_Some by blast
  with assms have "j = i" by (auto simp: uniq_def)
  with j show ?thesis by (simp add: blk_def)
qed

lemma bio_invD:
  assumes "bio_inv s"
  shows "kern_ok s" "i < NBUF \<Longrightarrow> buf_ok s i" "uniq s" "n < disksize s \<Longrightarrow> length (disk s n) = 512"
  using assms by (auto simp: bio_inv_def)

lemma lockd_Some_iff:
  "lockd s b = Some (n, d) \<longleftrightarrow> b < NBUF \<and> bheld s b \<and> n = b_blockno (bufs s b) \<and> d = b_data (bufs s b)"
  by (auto simp: lockd_def)

lemma locked_blocks: "fst ` ran (lockd s) = {b_blockno (bufs s i) | i. i < NBUF \<and> bheld s i}"
  by (auto simp: ran_def lockd_def image_iff split: if_splits) force

lemma held_cached: "bio_inv s \<Longrightarrow> i < NBUF \<Longrightarrow> bheld s i \<or> b_dirty (bufs s i) \<Longrightarrow> cached s (b_blockno (bufs s i)) i"
  using bio_invD(2) [of s i] by (auto simp: buf_ok_def cached_def Let_def)

lemma blk_clean:
  assumes "bio_inv s" "n \<notin> dirtyb s" "n \<notin> fst ` ran (lockd s)"
  shows "blk s n = disk s n"
proof (cases "\<exists>i. cached s n i")
  case True
  then obtain i where i: "cached s n i" by blast
  then have "buf_ok s i" "i < NBUF" using bio_invD(2) [OF assms(1)] by (auto simp: cached_def)
  moreover have "\<not> b_dirty (bufs s i)" "\<not> bheld s i"
    using assms(2,3) i by (auto simp: dirtyb_def locked_blocks cached_def)
  ultimately show ?thesis using blk_cached [OF bio_invD(3) [OF assms(1)] i] i by (auto simp: buf_ok_def Let_def cached_def)
qed (simp add: blk_uncached)

subsection \<open>Steps that touch one buffer\<close>

definition keeps :: "buf \<Rightarrow> buf \<Rightarrow> bool" where
  "keeps x y \<longleftrightarrow> b_valid y = b_valid x \<and> b_dirty y = b_dirty x \<and> b_dev y = b_dev x \<and> b_blockno y = b_blockno x \<and>
     b_refcnt y = b_refcnt x \<and> b_data y = b_data x"

definition same_but :: "nat \<Rightarrow> 'a bstate_scheme \<Rightarrow> 'a bstate_scheme \<Rightarrow> bool" where
  "same_but b s t \<longleftrightarrow> (\<forall>i < NBUF. i \<noteq> b \<longrightarrow> keeps (bufs s i) (bufs t i) \<and> bheld t i = bheld s i)"

lemma same_but_refl: "same_but b s s"
  by (simp add: same_but_def keeps_def)

lemma same_butD: "same_but b s t \<Longrightarrow> i \<noteq> b \<Longrightarrow> cached t n i = cached s n i"
  by (auto simp: same_but_def cached_def keeps_def)

lemma same_but_uniq:
  assumes "same_but b s t" "uniq s" "b_dev (bufs t b) = 1 \<longrightarrow> (\<forall>i. i \<noteq> b \<longrightarrow> \<not> cached s (b_blockno (bufs t b)) i)"
  shows "uniq t"
proof -
  have o: "cached t n i \<Longrightarrow> cached t n j \<Longrightarrow> i \<noteq> b \<Longrightarrow> i = j" for n i j
  proof (cases "j = b")
    case True
    assume a: "cached t n i" "cached t n j" "i \<noteq> b"
    then have "cached s (b_blockno (bufs t b)) i" "b_dev (bufs t b) = 1"
      using True same_butD [OF assms(1) a(3), of n] by (auto simp: cached_def)
    with assms(3) a(3) show ?thesis by blast
  next
    case False
    assume "cached t n i" "cached t n j" "i \<noteq> b"
    with False assms(2) same_butD [OF assms(1)] show ?thesis unfolding uniq_def by blast
  qed
  then show ?thesis unfolding uniq_def by metis
qed

lemma bio_inv_step:
  assumes "bio_inv s" "same_but b s t" "kern_ok t" "dll (bufs t) xs" "set xs = {..<NBUF}" "disksize t = disksize s"
    and "\<And>n. n < disksize s \<Longrightarrow> length (disk t n) = 512" "b < NBUF \<Longrightarrow> buf_ok t b"
    and "\<And>i. i < NBUF \<Longrightarrow> i \<noteq> b \<Longrightarrow> cached s (b_blockno (bufs s i)) i \<Longrightarrow> disk t (b_blockno (bufs s i)) = disk s (b_blockno (bufs s i))"
    and "b_dev (bufs t b) = 1 \<longrightarrow> (\<forall>i. i \<noteq> b \<longrightarrow> \<not> cached s (b_blockno (bufs t b)) i)"
  shows "bio_inv t"
proof -
  have "buf_ok t i" if "i < NBUF" for i
  proof (cases "i = b")
    case False
    with that assms(2) have k: "keeps (bufs s i) (bufs t i)" "bheld t i = bheld s i" by (auto simp: same_but_def)
    have "buf_ok s i" using that assms(1) by (rule bio_invD(2) [rotated])
    then show ?thesis using k assms(6) assms(9) [OF that False]
      by (auto simp: buf_ok_def keeps_def cached_def Let_def that)
  qed (use that assms(8) in simp)
  moreover have "uniq t" by (rule same_but_uniq [OF assms(2) bio_invD(3) [OF assms(1)] assms(10)])
  ultimately show ?thesis using assms(3-7) unfolding bio_inv_def by auto
qed

lemma blk_step:
  assumes "same_but b s t" "uniq s" "uniq t"
  shows "blk t m = (if cached t m b then b_data (bufs t b) else if cached s m b \<or> (\<forall>i. \<not> cached s m i)
    then disk t m else blk s m)"
proof (cases "cached t m b")
  case True
  then show ?thesis using blk_cached [OF assms(3)] by simp
next
  case f: False
  show ?thesis
  proof (cases "\<exists>i. i \<noteq> b \<and> cached s m i")
    case True
    then obtain i where i: "i \<noteq> b" "cached s m i" by blast
    then have "cached t m i" using same_butD [OF assms(1)] by blast
    moreover have "b_data (bufs t i) = b_data (bufs s i)" using i assms(1) by (auto simp: same_but_def keeps_def cached_def)
    moreover have "\<not> cached s m b" using i assms(2) by (auto simp: uniq_def)
    ultimately show ?thesis using f i blk_cached [OF assms(2)] blk_cached [OF assms(3)] by auto
  next
    case False
    then have "\<not> cached t m i" for i using f same_butD [OF assms(1), of i m] by (cases "i = b") auto
    then have "blk t m = disk t m" by (rule blk_uncached)
    moreover have "cached s m b \<or> (\<forall>i. \<not> cached s m i)" using False by metis
    ultimately show ?thesis using f by simp
  qed
qed

lemma lockd_step:
  "same_but b s t \<Longrightarrow> b < NBUF \<Longrightarrow>
   lockd t = (lockd s)(b := if bheld t b then Some (b_blockno (bufs t b), b_data (bufs t b)) else None)"
  by (auto simp: lockd_def same_but_def keeps_def fun_eq_iff)

lemma dirtyb_step:
  assumes "same_but b s t" "b < NBUF"
  shows "dirtyb t = {b_blockno (bufs s i) | i. i < NBUF \<and> i \<noteq> b \<and> b_dirty (bufs s i)} \<union>
    (if b_dirty (bufs t b) then {b_blockno (bufs t b)} else {})"
proof -
  have "dirtyb t = {b_blockno (bufs t i) | i. i < NBUF \<and> i \<noteq> b \<and> b_dirty (bufs t i)} \<union>
      (if b_dirty (bufs t b) then {b_blockno (bufs t b)} else {})"
    using assms(2) by (auto simp: dirtyb_def)
  also have "{b_blockno (bufs t i) | i. i < NBUF \<and> i \<noteq> b \<and> b_dirty (bufs t i)} =
      {b_blockno (bufs s i) | i. i < NBUF \<and> i \<noteq> b \<and> b_dirty (bufs s i)}"
    using assms(1) by (auto simp: same_but_def keeps_def) metis+
  finally show ?thesis .
qed

subsection \<open>bread\<close>

lemma dll_cong: "(\<And>b. b_next (g b) = b_next (f b) \<and> b_prev (g b) = b_prev (f b)) \<Longrightarrow> dll g xs = dll f xs"
  by (simp add: dll_def)

lemma bio_inv_dll: "bio_inv s \<Longrightarrow> \<exists>xs. dll (bufs s) xs \<and> set xs = {..<NBUF} \<and> length xs = NBUF"
  unfolding bio_inv_def dll_def by (metis card_lessThan distinct_card)

text \<open>The state in which buffer \<open>b\<close> has just been locked for block \<open>n\<close>.\<close>

lemma bread_step:
  assumes "bio_inv s" "b < NBUF" "\<not> bheld s b" "n < disksize s" "same_but b s t" "kern_ok t"
    and "\<And>i. b_next (bufs t i) = b_next (bufs s i) \<and> b_prev (bufs t i) = b_prev (bufs s i)"
    and "disk t = disk s" "disksize t = disksize s" "bheld t b"
    and x: "b_dev (bufs t b) = 1" "b_valid (bufs t b)" "b_blockno (bufs t b) = n" "b_refcnt (bufs t b) = 1"
      "b_data (bufs t b) = blk s n" "b_dirty (bufs t b) = b_dirty (bufs s b)"
    and c: "cached s n b \<or> \<not> b_dirty (bufs s b) \<and> (\<forall>i. \<not> cached s n i)"
  shows "bio_inv t \<and> lockd t = (lockd s)(b \<mapsto> (n, blk s n)) \<and> blk t = blk s \<and> dirtyb t = dirtyb s"
proof -
  note u = bio_invD(3) [OF assms(1)]
  have len: "length (blk s n) = 512"
    using c blk_cached [OF u, of n b] blk_uncached [of s n] bio_invD(2) [OF assms(1,2)] bio_invD(4) [OF assms(1,4)]
    by (auto simp: buf_ok_def cached_def Let_def)
  obtain xs where xs: "dll (bufs s) xs" "set xs = {..<NBUF}" using assms(1) by (auto simp: bio_inv_def)
  have inv: "bio_inv t"
  proof (rule bio_inv_step [OF assms(1,5,6)])
    show "dll (bufs t) xs" using xs(1) dll_cong [of "bufs t" "bufs s", OF assms(7)] by simp
    show "buf_ok t b" using x len assms(4,9,10) by (simp add: buf_ok_def Let_def)
    show "b_dev (bufs t b) = 1 \<longrightarrow> (\<forall>i. i \<noteq> b \<longrightarrow> \<not> cached s (b_blockno (bufs t b)) i)"
      using c u x(3) by (auto simp: uniq_def)
  qed (use assms(8,9) xs bio_invD(4) [OF assms(1)] in auto)
  have "blk t m = blk s m" for m
  proof (cases "m = n")
    case True
    then have "cached t m b" using x assms(2) by (simp add: cached_def)
    with True show ?thesis using blk_step [OF assms(5) u bio_invD(3) [OF inv], of m] x(5) by simp
  next
    case False
    then have nt: "\<not> cached t m b" using x(3) by (auto simp: cached_def)
    have "cached s m b \<Longrightarrow> blk s m = disk s m"
    proof -
      assume a: "cached s m b"
      then have "\<not> cached s n b" using False by (auto simp: cached_def)
      then have "\<not> b_dirty (bufs s b)" using c by blast
      with a assms(3) bio_invD(2) [OF assms(1,2)] show ?thesis
        using blk_cached [OF u a] by (auto simp: buf_ok_def cached_def Let_def)
    qed
    then show ?thesis using nt blk_step [OF assms(5) u bio_invD(3) [OF inv], of m] assms(8) blk_uncached [of s m] by auto
  qed
  moreover have "dirtyb t = dirtyb s"
    unfolding dirtyb_step [OF assms(5,2)] dirtyb_step [OF same_but_refl [of b s] assms(2)]
    using x(3,6) c by (auto simp: cached_def)
  moreover have "lockd t = (lockd s)(b \<mapsto> (n, blk s n))"
    using lockd_step [OF assms(5,2)] assms(10) x by simp
  ultimately show ?thesis using inv by auto
qed

lemma find_SomeI: "find P xs = Some x \<Longrightarrow> x \<in> set xs \<and> P x"
  by (auto simp: find_Some_iff)

text \<open>If fewer than \<open>NBUF\<close> blocks are pinned or in use, some buffer can be recycled.\<close>

lemma free_buffer:
  assumes "bio_inv s" "card (dirtyb s \<union> fst ` ran (lockd s)) < NBUF"
  shows "\<exists>i < NBUF. b_refcnt (bufs s i) = 0 \<and> \<not> b_dirty (bufs s i)"
proof (rule ccontr)
  assume "\<not> ?thesis"
  then have n: "bheld s i \<or> b_dirty (bufs s i)" if "i < NBUF" for i
    using that bio_invD(2) [OF assms(1) that] by (auto simp: buf_ok_def Let_def split: if_splits)
  have "inj_on (\<lambda>i. b_blockno (bufs s i)) {..<NBUF}"
  proof (rule inj_onI)
    fix i j
    assume "i \<in> {..<NBUF}" "j \<in> {..<NBUF}" "b_blockno (bufs s i) = b_blockno (bufs s j)"
    then have "cached s (b_blockno (bufs s i)) i" "cached s (b_blockno (bufs s i)) j"
      using n held_cached [OF assms(1)] by (metis lessThan_iff)+
    then show "i = j" using bio_invD(3) [OF assms(1)] by (auto simp: uniq_def)
  qed
  then have "card ((\<lambda>i. b_blockno (bufs s i)) ` {..<NBUF}) = NBUF" by (simp add: card_image)
  moreover have "(\<lambda>i. b_blockno (bufs s i)) ` {..<NBUF} \<subseteq> dirtyb s \<union> fst ` ran (lockd s)"
    using n by (auto simp: dirtyb_def locked_blocks)
  moreover have "finite (dirtyb s \<union> fst ` ran (lockd s))" by (simp add: dirtyb_def locked_blocks)
  ultimately have "NBUF \<le> card (dirtyb s \<union> fst ` ran (lockd s))" by (metis card_mono)
  with assms(2) show False by simp
qed

lemma iderw_read:
  assumes "kern_ok s" "bheld s b" "b_dev (bufs s b) = 1" "b_blockno (bufs s b) < disksize s" "\<not> b_valid (bufs s b)" "\<not> b_dirty (bufs s b)"
  shows "iderw b s = Ret () (upd_buf b (\<lambda>y. y\<lparr>b_data := disk s (b_blockno (bufs s b)), b_valid := True\<rparr>) s)"
  using assms by (simp add: iderw_def holding_buf Let_def)

lemma dhist_simps [simp]: "dhist (upd_buf b f s) = dhist s" "dhist (lock_buf b s) = dhist s" "dhist (unlock_buf b s) = dhist s"
  by (simp_all add: upd_buf_def lock_buf_def unlock_buf_def wakeup1_def)

lemma bread_hit:
  assumes "bio_inv s" "n < disksize s" "n \<notin> fst ` ran (lockd s)" "cached s n b"
  shows "\<exists>t. bread 1 n s = Ret b t \<and> bio_inv t \<and> lockd s b = None \<and> lockd t = (lockd s)(b \<mapsto> (n, blk s n)) \<and>
    blk t = blk s \<and> dirtyb t = dirtyb s \<and> disk t = disk s \<and> dhist t = dhist s \<and> benv s t"
proof -
  note k = bio_invD(1) [OF assms(1)] and u = bio_invD(3) [OF assms(1)]
  obtain xs where xs: "dll (bufs s) xs" "set xs = {..<NBUF}" "length xs = NBUF" using bio_inv_dll [OF assms(1)] by blast
  have b: "b < NBUF" "b_dev (bufs s b) = 1" "b_blockno (bufs s b) = n" using assms(4) by (auto simp: cached_def)
  have nh: "\<not> bheld s b" using assms(3) b by (auto simp: locked_blocks)
  note ok = bio_invD(2) [OF assms(1) b(1)]
  obtain c where c: "find (\<lambda>b. b_dev (bufs s b) = 1 \<and> b_blockno (bufs s b) = n) xs = Some c"
    using b xs(2) by (cases "find (\<lambda>b. b_dev (bufs s b) = 1 \<and> b_blockno (bufs s b) = n) xs") (auto simp: find_None_iff)
  then have "c = b" using find_SomeI [OF c] xs(2) u assms(4) by (auto simp: uniq_def cached_def)
  let ?t = "lock_buf b (upd_buf b (\<lambda>b. b\<lparr>b_refcnt := b_refcnt b + 1\<rparr>) s)"
  have "bget 1 n s = Ret b ?t"
    using c \<open>c = b\<close> bget_eq [OF k xs(1), of 1 n] xs(3) bget_take_ok [OF k nh] by simp
  then have r: "bread 1 n s = Ret b ?t"
    using ok b(2) by (auto simp: bread_def buf_ok_def Let_def bufs_upd_buf)
  have "bio_inv ?t \<and> lockd ?t = (lockd s)(b \<mapsto> (n, blk s n)) \<and> blk ?t = blk s \<and> dirtyb ?t = dirtyb s"
    by (rule bread_step [OF assms(1) b(1) nh assms(2)])
      (use ok nh b k blk_cached [OF u assms(4)] assms(4) in \<open>auto simp: same_but_def keeps_def bufs_upd_buf buf_ok_def Let_def\<close>)
  moreover have "benv s ?t" using benv_upd_buf benv_lock_buf by (rule benv_trans)
  moreover have "lockd s b = None" using nh by (simp add: lockd_def)
  ultimately show ?thesis using r by auto
qed

lemma bread_miss:
  assumes "bio_inv s" "n < disksize s" "card (dirtyb s \<union> fst ` ran (lockd s)) < NBUF" "\<And>i. \<not> cached s n i"
  shows "\<exists>b t. bread 1 n s = Ret b t \<and> bio_inv t \<and> lockd s b = None \<and> lockd t = (lockd s)(b \<mapsto> (n, blk s n)) \<and>
    blk t = blk s \<and> dirtyb t = dirtyb s \<and> disk t = disk s \<and> dhist t = dhist s \<and> benv s t"
proof -
  note k = bio_invD(1) [OF assms(1)] and u = bio_invD(3) [OF assms(1)]
  obtain xs where xs: "dll (bufs s) xs" "set xs = {..<NBUF}" "length xs = NBUF" using bio_inv_dll [OF assms(1)] by blast
  have "find (\<lambda>b. b_dev (bufs s b) = 1 \<and> b_blockno (bufs s b) = n) xs = None"
    using assms(4) xs(2) by (auto simp: find_None_iff cached_def)
  moreover obtain b where f: "find (\<lambda>b. b_refcnt (bufs s b) = 0 \<and> \<not> b_dirty (bufs s b)) (rev xs) = Some b"
    using free_buffer [OF assms(1,3)] xs(2)
    by (cases "find (\<lambda>b. b_refcnt (bufs s b) = 0 \<and> \<not> b_dirty (bufs s b)) (rev xs)") (auto simp: find_None_iff)
  from find_SomeI [OF f] xs(2) have b: "b < NBUF" "b_refcnt (bufs s b) = 0" "\<not> b_dirty (bufs s b)" by auto
  have nh: "\<not> bheld s b" using bio_invD(2) [OF assms(1) b(1)] b(2) by (auto simp: buf_ok_def Let_def)
  let ?u = "lock_buf b (upd_buf b (\<lambda>b. b\<lparr>b_dev := 1, b_blockno := n, b_valid := False, b_dirty := False, b_refcnt := 1\<rparr>) s)"
  let ?t = "upd_buf b (\<lambda>y. y\<lparr>b_data := disk s n, b_valid := True\<rparr>) ?u"
  have "bget 1 n s = Ret b ?u" using calculation f bget_eq [OF k xs(1), of 1 n] xs(3) bget_take_ok [OF k nh] by simp
  moreover have "iderw b ?u = Ret () ?t"
    using iderw_read [of ?u b] k assms(2) by (simp add: bufs_upd_buf)
  ultimately have r: "bread 1 n s = Ret b ?t" by (simp add: bread_def bufs_upd_buf)
  have "bio_inv ?t \<and> lockd ?t = (lockd s)(b \<mapsto> (n, blk s n)) \<and> blk ?t = blk s \<and> dirtyb ?t = dirtyb s"
    by (rule bread_step [OF assms(1) b(1) nh assms(2)])
      (use b k assms(4) blk_uncached [OF assms(4)] in \<open>auto simp: same_but_def keeps_def bufs_upd_buf\<close>)
  moreover have "benv s ?t" by (meson benv_upd_buf benv_lock_buf benv_trans)
  moreover have "lockd s b = None" using nh by (simp add: lockd_def)
  ultimately show ?thesis using r by auto
qed

lemma bread_law:
  assumes "bio_inv s" "n < disksize s" "n \<notin> fst ` ran (lockd s)" "n \<in> dirtyb s \<or> card (dirtyb s \<union> fst ` ran (lockd s)) < NBUF"
  shows "\<exists>b t. bread 1 n s = Ret b t \<and> bio_inv t \<and> lockd s b = None \<and> lockd t = (lockd s)(b \<mapsto> (n, blk s n)) \<and>
    blk t = blk s \<and> dirtyb t = dirtyb s \<and> disk t = disk s \<and> dhist t = dhist s \<and> benv s t"
proof (cases "\<exists>i. cached s n i")
  case True
  then show ?thesis using bread_hit [OF assms(1-3)] by metis
next
  case False
  then have "n \<notin> dirtyb s" using held_cached [OF assms(1)] by (auto simp: dirtyb_def)
  with False show ?thesis using bread_miss [OF assms(1,2)] assms(4) by metis
qed

subsection \<open>Changing, writing and releasing a buffer\<close>

lemma lockd_props:
  assumes "bio_inv s" "lockd s b = Some (n, d)"
  shows "b < NBUF" "bheld s b" "b_blockno (bufs s b) = n" "b_data (bufs s b) = d" "b_dev (bufs s b) = 1"
    "b_valid (bufs s b)" "n < disksize s" "length d = 512" "b_refcnt (bufs s b) = 1" "cached s n b" "blk s n = d"
proof -
  show b: "b < NBUF" "bheld s b" "b_blockno (bufs s b) = n" "b_data (bufs s b) = d" using assms(2) by (auto simp: lockd_Some_iff)
  from bio_invD(2) [OF assms(1) b(1)] b show o: "b_dev (bufs s b) = 1" "b_valid (bufs s b)" "n < disksize s" "length d = 512"
      "b_refcnt (bufs s b) = 1"
    by (auto simp: buf_ok_def Let_def)
  from b o show c: "cached s n b" by (simp add: cached_def)
  from blk_cached [OF bio_invD(3) [OF assms(1)] c] b show "blk s n = d" by simp
qed

lemma held_step:
  assumes "bio_inv s" "lockd s b = Some (n, d)" "same_but b s t" "kern_ok t" "dll (bufs t) xs" "set xs = {..<NBUF}"
    and "disksize t = disksize s" "\<And>m. m \<noteq> n \<Longrightarrow> disk t m = disk s m" "length (disk t n) = 512"
    and x: "b_dev (bufs t b) = 1" "b_valid (bufs t b)" "b_blockno (bufs t b) = n" "b_refcnt (bufs t b) = (if bheld t b then 1 else 0)"
      "length (b_data (bufs t b)) = 512" "b_dirty (bufs t b) \<or> bheld t b \<or> b_data (bufs t b) = disk t n"
  shows "bio_inv t" "lockd t = (lockd s)(b := if bheld t b then Some (n, b_data (bufs t b)) else None)"
    "blk t = (blk s)(n := b_data (bufs t b))"
    "dirtyb t = (if b_dirty (bufs t b) then insert n (dirtyb s) else dirtyb s - {n})"
proof -
  note l = lockd_props [OF assms(1,2)] and u = bio_invD(3) [OF assms(1)]
  have other: "\<not> cached s n i" if "i \<noteq> b" for i using that l(10) u by (auto simp: uniq_def)
  show inv: "bio_inv t"
  proof (rule bio_inv_step [OF assms(1,3,4,5,6,7)])
    show "buf_ok t b" using x l assms(7) by (auto simp: buf_ok_def Let_def)
    show "length (disk t m) = 512" if "m < disksize s" for m
      using that assms(8,9) bio_invD(4) [OF assms(1) that] by (cases "m = n") auto
    show "disk t (b_blockno (bufs s i)) = disk s (b_blockno (bufs s i))"
      if "i < NBUF" "i \<noteq> b" "cached s (b_blockno (bufs s i)) i" for i
      using that other [of i] by (intro assms(8)) auto
  qed (use other x(3) in auto)
  show "lockd t = (lockd s)(b := if bheld t b then Some (n, b_data (bufs t b)) else None)"
    using lockd_step [OF assms(3) l(1)] x(3) by simp
  show "blk t = (blk s)(n := b_data (bufs t b))"
  proof
    fix m
    show "blk t m = ((blk s)(n := b_data (bufs t b))) m"
    proof (cases "m = n")
      case True
      then have "cached t m b" using x l(1) by (simp add: cached_def)
      then show ?thesis using True blk_cached [OF bio_invD(3) [OF inv]] by simp
    next
      case False
      then have "\<not> cached t m b" "\<not> cached s m b" using x(3) l(3) by (auto simp: cached_def)
      then show ?thesis using False blk_step [OF assms(3) u bio_invD(3) [OF inv], of m] assms(8) blk_uncached [of s m] by auto
    qed
  qed
  have "n \<notin> {b_blockno (bufs s i) | i. i < NBUF \<and> i \<noteq> b \<and> b_dirty (bufs s i)}"
    using other held_cached [OF assms(1)] by (auto simp: cached_def)
  then show "dirtyb t = (if b_dirty (bufs t b) then insert n (dirtyb s) else dirtyb s - {n})"
    unfolding dirtyb_step [OF assms(3) l(1)] dirtyb_step [OF same_but_refl [of b s] l(1)] using x(3) l(3) by auto
qed

lemma bio_links:
  assumes "bio_inv s" "\<And>x. b_next (f x) = b_next x \<and> b_prev (f x) = b_prev x"
  shows "\<exists>xs. dll (bufs (upd_buf b f s)) xs \<and> set xs = {..<NBUF}"
proof -
  have "b_next (bufs (upd_buf b f s) i) = b_next (bufs s i) \<and> b_prev (bufs (upd_buf b f s) i) = b_prev (bufs s i)" for i
    using assms(2) by (simp add: bufs_upd_buf)
  from dll_cong [of "bufs (upd_buf b f s)" "bufs s", OF this] assms(1) show ?thesis by (auto simp: bio_inv_def)
qed

lemma dirty_iff: "bio_inv s \<Longrightarrow> lockd s b = Some (n, d) \<Longrightarrow> n \<in> dirtyb s \<longleftrightarrow> b_dirty (bufs s b)"
  using lockd_props [of s b n d] held_cached [of s] bio_invD(3) [of s] by (auto simp: dirtyb_def uniq_def) metis

lemma set_data_law:
  assumes "bio_inv s" "lockd s b = Some (n, d)" "length d' = 512"
  shows "bio_inv (set_data b d' s) \<and> lockd (set_data b d' s) = (lockd s)(b \<mapsto> (n, d')) \<and> blk (set_data b d' s) = (blk s)(n := d') \<and>
    dirtyb (set_data b d' s) = dirtyb s \<and> disk (set_data b d' s) = disk s \<and> dhist (set_data b d' s) = dhist s \<and> benv s (set_data b d' s)"
proof -
  note l = lockd_props [OF assms(1,2)]
  let ?t = "set_data b d' s"
  obtain xs where xs: "dll (bufs ?t) xs" "set xs = {..<NBUF}"
    using bio_links [OF assms(1), of "\<lambda>x. x\<lparr>b_data := d'\<rparr>" b] by (auto simp: set_data_def)
  have sb: "same_but b s ?t" by (simp add: same_but_def keeps_def set_data_def bufs_upd_buf)
  have k: "kern_ok ?t" using bio_invD(1) [OF assms(1)] by (simp add: set_data_def)
  note h = held_step [OF assms(1,2) sb k xs]
  have h: "bio_inv ?t" "lockd ?t = (lockd s)(b := if bheld ?t b then Some (n, b_data (bufs ?t b)) else None)"
      "blk ?t = (blk s)(n := b_data (bufs ?t b))" "dirtyb ?t = (if b_dirty (bufs ?t b) then insert n (dirtyb s) else dirtyb s - {n})"
    by (rule h; use l assms(3) bio_invD(4) [OF assms(1) l(7)] in \<open>simp add: set_data_def bufs_upd_buf\<close>)+
  from dirty_iff [OF assms(1,2)] show ?thesis using h l benv_upd_buf [of s b] by (auto simp: set_data_def bufs_upd_buf)
qed

lemma pin_buf_law:
  assumes "bio_inv s" "lockd s b = Some (n, d)"
  shows "bio_inv (pin_buf b s) \<and> lockd (pin_buf b s) = lockd s \<and> blk (pin_buf b s) = blk s \<and>
    dirtyb (pin_buf b s) = insert n (dirtyb s) \<and> disk (pin_buf b s) = disk s \<and> dhist (pin_buf b s) = dhist s \<and> benv s (pin_buf b s)"
proof -
  note l = lockd_props [OF assms(1,2)]
  let ?t = "pin_buf b s"
  obtain xs where xs: "dll (bufs ?t) xs" "set xs = {..<NBUF}"
    using bio_links [OF assms(1), of "\<lambda>x. x\<lparr>b_dirty := True\<rparr>" b] by (auto simp: pin_buf_def)
  have sb: "same_but b s ?t" by (simp add: same_but_def keeps_def pin_buf_def bufs_upd_buf)
  have k: "kern_ok ?t" using bio_invD(1) [OF assms(1)] by (simp add: pin_buf_def)
  note h = held_step [OF assms(1,2) sb k xs]
  have "bio_inv ?t" "lockd ?t = (lockd s)(b := if bheld ?t b then Some (n, b_data (bufs ?t b)) else None)"
      "blk ?t = (blk s)(n := b_data (bufs ?t b))" "dirtyb ?t = (if b_dirty (bufs ?t b) then insert n (dirtyb s) else dirtyb s - {n})"
    by (rule h; use l bio_invD(4) [OF assms(1) l(7)] in \<open>simp add: pin_buf_def bufs_upd_buf\<close>)+
  then show ?thesis using l assms(2) benv_upd_buf [of s b] by (auto simp: pin_buf_def bufs_upd_buf fun_upd_idem)
qed

lemma benv_disk: "benv s (s\<lparr>disk := dk, dhist := h\<rparr>)"
  by (rule benvI [where ps = "procs s" and sl = "sleeplocks s" and bf = "bufs s" and dk = dk and h = h]) simp_all

lemma bwrite_law:
  assumes "bio_inv s" "lockd s b = Some (n, d)"
  shows "\<exists>t. bwrite b s = Ret () t \<and> bio_inv t \<and> lockd t = lockd s \<and> blk t = blk s \<and> dirtyb t = dirtyb s - {n} \<and>
    disk t = (disk s)(n := d) \<and> dhist t = dhist s @ [(n, d)] \<and> benv s t"
proof -
  note l = lockd_props [OF assms(1,2)] and k = bio_invD(1) [OF assms(1)]
  let ?d = "s\<lparr>disk := (disk s)(n := d), dhist := dhist s @ [(n, d)]\<rparr>"
  let ?t = "upd_buf b (\<lambda>x. x\<lparr>b_dirty := False, b_valid := True\<rparr>) ?d"
  have "upd_buf b (\<lambda>x. x\<lparr>b_dirty := False, b_valid := True\<rparr>) (upd_buf b (\<lambda>x. x\<lparr>b_dirty := True\<rparr>) ?d) = ?t"
    by (simp add: upd_buf_def)
  moreover have "(upd_buf b (\<lambda>x. x\<lparr>b_dirty := True\<rparr>) s)\<lparr>disk := dk, dhist := h\<rparr> =
      upd_buf b (\<lambda>x. x\<lparr>b_dirty := True\<rparr>) (s\<lparr>disk := dk, dhist := h\<rparr>)" for dk h
    by (simp add: upd_buf_def)
  ultimately have w: "bwrite b s = Ret () ?t"
    using l k by (simp add: bwrite_def iderw_def holding_buf Let_def bufs_upd_buf not_le)
  have sb: "same_but b s ?t" by (simp add: same_but_def keeps_def bufs_upd_buf bheld_def)
  have kt: "kern_ok ?t" using k by (simp add: kern_ok_def cpu_ok_def upd_buf_def)
  obtain xs where xs: "dll (bufs ?t) xs" "set xs = {..<NBUF}"
    using bio_links [OF assms(1), of "\<lambda>x. x\<lparr>b_dirty := False, b_valid := True\<rparr>" b] by (auto simp: bufs_upd_buf)
  note h = held_step [OF assms(1,2) sb kt xs]
  have bh: "bheld ?t b" using l(2) by (simp add: bheld_def)
  have "bio_inv ?t" "lockd ?t = (lockd s)(b := if bheld ?t b then Some (n, b_data (bufs ?t b)) else None)"
      "blk ?t = (blk s)(n := b_data (bufs ?t b))" "dirtyb ?t = (if b_dirty (bufs ?t b) then insert n (dirtyb s) else dirtyb s - {n})"
    by (rule h; use l bh in \<open>simp add: bufs_upd_buf\<close>)+
  moreover have "benv s ?t" using benv_disk benv_upd_buf by (rule benv_trans)
  ultimately show ?thesis using w bh l assms(2) by (auto simp: bufs_upd_buf fun_upd_idem)
qed

lemma keeps_refl [simp]: "keeps x x"
  by (simp add: keeps_def)

lemma keeps_link_front: "keeps (f i) (link_front b f i)"
  by (auto simp: link_front_def Let_def keeps_def)

lemma keeps_unlink: "keeps (f i) (unlink b f i)"
  by (auto simp: unlink_def Let_def keeps_def)

lemma keeps_trans: "keeps x y \<Longrightarrow> keeps y z \<Longrightarrow> keeps x z"
  by (simp add: keeps_def)

lemma dll_to_front:
  assumes "dll f xs" "b \<in> set xs"
  shows "\<exists>ys. dll (link_front b (unlink b f)) ys \<and> set ys = set xs"
proof -
  obtain us vs where xs: "xs = us @ b # vs" using assms(2) by (auto simp: in_set_conv_decomp)
  have "dll (unlink b f) (us @ vs)" using assms(1) unfolding xs by (rule dll_unlink)
  moreover have "b \<notin> set (us @ vs)" "b \<noteq> BHEAD" using assms(1) xs by (auto simp: dll_def)
  ultimately have "dll (link_front b (unlink b f)) (b # us @ vs)" by (rule dll_link_front)
  then show ?thesis unfolding xs by (intro exI [of _ "b # us @ vs"]) auto
qed

lemma brelse_eq:
  assumes "bio_inv s" "lockd s b = Some (n, d)"
  shows "brelse b s = Ret () ((unlock_buf b s)\<lparr>bufs := link_front b (unlink b ((bufs s)(b := (bufs s b)\<lparr>b_refcnt := 0\<rparr>)))\<rparr>)"
proof -
  note l = lockd_props [OF assms] and k = bio_invD(1) [OF assms(1)]
  let ?f = "link_front b (unlink b ((bufs s)(b := (bufs s b)\<lparr>b_refcnt := 0\<rparr>)))"
  have ku: "kern_ok (unlock_buf b s)" using k by simp
  have e: "(upd_buf b g (acquired u lk))\<lparr>bufs := f\<rparr> = acquired (u\<lparr>bufs := f\<rparr>) lk" for g f lk and u :: "'a bstate_scheme"
    by (cases u) (simp add: upd_buf_def acquired_def)
  have "cpu_ok ((unlock_buf b s)\<lparr>bufs := ?f\<rparr>)" "lock_free (locks ((unlock_buf b s)\<lparr>bufs := ?f\<rparr>) BCACHE)"
    using ku by (simp_all add: kern_ok_def cpu_ok_def)
  then have "release BCACHE (acquired ((unlock_buf b s)\<lparr>bufs := ?f\<rparr>) BCACHE) = Ret () ((unlock_buf b s)\<lparr>bufs := ?f\<rparr>)"
    by (rule release_acquired)
  then show ?thesis using l(2,9) kern_okD [OF ku]
    by (simp add: brelse_def holding_buf [OF k] release_buf [OF k] acquire_ok Let_def bufs_upd_buf e)
qed

lemma brelse_law:
  assumes "bio_inv s" "lockd s b = Some (n, d)" "n \<in> dirtyb s \<or> disk s n = d"
  shows "\<exists>t. brelse b s = Ret () t \<and> bio_inv t \<and> lockd t = (lockd s)(b := None) \<and> blk t = blk s \<and> dirtyb t = dirtyb s \<and>
    disk t = disk s \<and> dhist t = dhist s \<and> benv s t"
proof -
  note l = lockd_props [OF assms(1,2)] and k = bio_invD(1) [OF assms(1)] and di = dirty_iff [OF assms(1,2)]
  define f where "f = (bufs s)(b := (bufs s b)\<lparr>b_refcnt := 0\<rparr>)"
  define g where "g = link_front b (unlink b f)"
  let ?t = "(unlock_buf b s)\<lparr>bufs := g\<rparr>"
  have kp: "keeps (f i) (g i)" for i unfolding g_def by (rule keeps_trans [OF keeps_unlink keeps_link_front])
  have bh: "bheld ?t = (bheld s)(b := False)" by (simp add: bheld_def fun_eq_iff unlock_buf_def wakeup1_def)
  have sb: "same_but b s ?t" using kp bh by (auto simp: same_but_def f_def keeps_def)
  have x: "b_dev (g b) = 1" "b_valid (g b)" "b_blockno (g b) = n" "b_refcnt (g b) = 0" "b_data (g b) = d" "b_dirty (g b) = b_dirty (bufs s b)"
    using kp [of b] l by (simp_all add: f_def keeps_def)
  have kt: "kern_ok ?t" using k by (simp add: kern_ok_def cpu_ok_def unlock_buf_def wakeup1_def)
  obtain us where us: "dll (bufs s) us" "set us = {..<NBUF}" using assms(1) by (auto simp: bio_inv_def)
  then have "dll f us" using dll_cong [of f "bufs s" us] by (simp add: f_def)
  then obtain xs where xs: "dll (bufs ?t) xs" "set xs = {..<NBUF}"
    using dll_to_front [of f us b] us(2) l(1) by (auto simp: g_def)
  note h = held_step [OF assms(1,2) sb kt xs]
  have "bio_inv ?t" "lockd ?t = (lockd s)(b := if bheld ?t b then Some (n, b_data (bufs ?t b)) else None)"
      "blk ?t = (blk s)(n := b_data (bufs ?t b))" "dirtyb ?t = (if b_dirty (bufs ?t b) then insert n (dirtyb s) else dirtyb s - {n})"
    by (rule h; use l x bh assms(3) di bio_invD(4) [OF assms(1) l(7)] in auto)+
  moreover have "benv (unlock_buf b s) ?t"
    by (rule benvI [where ps = "procs (unlock_buf b s)" and sl = "sleeplocks (unlock_buf b s)" and bf = g
          and dk = "disk (unlock_buf b s)" and h = "dhist (unlock_buf b s)"]) simp_all
  then have "benv s ?t" by (rule benv_trans [OF benv_unlock_buf])
  ultimately show ?thesis using brelse_eq [OF assms(1,2)] bh x di l(11) by (auto simp: f_def g_def)
qed

lemma blk_length:
  assumes "bio_inv s" "n < disksize s"
  shows "length (blk s n) = 512"
proof (cases "\<exists>i. cached s n i")
  case True
  then obtain i where i: "cached s n i" by blast
  then have "buf_ok s i" "b_dev (bufs s i) = 1" using bio_invD(2) [OF assms(1)] by (auto simp: cached_def)
  then show ?thesis using blk_cached [OF bio_invD(3) [OF assms(1)] i] by (auto simp: buf_ok_def Let_def)
next
  case False
  then show ?thesis using blk_uncached [of s n] bio_invD(4) [OF assms] by simp
qed

interpretation bcache: block_cache "bread 1" bwrite brelse set_data pin_buf bio_inv lockd blk disk dirtyb dhist disksize benv
proof
  fix s :: "'a bstate_scheme" and b c n d e
  assume i: "bio_inv s"
  show "lockd s b = Some (n, d) \<Longrightarrow> n < disksize s \<and> length d = 512 \<and> blk s n = d" by (simp add: lockd_props(7,8,11) [OF i])
  show "lockd s b = Some (n, d) \<Longrightarrow> lockd s c = Some (n, e) \<Longrightarrow> b = c"
    using lockd_props(10) [OF i] bio_invD(3) [OF i] unfolding uniq_def by blast
  show "finite (dirtyb s)" by (simp add: dirtyb_def)
  show "n < disksize s \<Longrightarrow> length (blk s n) = 512" by (rule blk_length [OF i])
qed (rule bread_law set_data_law pin_buf_law bwrite_law brelse_law blk_clean benv_disksize benv_refl benv_trans; assumption)+

subsection \<open>Initialisation\<close>

definition bss_buf :: buf where
  "bss_buf = \<lparr>b_valid = False, b_dirty = False, b_dev = 0, b_blockno = 0, b_refcnt = 0, b_prev = 0, b_next = 0,
     b_data = replicate 512 0\<rparr>"

lemma kern_ok_initsleeplock: "kern_ok s \<Longrightarrow> kern_ok ((initsleeplock l nm s)\<lparr>bufs := f\<rparr>)"
  by (auto simp: kern_ok_def cpu_ok_def initsleeplock_def initlock_def lock_free_def)

lemma binit_loop_ok:
  "kern_ok s \<Longrightarrow> dll (bufs s) xs \<Longrightarrow> distinct bs \<Longrightarrow> set bs \<inter> set xs = {} \<Longrightarrow> BHEAD \<notin> set bs \<Longrightarrow>
   kern_ok (binit_loop bs s) \<and> dll (bufs (binit_loop bs s)) (rev bs @ xs) \<and> (\<forall>i. keeps (bufs s i) (bufs (binit_loop bs s) i)) \<and>
   (\<forall>i. bheld (binit_loop bs s) i = (i \<notin> set bs \<and> bheld s i)) \<and> disk (binit_loop bs s) = disk s \<and> disksize (binit_loop bs s) = disksize s"
proof (induction bs arbitrary: s xs)
  case Nil
  then show ?case by simp
next
  case (Cons b bs)
  define t where "t = (initsleeplock (BufLock b) ''buffer'' s)\<lparr>bufs := link_front b (bufs s)\<rparr>"
  have "kern_ok t" unfolding t_def by (rule kern_ok_initsleeplock [OF Cons.prems(1)])
  then have t: "kern_ok t" "dll (bufs t) (b # xs)" "\<And>i. keeps (bufs s i) (bufs t i)" "\<And>i. bheld t i = (i \<noteq> b \<and> bheld s i)"
      "disk t = disk s" "disksize t = disksize s"
    using Cons.prems dll_link_front [of "bufs s" xs b] keeps_link_front [of "bufs s"]
    by (auto simp: t_def bheld_def initsleeplock_def initlock_def)
  have "kern_ok (binit_loop bs t) \<and> dll (bufs (binit_loop bs t)) (rev bs @ b # xs) \<and>
      (\<forall>i. keeps (bufs t i) (bufs (binit_loop bs t) i)) \<and>
      (\<forall>i. bheld (binit_loop bs t) i = (i \<notin> set bs \<and> bheld t i)) \<and> disk (binit_loop bs t) = disk t \<and>
      disksize (binit_loop bs t) = disksize t"
    using Cons.prems t by (intro Cons.IH) auto
  then show ?case using t keeps_trans by (simp add: t_def [symmetric]) blast
qed

lemma binit_ok:
  assumes "kern_ok s" "\<And>i. i < NBUF \<Longrightarrow> bufs s i = bss_buf" "\<And>n. n < disksize s \<Longrightarrow> length (disk s n) = 512"
  shows "bio_inv (binit s)" "lockd (binit s) = (\<lambda>_. None)" "dirtyb (binit s) = {}" "disk (binit s) = disk s" "disksize (binit s) = disksize s"
proof -
  define t where "t = upd_buf BHEAD (\<lambda>h. h\<lparr>b_prev := BHEAD, b_next := BHEAD\<rparr>) (initlock BCACHE ''bcache'' s)"
  have t: "kern_ok t" "dll (bufs t) []" "\<And>i. i < NBUF \<Longrightarrow> bufs t i = bss_buf" "disk t = disk s" "disksize t = disksize s"
    using assms by (auto simp: t_def kern_ok_def cpu_ok_def initlock_def lock_free_def upd_buf_def dll_def)
  have b: "binit s = binit_loop [0..<NBUF] t" by (simp add: binit_def t_def Let_def)
  have u: "kern_ok (binit s)" "dll (bufs (binit s)) (rev [0..<NBUF])" "\<And>i. keeps (bufs t i) (bufs (binit s) i)"
      "\<And>i. i < NBUF \<Longrightarrow> \<not> bheld (binit s) i" and d: "disk (binit s) = disk s" "disksize (binit s) = disksize s"
    using binit_loop_ok [OF t(1,2), of "[0..<NBUF]"] t(4,5) unfolding b by auto
  have k: "i < NBUF \<Longrightarrow> b_dev (bufs (binit s) i) = 0 \<and> \<not> b_valid (bufs (binit s) i) \<and> \<not> b_dirty (bufs (binit s) i) \<and>
      b_refcnt (bufs (binit s) i) = 0" for i
    using u(3) [of i] t(3) by (simp add: keeps_def bss_buf_def)
  then have "uniq (binit s)" by (auto simp: uniq_def cached_def)
  moreover have "\<forall>i < NBUF. buf_ok (binit s) i" using k u(4) by (simp add: buf_ok_def Let_def)
  ultimately show "bio_inv (binit s)" using u(1,2) assms(3) d unfolding bio_inv_def
    by (auto intro!: exI [of _ "rev [0..<NBUF]"])
  show "lockd (binit s) = (\<lambda>_. None)" "dirtyb (binit s) = {}" using k u(4) by (auto simp: lockd_def dirtyb_def)
  show "disk (binit s) = disk s" "disksize (binit s) = disksize s" by (rule d)+
qed

text \<open>
  C7: if fewer than \<open>NBUF\<close> blocks are pinned or in use (or the block is pinned) and the block is not in
  use itself, \<^verbatim>\<open>bread\<close> returns
  a locked buffer that holds the current content of the block, whether it was cached or not; no block
  changes its content, no other buffer in use is affected, and no block is ever in two buffers.
\<close>

theorem bread_correct:
  assumes "bio_inv s" "n < disksize s" "n \<notin> fst ` ran (lockd s)" "n \<in> dirtyb s \<or> card (dirtyb s \<union> fst ` ran (lockd s)) < NBUF"
  shows "\<exists>b t. bread 1 n s = Ret b t \<and> bio_inv t \<and> lockd t = (lockd s)(b \<mapsto> (n, blk s n)) \<and> lockd s b = None \<and>
    blk t = blk s \<and> dirtyb t = dirtyb s \<and> disk t = disk s \<and> (\<forall>m i j. cached t m i \<and> cached t m j \<longrightarrow> i = j)"
proof -
  from bcache.brd_law [OF assms] obtain b t where "bread 1 n s = Ret b t" "bio_inv t" "lockd s b = None"
      "lockd t = (lockd s)(b \<mapsto> (n, blk s n))" "blk t = blk s" "dirtyb t = dirtyb s" "disk t = disk s" by blast
  with bio_invD(3) [of t] show ?thesis unfolding uniq_def by blast
qed

definition boot_bstate :: bstate where
  "boot_bstate = ppstate.extend (slstate.extend (boot_slstate\<lparr>curproc := Some 0\<rparr>) \<lparr>pipes = (\<lambda>_. pipes demo_pipe 0)\<rparr>)
     \<lparr>bufs = (\<lambda>_. bss_buf), disk = (\<lambda>n. replicate 512 (ucast n)), disksize = 1000, dhist = []\<rparr>"

lemma boot_bstate_ok: "kern_ok boot_bstate" "bufs boot_bstate i = bss_buf" "disksize boot_bstate = 1000" "length (disk boot_bstate n) = 512"
  "disk boot_bstate n = replicate 512 (ucast n)"
  by (simp_all add: boot_bstate_def ppstate.defs demo_pipe_defs kern_ok_def cpu_ok_def lock_free_def)

lemma bread_correct_witness:
  "\<exists>b t. bread 1 7 (binit boot_bstate) = Ret b t \<and> lockd t b = Some (7, replicate 512 7)"
proof -
  note b = binit_ok [OF boot_bstate_ok(1) boot_bstate_ok(2) boot_bstate_ok(4)]
  have "blk (binit boot_bstate) 7 = replicate 512 7"
    using blk_clean [OF b(1), of 7] b(2,3,4) boot_bstate_ok(5) by simp
  then show ?thesis using bread_correct [OF b(1), of 7] b(2,3,5) boot_bstate_ok(3) by auto
qed

end
