(* ===== verification/Log.thy ===== *)
theory Log
  imports Bio
begin

text \<open>
  The write-ahead log (\<^verbatim>\<open>log.c\<close>): transactions, commit, installation and recovery, on top of the buffer
  cache. The header block is encoded in its bytes as on disk. The lemmas determine the result of a
  commit and of a recovery, and the sequence of block writes each of them issues.
\<close>

subsection \<open>Words in a block\<close>

definition get32 :: "u8 list \<Rightarrow> nat \<Rightarrow> u32" where
  "get32 d off = ucast (d ! off) OR push_bit 8 (ucast (d ! (off + 1))) OR push_bit 16 (ucast (d ! (off + 2)))
     OR push_bit 24 (ucast (d ! (off + 3)))"

definition put32 :: "nat \<Rightarrow> u32 \<Rightarrow> u8 list \<Rightarrow> u8 list" where
  "put32 off v d = d[off := ucast v, off + 1 := ucast (drop_bit 8 v), off + 2 := ucast (drop_bit 16 v),
     off + 3 := ucast (drop_bit 24 v)]"

lemma length_put32 [simp]: "length (put32 off v d) = length d"
  by (simp add: put32_def)

lemma get32_put32 [simp]: "off + 3 < length d \<Longrightarrow> get32 (put32 off v d) off = v"
  using bytes32_join [of v] by (simp add: get32_def put32_def nth_list_update)

lemma get32_put32_other: "off + 4 \<le> i \<or> i + 4 \<le> off \<Longrightarrow> get32 (put32 off v d) i = get32 d i"
  by (auto simp: get32_def put32_def nth_list_update)

subsection \<open>The super block (fs.h, fs.c)\<close>

record superblock =
  sb_size :: u32
  sb_nblocks :: u32
  sb_ninodes :: u32
  sb_nlog :: u32
  sb_logstart :: u32
  sb_inodestart :: u32
  sb_bmapstart :: u32

definition decode_sb :: "u8 list \<Rightarrow> superblock" where
  "decode_sb d = \<lparr>sb_size = get32 d 0, sb_nblocks = get32 d 4, sb_ninodes = get32 d 8, sb_nlog = get32 d 12,
     sb_logstart = get32 d 16, sb_inodestart = get32 d 20, sb_bmapstart = get32 d 24\<rparr>"

definition readsb :: "u32 \<Rightarrow> 'a bstate_scheme \<Rightarrow> ('a bstate_scheme, superblock) outcome" where
  "readsb dev s =
     obind (bread dev 1 s) (\<lambda>bp s.
     let sb = decode_sb (b_data (bufs s bp))
     in obind (brelse bp s) (\<lambda>_. Ret sb))"

subsection \<open>log.c\<close>

record lstate = bstate +
  log_start :: u32
  log_size :: int
  log_outstanding :: int
  log_committing :: bool
  log_dev :: u32
  lh_n :: int
  lh_block :: "u32 list"

definition install_step :: "nat \<Rightarrow> 'a lstate_scheme \<Rightarrow> ('a lstate_scheme, unit) outcome" where
  "install_step tail s =
     obind (bread (log_dev s) (log_start s + of_nat tail + 1) s) (\<lambda>lbuf s.
     obind (bread (log_dev s) (lh_block s ! tail) s) (\<lambda>dbuf s.
     let s = set_data dbuf (b_data (bufs s lbuf)) s
     in obind (bwrite dbuf s) (\<lambda>_ s. obind (brelse lbuf s) (\<lambda>_. brelse dbuf))))"

primrec install_loop :: "nat list \<Rightarrow> 'a lstate_scheme \<Rightarrow> ('a lstate_scheme, unit) outcome" where
  "install_loop [] s = Ret () s"
| "install_loop (tail # ts) s = obind (install_step tail s) (\<lambda>_. install_loop ts)"

definition install_trans :: "'a lstate_scheme \<Rightarrow> ('a lstate_scheme, unit) outcome" where
  "install_trans s = install_loop [0..<nat (lh_n s)] s"

text \<open>The array \<^verbatim>\<open>block\<close> has 30 entries; a larger count on disk runs over its end.\<close>

definition read_head :: "'a lstate_scheme \<Rightarrow> ('a lstate_scheme, unit) outcome" where
  "read_head s =
     obind (bread (log_dev s) (log_start s) s) (\<lambda>buf s.
     let d = b_data (bufs s buf); n = sint (get32 d 0)
     in if int LOGSIZE < n then Undef
        else brelse buf (s\<lparr>lh_n := n,
               lh_block := map (\<lambda>i. get32 d (4 + 4 * i)) [0..<nat n] @ drop (nat n) (lh_block s)\<rparr>))"

definition encode_head :: "int \<Rightarrow> u32 list \<Rightarrow> u8 list \<Rightarrow> u8 list" where
  "encode_head n bl d = fold (\<lambda>i. put32 (4 + 4 * i) (bl ! i)) [0..<nat n] (put32 0 (of_int n) d)"

definition write_head :: "'a lstate_scheme \<Rightarrow> ('a lstate_scheme, unit) outcome" where
  "write_head s =
     obind (bread (log_dev s) (log_start s) s) (\<lambda>buf s.
     let s = set_data buf (encode_head (lh_n s) (lh_block s) (b_data (bufs s buf))) s
     in obind (bwrite buf s) (\<lambda>_. brelse buf))"

definition recover_from_log :: "'a lstate_scheme \<Rightarrow> ('a lstate_scheme, unit) outcome" where
  "recover_from_log s =
     obind (read_head s) (\<lambda>_ s. obind (install_trans s) (\<lambda>_ s. write_head (s\<lparr>lh_n := 0\<rparr>)))"

definition initlog :: "u32 \<Rightarrow> 'a lstate_scheme \<Rightarrow> ('a lstate_scheme, unit) outcome" where
  "initlog dev s =
     obind (readsb dev (initlock LOGLOCK ''log'' s)) (\<lambda>sb s.
     recover_from_log (s\<lparr>log_start := sb_logstart sb, log_size := sint (sb_nlog sb), log_dev := dev\<rparr>))"

definition begin_op_loop :: "'a lstate_scheme \<Rightarrow> ('a lstate_scheme, unit) outcome" where
  "begin_op_loop s =
     (if log_committing s then sleep ChLog LOGLOCK s
      else if lh_n s + (log_outstanding s + 1) * int MAXOPBLOCKS > int LOGSIZE then sleep ChLog LOGLOCK s
      else release LOGLOCK (s\<lparr>log_outstanding := log_outstanding s + 1\<rparr>))"

definition begin_op :: "'a lstate_scheme \<Rightarrow> ('a lstate_scheme, unit) outcome" where
  "begin_op s = obind (acquire LOGLOCK s) (\<lambda>_. begin_op_loop)"

definition begin_op_resume :: "'a lstate_scheme \<Rightarrow> ('a lstate_scheme, unit) outcome" where
  "begin_op_resume s = obind (sleep_resume LOGLOCK s) (\<lambda>_. begin_op_loop)"

definition write_log_step :: "nat \<Rightarrow> 'a lstate_scheme \<Rightarrow> ('a lstate_scheme, unit) outcome" where
  "write_log_step tail s =
     obind (bread (log_dev s) (log_start s + of_nat tail + 1) s) (\<lambda>to s.
     obind (bread (log_dev s) (lh_block s ! tail) s) (\<lambda>from s.
     let s = set_data to (b_data (bufs s from)) s
     in obind (bwrite to s) (\<lambda>_ s. obind (brelse from s) (\<lambda>_. brelse to))))"

primrec write_log_loop :: "nat list \<Rightarrow> 'a lstate_scheme \<Rightarrow> ('a lstate_scheme, unit) outcome" where
  "write_log_loop [] s = Ret () s"
| "write_log_loop (tail # ts) s = obind (write_log_step tail s) (\<lambda>_. write_log_loop ts)"

definition write_log :: "'a lstate_scheme \<Rightarrow> ('a lstate_scheme, unit) outcome" where
  "write_log s = write_log_loop [0..<nat (lh_n s)] s"

definition commit :: "'a lstate_scheme \<Rightarrow> ('a lstate_scheme, unit) outcome" where
  "commit s =
     (if lh_n s > 0
      then obind (write_log s) (\<lambda>_ s. obind (write_head s) (\<lambda>_ s. obind (install_trans s) (\<lambda>_ s.
           write_head (s\<lparr>lh_n := 0\<rparr>))))
      else Ret () s)"

definition end_op :: "'a lstate_scheme \<Rightarrow> ('a lstate_scheme, unit) outcome" where
  "end_op s =
     obind (acquire LOGLOCK s) (\<lambda>_ s.
     let s = s\<lparr>log_outstanding := log_outstanding s - 1\<rparr>
     in if log_committing s then Panic ''log.committing''
        else if log_outstanding s = 0
        then obind (release LOGLOCK (s\<lparr>log_committing := True\<rparr>)) (\<lambda>_ s.
             obind (commit s) (\<lambda>_ s.
             obind (acquire LOGLOCK s) (\<lambda>_ s.
             obind (wakeup ChLog (s\<lparr>log_committing := False\<rparr>)) (\<lambda>_. release LOGLOCK))))
        else obind (wakeup ChLog s) (\<lambda>_. release LOGLOCK))"

text \<open>The index of the block in the log, or the first free index.\<close>

definition log_slot :: "u32 \<Rightarrow> 'a lstate_scheme \<Rightarrow> nat" where
  "log_slot n s = length (takeWhile (\<lambda>x. x \<noteq> n) (take (nat (lh_n s)) (lh_block s)))"

definition log_write :: "nat \<Rightarrow> 'a lstate_scheme \<Rightarrow> ('a lstate_scheme, unit) outcome" where
  "log_write b s =
     (if lh_n s \<ge> int LOGSIZE \<or> lh_n s \<ge> log_size s - 1 then Panic ''too big a transaction''
      else if log_outstanding s < 1 then Panic ''log_write outside of trans''
      else obind (acquire LOGLOCK s) (\<lambda>_ s.
        let i = log_slot (b_blockno (bufs s b)) s;
            s = s\<lparr>lh_block := (lh_block s)[i := b_blockno (bufs s b)]\<rparr>;
            s = (if int i = lh_n s then s\<lparr>lh_n := lh_n s + 1\<rparr> else s)
        in release LOGLOCK (pin_buf b s)))"

subsection \<open>Sequences of block writes\<close>

definition replay :: "(u32 \<times> u8 list) list \<Rightarrow> (u32 \<Rightarrow> u8 list) \<Rightarrow> u32 \<Rightarrow> u8 list" where
  "replay ws d = fold (\<lambda>w d. d(fst w := snd w)) ws d"

lemma replay_simps [simp]:
  "replay [] d = d" "replay (w # ws) d = replay ws (d(fst w := snd w))" "replay (us @ vs) d = replay vs (replay us d)"
  by (simp_all add: replay_def)

lemma replay_other: "m \<notin> fst ` set ws \<Longrightarrow> replay ws d m = d m"
  by (induction ws arbitrary: d) auto

lemma replay_in: "(m, x) \<in> set ws \<Longrightarrow> (\<And>y. (m, y) \<in> set ws \<Longrightarrow> y = x) \<Longrightarrow> replay ws d m = x"
proof (induction ws arbitrary: d)
  case (Cons w ws)
  show ?case
  proof (cases "(m, x) \<in> set ws")
    case True
    have "y = x" if "(m, y) \<in> set ws" for y using Cons.prems(2) that by simp
    from Cons.IH [OF True this] show ?thesis by simp
  next
    case False
    then have "m \<notin> fst ` set ws" using Cons.prems(2) by fastforce
    moreover have "w = (m, x)" using Cons.prems(1) False by auto
    ultimately show ?thesis by (simp add: replay_other)
  qed
qed simp

lemma replay_same_value: "(\<And>y. (m, y) \<in> set ws \<Longrightarrow> y = d m) \<Longrightarrow> replay ws d m = d m"
proof (cases "m \<in> fst ` set ws")
  case True
  assume a: "\<And>y. (m, y) \<in> set ws \<Longrightarrow> y = d m"
  with True have "(m, d m) \<in> set ws" by auto
  then show ?thesis using a by (rule replay_in)
qed (rule replay_other)

subsection \<open>Copying a block through the cache\<close>

definition idle :: "'a bstate_scheme \<Rightarrow> bool" where
  "idle s \<longleftrightarrow> bio_inv s \<and> lockd s = (\<lambda>_. None)"

lemma benv_log:
  assumes "benv s t"
  shows "log_start t = log_start s" "log_dev t = log_dev s" "lh_n t = lh_n s" "lh_block t = lh_block s"
    "log_size t = log_size s" "log_outstanding t = log_outstanding s" "log_committing t = log_committing s"
  using assms by (auto simp: benv_def)

lemma benv_lh:
  assumes "benv s t"
  shows "benv (s\<lparr>lh_n := n\<rparr>) (t\<lparr>lh_n := n\<rparr>)" "benv (s\<lparr>lh_n := n, lh_block := bl\<rparr>) (t\<lparr>lh_n := n, lh_block := bl\<rparr>)"
proof -
  from assms obtain ps sl bf dk h where t: "t = s\<lparr>procs := ps, sleeplocks := sl, bufs := bf, disk := dk, dhist := h\<rparr>"
      "map (\<lambda>p. p\<lparr>p_state := UNUSED\<rparr>) ps = map (\<lambda>p. p\<lparr>p_state := UNUSED\<rparr>) (procs s)"
      "\<And>i. sl (InodeLock i) = sleeplocks s (InodeLock i)" by (auto simp: benv_def)
  show "benv (s\<lparr>lh_n := n\<rparr>) (t\<lparr>lh_n := n\<rparr>)" "benv (s\<lparr>lh_n := n, lh_block := bl\<rparr>) (t\<lparr>lh_n := n, lh_block := bl\<rparr>)"
    by (rule benvI [where ps = ps and sl = sl and bf = bf and dk = dk and h = h]; use t in simp)+
qed

lemma ran_one: "fst ` ran ((\<lambda>_. None)(b \<mapsto> (n, d))) = {n}"
  by (auto simp: ran_def)

lemma ran_none: "fst ` ran (\<lambda>_. None) = {}"
  by (auto simp: ran_def)

text \<open>
  Two blocks read one after the other, as at the start of each copying loop: both are locked, in
  different buffers, with their current content.
\<close>

lemma bread_two:
  assumes "idle s" "x < disksize s" "y < disksize s" "x \<noteq> y" "x \<notin> dirtyb s"
    and "card (dirtyb s) < NBUF" "y \<in> dirtyb s \<or> card (dirtyb s) + 1 < NBUF"
  shows "\<exists>a u b t. bread 1 x s = Ret a u \<and> bread 1 y u = Ret b t \<and> a \<noteq> b \<and> bio_inv t \<and>
    lockd t = (\<lambda>_. None)(a \<mapsto> (x, blk s x), b \<mapsto> (y, blk s y)) \<and> blk t = blk s \<and> dirtyb t = dirtyb s \<and>
    disk t = disk s \<and> dhist t = dhist s \<and> benv s u \<and> benv s t"
proof -
  have i: "bio_inv s" "lockd s = (\<lambda>_. None)" using assms(1) by (auto simp: idle_def)
  obtain a u where u: "bread 1 x s = Ret a u" "bio_inv u" "lockd u = (\<lambda>_. None)(a \<mapsto> (x, blk s x))"
      "blk u = blk s" "dirtyb u = dirtyb s" "disk u = disk s" "dhist u = dhist s" "benv s u"
    using bcache.brd_law [OF i(1) assms(2)] assms(6) unfolding i(2) ran_none by auto
  have d: "disksize u = disksize s" using bcache.env_dsz [OF u(8)] .
  have f: "finite (dirtyb s)" using bcache.dty_law [OF i(1)] .
  have "card (dirtyb s \<union> {x}) = card (dirtyb s) + 1" using assms(5) f by simp
  then have c: "y \<in> dirtyb u \<or> card (dirtyb u \<union> fst ` ran (lockd u)) < NBUF"
    using assms(7) unfolding u(3,5) ran_one by simp
  have "y \<notin> fst ` ran (lockd u)" using assms(4) unfolding u(3) ran_one by simp
  from bcache.brd_law [OF u(2) _ this c] assms(3) d obtain b t where t: "bread 1 y u = Ret b t" "bio_inv t"
      "lockd u b = None" "lockd t = (lockd u)(b \<mapsto> (y, blk u y))" "blk t = blk u" "dirtyb t = dirtyb u" "disk t = disk u"
      "dhist t = dhist u" "benv u t" by auto
  have "a \<noteq> b" using t(3) u(3) by auto
  moreover have "benv s t" using u(8) t(9) by (rule benv_trans)
  ultimately show ?thesis using u t by auto
qed

text \<open>
  Copying the content of buffer \<open>b\<close> to buffer \<open>a\<close>, writing it and releasing both: the block of \<open>a\<close> gets the
  content of the block of \<open>b\<close>, on disk as well.
\<close>

lemma copy_two:
  assumes "bio_inv s" "lockd s = (\<lambda>_. None)(a \<mapsto> (x, d), b \<mapsto> (y, e))" "a \<noteq> b" "x \<noteq> y" "y \<in> dirtyb s \<or> disk s y = e"
  shows "\<exists>u v w. bwrite a (set_data a (b_data (bufs s b)) s) = Ret () u \<and> brelse b u = Ret () v \<and> brelse a v = Ret () w \<and>
    idle w \<and> blk w = (blk s)(x := e) \<and> dirtyb w = dirtyb s - {x} \<and> disk w = (disk s)(x := e) \<and>
    dhist w = dhist s @ [(x, e)] \<and> benv s w"
proof -
  have la: "lockd s a = Some (x, d)" "lockd s b = Some (y, e)" using assms(2,3) by simp_all
  note b = lockd_props [OF assms(1) la(2)]
  define s1 where "s1 = set_data a e s"
  have s1: "bio_inv s1" "lockd s1 = (\<lambda>_. None)(a \<mapsto> (x, e), b \<mapsto> (y, e))" "blk s1 = (blk s)(x := e)" "dirtyb s1 = dirtyb s"
      "disk s1 = disk s" "dhist s1 = dhist s" "benv s s1"
    using bcache.setd_law [OF assms(1) la(1) b(8)] assms(2,3) by (auto simp: s1_def fun_upd_twist)
  have "lockd s1 a = Some (x, e)" using s1(2) assms(3) by simp
  from bcache.bwr_law [OF s1(1) this] obtain u where u: "bwrite a s1 = Ret () u" "bio_inv u" "lockd u = lockd s1" "blk u = blk s1"
      "dirtyb u = dirtyb s - {x}" "disk u = (disk s)(x := e)" "dhist u = dhist s @ [(x, e)]" "benv s1 u"
    using s1 by auto
  have "lockd u b = Some (y, e)" "y \<in> dirtyb u \<or> disk u y = e" using u s1 assms(4,5) by auto
  from bcache.brl_law [OF u(2) this] obtain v where v: "brelse b u = Ret () v" "bio_inv v" "lockd v = (lockd u)(b := None)"
      "blk v = blk u" "dirtyb v = dirtyb u" "disk v = disk u" "dhist v = dhist u" "benv u v" by blast
  have "lockd v a = Some (x, e)" "x \<in> dirtyb v \<or> disk v x = e" using v u s1 assms(3) by auto
  from bcache.brl_law [OF v(2) this] obtain w where w: "brelse a v = Ret () w" "bio_inv w" "lockd w = (lockd v)(a := None)"
      "blk w = blk v" "dirtyb w = dirtyb v" "disk w = disk v" "dhist w = dhist v" "benv v w" by blast
  have "lockd w = (\<lambda>_. None)" using w v u s1 assms(3) by (auto simp: fun_eq_iff)
  moreover have "benv s w" using s1(7) u(8) v(8) w(8) by (meson benv_trans)
  ultimately show ?thesis using u v w s1 b(4) by (auto simp: s1_def idle_def)
qed

lemma write_log_step_ok:
  assumes "idle s" "log_dev s = 1" "log_start s + of_nat i + 1 = x" "lh_block s ! i = y" "x < disksize s" "y < disksize s"
    and "x \<notin> dirtyb s" "y \<in> dirtyb s" "card (dirtyb s) < NBUF"
  shows "\<exists>t. write_log_step i s = Ret () t \<and> idle t \<and> blk t = (blk s)(x := blk s y) \<and> dirtyb t = dirtyb s \<and>
    disk t = (disk s)(x := blk s y) \<and> dhist t = dhist s @ [(x, blk s y)] \<and> benv s t"
proof -
  have xy: "x \<noteq> y" using assms(7,8) by auto
  obtain a u b t where t: "bread 1 x s = Ret a u" "bread 1 y u = Ret b t" "a \<noteq> b" "bio_inv t"
      "lockd t = (\<lambda>_. None)(a \<mapsto> (x, blk s x), b \<mapsto> (y, blk s y))" "blk t = blk s" "dirtyb t = dirtyb s" "disk t = disk s"
      "dhist t = dhist s" "benv s u" "benv s t"
    using bread_two [OF assms(1,5,6) xy assms(7,9)] assms(8) by blast
  have "y \<in> dirtyb t \<or> disk t y = blk s y" using t(7) assms(8) by simp
  from copy_two [OF t(4,5,3) xy this] obtain p q r where w: "bwrite a (set_data a (b_data (bufs t b)) t) = Ret () p"
      "brelse b p = Ret () q" "brelse a q = Ret () r" "idle r" "blk r = (blk t)(x := blk s y)" "dirtyb r = dirtyb t - {x}"
      "disk r = (disk t)(x := blk s y)" "dhist r = dhist t @ [(x, blk s y)]" "benv t r" by blast
  have "write_log_step i s = Ret () r"
    using t(1,2) w(1-3) assms(2-4) benv_log [OF t(10)] by (simp add: write_log_step_def Let_def)
  moreover have "benv s r" using t(11) w(9) by (rule benv_trans)
  ultimately show ?thesis using w t assms(7) by auto
qed

lemma install_step_ok:
  assumes "idle s" "log_dev s = 1" "log_start s + of_nat i + 1 = x" "lh_block s ! i = y" "x < disksize s" "y < disksize s"
    and "x \<noteq> y" "x \<notin> dirtyb s" "card (dirtyb s) < NBUF" "y \<in> dirtyb s \<or> card (dirtyb s) + 1 < NBUF"
  shows "\<exists>t. install_step i s = Ret () t \<and> idle t \<and> blk t = (blk s)(y := blk s x) \<and> dirtyb t = dirtyb s - {y} \<and>
    disk t = (disk s)(y := blk s x) \<and> dhist t = dhist s @ [(y, blk s x)] \<and> benv s t"
proof -
  obtain a u b t where t: "bread 1 x s = Ret a u" "bread 1 y u = Ret b t" "a \<noteq> b" "bio_inv t"
      "lockd t = (\<lambda>_. None)(a \<mapsto> (x, blk s x), b \<mapsto> (y, blk s y))" "blk t = blk s" "dirtyb t = dirtyb s" "disk t = disk s"
      "dhist t = dhist s" "benv s u" "benv s t"
    using bread_two [OF assms(1,5,6,7,8,9,10)] by blast
  have "blk s x = disk s x"
    using assms(1,8) by (intro bcache.clean_law) (auto simp: idle_def ran_def)
  then have x: "x \<in> dirtyb t \<or> disk t x = blk s x" using t(8) by simp
  have l: "lockd t = (\<lambda>_. None)(b \<mapsto> (y, blk s y), a \<mapsto> (x, blk s x))" using t(3,5) by (simp add: fun_upd_twist)
  from copy_two [OF t(4) l _ _ x] t(3) assms(7) obtain p q r where w: "bwrite b (set_data b (b_data (bufs t a)) t) = Ret () p"
      "brelse a p = Ret () q" "brelse b q = Ret () r" "idle r" "blk r = (blk t)(y := blk s x)" "dirtyb r = dirtyb t - {y}"
      "disk r = (disk t)(y := blk s x)" "dhist r = dhist t @ [(y, blk s x)]" "benv t r" by metis
  have "install_step i s = Ret () r"
    using t(1,2) w(1-3) assms(2-4) benv_log [OF t(10)] by (simp add: install_step_def Let_def)
  moreover have "benv s r" using t(11) w(9) by (rule benv_trans)
  ultimately show ?thesis using w t by auto
qed

subsection \<open>The fields of the log and the cache\<close>

lemma bio_same:
  fixes s t :: "'a bstate_scheme"
  assumes "bufs t = bufs s" "disk t = disk s" "disksize t = disksize s" "sleeplocks t = sleeplocks s" "kern_ok t = kern_ok s"
  shows "blk t = blk s" "dirtyb t = dirtyb s" "lockd t = lockd s" "bio_inv t = bio_inv s" "idle t = idle s"
proof -
  have c: "cached t = cached s" "bheld t = bheld s" by (auto simp: cached_def bheld_def assms fun_eq_iff)
  show l: "blk t = blk s" "dirtyb t = dirtyb s" "lockd t = lockd s"
    by (auto simp: blk_def dirtyb_def lockd_def c assms fun_eq_iff split: option.splits)
  show i: "bio_inv t = bio_inv s" by (simp add: bio_inv_def buf_ok_def uniq_def c assms)
  show "idle t = idle s" by (simp add: idle_def i l)
qed

lemma bio_upd_lh [simp]:
  "blk (s\<lparr>lh_n := n\<rparr>) = blk s" "dirtyb (s\<lparr>lh_n := n\<rparr>) = dirtyb s" "lockd (s\<lparr>lh_n := n\<rparr>) = lockd s"
  "bio_inv (s\<lparr>lh_n := n\<rparr>) = bio_inv s" "idle (s\<lparr>lh_n := n\<rparr>) = idle s"
  by (rule bio_same; simp add: kern_ok_def cpu_ok_def)+

lemma bio_upd_block [simp]:
  "blk (s\<lparr>lh_block := n\<rparr>) = blk s" "dirtyb (s\<lparr>lh_block := n\<rparr>) = dirtyb s" "lockd (s\<lparr>lh_block := n\<rparr>) = lockd s"
  "bio_inv (s\<lparr>lh_block := n\<rparr>) = bio_inv s" "idle (s\<lparr>lh_block := n\<rparr>) = idle s"
  by (rule bio_same; simp add: kern_ok_def cpu_ok_def)+

text \<open>
  The blocks of the log, and a log whose home blocks lie elsewhere. The log of \<^verbatim>\<open>mkfs\<close> has 30 blocks: the
  header and 29 data blocks.
\<close>

definition logreg :: "'a lstate_scheme \<Rightarrow> u32 set" where
  "logreg s = {log_start s + of_nat i | i. i < LOGSIZE}"

definition layout :: "nat \<Rightarrow> 'a lstate_scheme \<Rightarrow> bool" where
  "layout n s \<longleftrightarrow> log_dev s = 1 \<and> n < LOGSIZE \<and> unat (log_start s) + LOGSIZE \<le> unat (disksize s) \<and>
     (\<forall>i < n. lh_block s ! i < disksize s \<and> lh_block s ! i \<notin> logreg s)"

abbreviation (input) lb :: "'a lstate_scheme \<Rightarrow> nat \<Rightarrow> u32" where
  "lb s i \<equiv> log_start s + of_nat i + 1"

lemma layout_lb:
  assumes "layout n s" "i < n"
  shows "lb s i < disksize s" "lb s i \<in> logreg s" "lb s i \<noteq> log_start s" "lh_block s ! i < disksize s" "lh_block s ! i \<notin> logreg s"
    "lb s i \<noteq> lh_block s ! i"
proof -
  have e: "lb s i = log_start s + of_nat (Suc i)" by simp
  have i: "Suc i < LOGSIZE" "unat (log_start s) + LOGSIZE \<le> unat (disksize s)" using assms by (auto simp: layout_def)
  have u: "unat (log_start s + of_nat (Suc i)) = unat (log_start s) + Suc i"
    using i unat_u32_less [of "disksize s"] by (intro unat_add_of_nat) linarith
  show "lb s i < disksize s" unfolding e word_less_nat_alt u using i by simp
  show l: "lb s i \<in> logreg s" unfolding e logreg_def using i(1) by blast
  show "lb s i \<noteq> log_start s" using u unfolding e by auto
  show "lh_block s ! i < disksize s" "lh_block s ! i \<notin> logreg s" using assms by (auto simp: layout_def)
  then show "lb s i \<noteq> lh_block s ! i" using l by metis
qed

lemma layout_start: "layout n s \<Longrightarrow> log_start s < disksize s \<and> log_start s \<in> logreg s"
  by (auto simp: layout_def logreg_def word_less_nat_alt intro!: exI [of _ 0])

lemma layout_cong: "benv s t \<Longrightarrow> layout n t = layout n s" "benv s t \<Longrightarrow> logreg t = logreg s"
  using benv_log [of s t] benv_disksize [of s t] by (simp_all add: layout_def logreg_def)

lemma lb_inj: "i < LOGSIZE \<Longrightarrow> j < LOGSIZE \<Longrightarrow> lb s i = lb s j \<Longrightarrow> i = j"
proof -
  assume a: "i < LOGSIZE" "j < LOGSIZE" "lb s i = lb s j"
  then have "(of_nat i :: u32) = of_nat j" by simp
  then have "unat (of_nat i :: u32) = unat (of_nat j :: u32)" by simp
  then show "i = j" using a unat_of_nat_u32 [of i] unat_of_nat_u32 [of j] by simp
qed

subsection \<open>The loops\<close>

lemma write_log_loop_ok:
  "idle s \<Longrightarrow> layout n s \<Longrightarrow> set ts \<subseteq> {..<n} \<Longrightarrow> dirtyb s \<inter> logreg s = {} \<Longrightarrow> card (dirtyb s) < NBUF \<Longrightarrow>
   (\<And>i. i < n \<Longrightarrow> lh_block s ! i \<in> dirtyb s) \<Longrightarrow> ws = map (\<lambda>i. (lb s i, blk s (lh_block s ! i))) ts \<Longrightarrow>
   \<exists>t. write_log_loop ts s = Ret () t \<and> idle t \<and> blk t = replay ws (blk s) \<and> dirtyb t = dirtyb s \<and>
     disk t = replay ws (disk s) \<and> dhist t = dhist s @ ws \<and> benv s t"
proof (induction ts arbitrary: s ws)
  case Nil
  then show ?case by simp
next
  case (Cons i ts)
  have i: "i < n" using Cons.prems(3) by simp
  note l = layout_lb [OF Cons.prems(2) i]
  let ?d = "blk s (lh_block s ! i)"
  have "log_dev s = 1" using Cons.prems(2) by (simp add: layout_def)
  moreover have "lb s i \<notin> dirtyb s" using l(2) Cons.prems(4) by auto
  ultimately obtain u where u: "write_log_step i s = Ret () u" "idle u" "blk u = (blk s)(lb s i := ?d)" "dirtyb u = dirtyb s"
      "disk u = (disk s)(lb s i := ?d)" "dhist u = dhist s @ [(lb s i, ?d)]" "benv s u"
    using write_log_step_ok [OF Cons.prems(1) _ refl refl l(1,4)] Cons.prems(5,6) i by auto
  note e = benv_log [OF u(7)] layout_cong [OF u(7)]
  define vs where "vs = map (\<lambda>i. (lb u i, blk u (lh_block u ! i))) ts"
  have "blk u (lh_block s ! j) = blk s (lh_block s ! j)" if "j < n" for j
    using layout_lb(5) [OF Cons.prems(2) that] l(2) u(3) by (metis fun_upd_apply)
  then have vs: "ws = (lb s i, ?d) # vs" using Cons.prems(3,7) by (auto simp: vs_def e subset_iff)
  have "\<exists>t. write_log_loop ts u = Ret () t \<and> idle t \<and> blk t = replay vs (blk u) \<and> dirtyb t = dirtyb u \<and>
      disk t = replay vs (disk u) \<and> dhist t = dhist u @ vs \<and> benv u t"
    using Cons.prems u(2,4) by (intro Cons.IH) (auto simp: e vs_def)
  then obtain t where "write_log_loop ts u = Ret () t" "idle t" "blk t = replay vs (blk u)" "dirtyb t = dirtyb u"
      "disk t = replay vs (disk u)" "dhist t = dhist u @ vs" "benv u t" by blast
  with u vs benv_trans [OF u(7)] show ?case by auto
qed

lemma install_loop_ok:
  "idle s \<Longrightarrow> layout n s \<Longrightarrow> set ts \<subseteq> {..<n} \<Longrightarrow> dirtyb s \<inter> logreg s = {} \<Longrightarrow> card (dirtyb s) < NBUF \<Longrightarrow>
   (\<forall>i < n. lh_block s ! i \<in> dirtyb s) \<or> card (dirtyb s) + 1 < NBUF \<Longrightarrow>
   ws = map (\<lambda>i. (lh_block s ! i, blk s (lb s i))) ts \<Longrightarrow>
   \<exists>t. install_loop ts s = Ret () t \<and> idle t \<and> blk t = replay ws (blk s) \<and> dirtyb t = dirtyb s - (\<lambda>i. lh_block s ! i) ` set ts \<and>
     disk t = replay ws (disk s) \<and> dhist t = dhist s @ ws \<and> benv s t"
proof (induction ts arbitrary: s ws)
  case Nil
  then show ?case by simp
next
  case (Cons i ts)
  have i: "i < n" using Cons.prems(3) by simp
  note l = layout_lb [OF Cons.prems(2) i]
  let ?y = "lh_block s ! i" and ?d = "blk s (lb s i)"
  have "log_dev s = 1" using Cons.prems(2) by (simp add: layout_def)
  moreover have "lb s i \<notin> dirtyb s" using l(2) Cons.prems(4) by auto
  moreover have yd: "?y \<in> dirtyb s \<or> card (dirtyb s) + 1 < NBUF" using Cons.prems(6) i by blast
  ultimately obtain u where u: "install_step i s = Ret () u" "idle u" "blk u = (blk s)(?y := ?d)" "dirtyb u = dirtyb s - {?y}"
      "disk u = (disk s)(?y := ?d)" "dhist u = dhist s @ [(?y, ?d)]" "benv s u"
    using install_step_ok [OF Cons.prems(1) _ refl refl l(1,4,6)] Cons.prems(5) by auto
  note e = benv_log [OF u(7)] layout_cong [OF u(7)]
  have f: "finite (dirtyb s)" using Cons.prems(1) bcache.dty_law by (auto simp: idle_def)
  have c: "card (dirtyb u) + 1 < NBUF \<or> ?y \<in> dirtyb s \<and> card (dirtyb u) + 1 = card (dirtyb s)"
  proof (cases "?y \<in> dirtyb s")
    case True
    then show ?thesis using f card_Suc_Diff1 [OF f True] u(4) by simp
  next
    case False
    then show ?thesis using yd u(4) by simp
  qed
  define vs where "vs = map (\<lambda>i. (lh_block u ! i, blk u (lb u i))) ts"
  have "blk u (lb s j) = blk s (lb s j)" if "j < n" for j
    using layout_lb(2) [OF Cons.prems(2) that] l(5) u(3) by (metis fun_upd_apply)
  then have vs: "ws = (?y, ?d) # vs" using Cons.prems(3,7) by (auto simp: vs_def e subset_iff)
  have "\<exists>t. install_loop ts u = Ret () t \<and> idle t \<and> blk t = replay vs (blk u) \<and>
      dirtyb t = dirtyb u - (\<lambda>i. lh_block u ! i) ` set ts \<and>
      disk t = replay vs (disk u) \<and> dhist t = dhist u @ vs \<and> benv u t"
    using Cons.prems u(2,4) c by (intro Cons.IH) (auto simp: e vs_def)
  then obtain t where "install_loop ts u = Ret () t" "idle t" "blk t = replay vs (blk u)"
      "dirtyb t = dirtyb u - (\<lambda>i. lh_block u ! i) ` set ts"
      "disk t = replay vs (disk u)" "dhist t = dhist u @ vs" "benv u t" by blast
  with u vs benv_trans [OF u(7)] show ?case by (auto simp: e)
qed

subsection \<open>The header block\<close>

lemma length_fold_put32 [simp]: "length (fold (\<lambda>i. put32 (f i) (v i)) is d) = length d"
  by (induction "is" arbitrary: d) simp_all

lemma length_encode_head [simp]: "length (encode_head n bl d) = length d"
  by (simp add: encode_head_def)

lemma get32_fold_put32_other:
  "(\<And>i. i \<in> set is \<Longrightarrow> k + 4 \<le> off + 4 * i \<or> off + 4 * i + 4 \<le> k) \<Longrightarrow>
   get32 (fold (\<lambda>i. put32 (off + 4 * i) (v i)) is d) k = get32 d k"
proof (induction "is" arbitrary: d)
  case (Cons i "is")
  have "off + 4 * i + 4 \<le> k \<or> k + 4 \<le> off + 4 * i" using Cons.prems [of i] by auto
  then show ?case using Cons by (simp add: get32_put32_other)
qed simp

lemma get32_fold_put32:
  "distinct is \<Longrightarrow> i \<in> set is \<Longrightarrow> off + 4 * i + 3 < length d \<Longrightarrow>
   get32 (fold (\<lambda>i. put32 (off + 4 * i) (v i)) is d) (off + 4 * i) = v i"
proof (induction "is" arbitrary: d)
  case (Cons j "is")
  show ?case
  proof (cases "i = j")
    case True
    then have "k \<noteq> i" if "k \<in> set is" for k using Cons.prems(1) that by auto
    then have "off + 4 * i + 4 \<le> off + 4 * k \<or> off + 4 * k + 4 \<le> off + 4 * i" if "k \<in> set is" for k
      using that nat_neq_iff [of k i] by fastforce
    then show ?thesis using Cons.prems True by (simp add: get32_fold_put32_other)
  qed (use Cons in auto)
qed simp

lemma get32_encode_head:
  assumes "length d = 512" "n \<le> 30"
  shows "get32 (encode_head n bl d) 0 = of_int n" "i < nat n \<Longrightarrow> get32 (encode_head n bl d) (4 + 4 * i) = bl ! i"
  using assms by (simp_all add: encode_head_def get32_fold_put32_other get32_fold_put32)

lemma write_head_ok:
  assumes "idle s" "log_dev s = 1" "log_start s < disksize s" "log_start s \<notin> dirtyb s" "card (dirtyb s) < NBUF"
    and h: "h = encode_head (lh_n s) (lh_block s) (blk s (log_start s))"
  shows "\<exists>t. write_head s = Ret () t \<and> idle t \<and> blk t = (blk s)(log_start s := h) \<and> dirtyb t = dirtyb s \<and>
    disk t = (disk s)(log_start s := h) \<and> dhist t = dhist s @ [(log_start s, h)] \<and> benv s t"
proof -
  let ?x = "log_start s"
  have i: "bio_inv s" "lockd s = (\<lambda>_. None)" using assms(1) by (auto simp: idle_def)
  obtain b u where u: "bread 1 ?x s = Ret b u" "bio_inv u" "lockd u = (\<lambda>_. None)(b \<mapsto> (?x, blk s ?x))"
      "blk u = blk s" "dirtyb u = dirtyb s" "disk u = disk s" "dhist u = dhist s" "benv s u"
    using bcache.brd_law [OF i(1) assms(3)] assms(5) unfolding i(2) ran_none by auto
  have lb: "lockd u b = Some (?x, blk s ?x)" using u(3) by simp
  have dd: "b_data (bufs u b) = blk s ?x" using lockd_props(4) [OF u(2) lb] .
  have h': "length h = 512" using lockd_props(8) [OF u(2) lb] by (simp add: h)
  define v where "v = set_data b h u"
  have v: "bio_inv v" "lockd v = (\<lambda>_. None)(b \<mapsto> (?x, h))" "blk v = (blk s)(?x := h)" "dirtyb v = dirtyb s"
      "disk v = disk s" "dhist v = dhist s" "benv u v"
    using bcache.setd_law [OF u(2) lb h'] u by (simp_all add: v_def)
  have "lockd v b = Some (?x, h)" using v(2) by simp
  from bcache.bwr_law [OF v(1) this] obtain w where w: "bwrite b v = Ret () w" "bio_inv w" "lockd w = lockd v" "blk w = blk v"
      "dirtyb w = dirtyb s" "disk w = (disk s)(?x := h)" "dhist w = dhist s @ [(?x, h)]" "benv v w"
    using v assms(4) by auto
  have "lockd w b = Some (?x, h)" "?x \<in> dirtyb w \<or> disk w ?x = h" using w v by auto
  from bcache.brl_law [OF w(2) this] obtain t where t: "brelse b w = Ret () t" "bio_inv t" "lockd t = (lockd w)(b := None)"
      "blk t = blk w" "dirtyb t = dirtyb w" "disk t = disk w" "dhist t = dhist w" "benv w t" by blast
  have "write_head s = Ret () t"
    using u(1) w(1) t(1) assms(2) benv_log [OF u(8)] by (simp add: write_head_def Let_def v_def dd h)
  moreover have "idle t" using t(2,3) w(3) v(2) by (auto simp: idle_def fun_eq_iff)
  moreover have "benv s t" using u(8) v(7) w(8) t(8) by (meson benv_trans)
  ultimately show ?thesis using t w v by auto
qed

lemma read_head_ok:
  assumes "idle s" "log_dev s = 1" "log_start s < disksize s" "dirtyb s = {}"
    and d: "d = blk s (log_start s)" "n = sint (get32 d 0)" "n \<le> 30"
    and r: "r = s\<lparr>lh_n := n, lh_block := map (\<lambda>i. get32 d (4 + 4 * i)) [0..<nat n] @ drop (nat n) (lh_block s)\<rparr>"
  shows "\<exists>t. read_head s = Ret () t \<and> idle t \<and> blk t = blk s \<and> dirtyb t = {} \<and> disk t = disk s \<and> dhist t = dhist s \<and> benv r t"
proof -
  let ?x = "log_start s"
  have i: "bio_inv s" "lockd s = (\<lambda>_. None)" using assms(1) by (auto simp: idle_def)
  obtain b u where u: "bread 1 ?x s = Ret b u" "bio_inv u" "lockd u = (\<lambda>_. None)(b \<mapsto> (?x, blk s ?x))"
      "blk u = blk s" "dirtyb u = {}" "disk u = disk s" "dhist u = dhist s" "benv s u"
    using bcache.brd_law [OF i(1) assms(3)] assms(4) unfolding i(2) ran_none by auto
  have lb: "lockd u b = Some (?x, blk s ?x)" using u(3) by simp
  have dd: "b_data (bufs u b) = d" using lockd_props(4) [OF u(2) lb] by (simp add: d)
  define v where "v = u\<lparr>lh_n := n, lh_block := map (\<lambda>i. get32 d (4 + 4 * i)) [0..<nat n] @ drop (nat n) (lh_block s)\<rparr>"
  have v: "bio_inv v" "lockd v = lockd u" "blk v = blk s" "dirtyb v = {}" "disk v = disk s" "dhist v = dhist s"
    using u by (simp_all add: v_def)
  have rv: "benv r v" unfolding r v_def by (rule benv_lh(2) [OF u(8)])
  have "lockd v b = Some (?x, blk s ?x)" "?x \<in> dirtyb v \<or> disk v ?x = blk s ?x"
    using lb v bcache.clean_law [OF i(1), of ?x] assms(4) unfolding i(2) by (auto simp: ran_none)
  from bcache.brl_law [OF v(1) this] obtain t where t: "brelse b v = Ret () t" "bio_inv t" "lockd t = (lockd v)(b := None)"
      "blk t = blk v" "dirtyb t = dirtyb v" "disk t = disk v" "dhist t = dhist v" "benv v t" by blast
  have "read_head s = Ret () t"
    using u(1) t(1) assms(2,3) benv_log [OF u(8)] d(3) by (simp add: read_head_def Let_def dd v_def d(2) [symmetric])
  moreover have "idle t" using t(2,3) v(2) u(3) by (auto simp: idle_def fun_eq_iff)
  ultimately show ?thesis using t v benv_trans [OF rv] by auto
qed

subsection \<open>Recovery\<close>

text \<open>Recovery with the count and the block numbers of the header: the logged blocks go to their home.\<close>

lemma recover_ok:
  assumes "idle s" "dirtyb s = {}" "log_dev s = 1" "unat (log_start s) + LOGSIZE \<le> unat (disksize s)"
    and d: "d = disk s (log_start s)" "get32 d 0 = of_nat n" "n < LOGSIZE"
    and hm: "\<And>i. i < n \<Longrightarrow> get32 d (4 + 4 * i) < disksize s \<and> get32 d (4 + 4 * i) \<notin> logreg s"
    and ws: "ws = map (\<lambda>i. (get32 d (4 + 4 * i), disk s (lb s i))) [0..<n]"
  shows "\<exists>t. recover_from_log s = Ret () t \<and> idle t \<and> dirtyb t = {} \<and> (\<forall>b. b \<noteq> log_start s \<longrightarrow> disk t b = replay ws (disk s) b)"
proof -
  have cl: "blk s = disk s"
    using assms(1,2) bcache.clean_law [of s] by (auto simp: idle_def ran_def fun_eq_iff)
  have st: "log_start s < disksize s" using assms(4) by (simp add: word_less_nat_alt)
  have n: "sint (get32 d 0) = int n" using d(2,3) sint_eq_unat [of "of_nat n"] unat_of_nat_u32 [of n] by simp
  define r where "r = s\<lparr>lh_n := int n, lh_block := map (\<lambda>i. get32 d (4 + 4 * i)) [0..<nat (int n)] @ drop (nat (int n)) (lh_block s)\<rparr>"
  obtain t where t: "read_head s = Ret () t" "idle t" "blk t = disk s" "dirtyb t = {}" "disk t = disk s" "benv r t"
    using read_head_ok [OF assms(1,3) st assms(2), of d "int n" r] n d(1,3) cl by (auto simp: r_def)
  have lg: "log_start t = log_start s" "log_dev t = 1" "lh_n t = int n" "disksize t = disksize s" "logreg t = logreg s"
      and b: "\<And>i. i < n \<Longrightarrow> lh_block t ! i = get32 d (4 + 4 * i)"
    using benv_log [OF t(6)] benv_disksize [OF t(6)] assms(3) by (simp_all add: r_def logreg_def nth_append)
  have l: "layout n t" using hm assms(4) d(3) by (simp add: layout_def lg b)
  have ws': "ws = map (\<lambda>i. (lh_block t ! i, blk t (lb t i))) [0..<n]" using b by (simp add: ws lg t(3))
  from install_loop_ok [OF t(2) l _ _ _ _ ws'] t(4) obtain u where u: "install_loop [0..<n] t = Ret () u" "idle u"
      "blk u = replay ws (blk t)" "dirtyb u = {}" "disk u = replay ws (disk t)" "benv t u"
    by (auto simp: atLeast0LessThan)
  define v where "v = u\<lparr>lh_n := 0\<rparr>"
  have v: "idle v" "log_dev v = 1" "log_start v = log_start s" "disksize v = disksize s" "dirtyb v = {}" "disk v = replay ws (disk s)"
    using u t(5) benv_log [OF u(6)] benv_disksize [OF u(6)] lg by (simp_all add: v_def)
  from write_head_ok [OF v(1,2) _ _ _ refl] v st obtain w where w: "write_head v = Ret () w" "idle w" "dirtyb w = {}"
      "disk w = (disk v)(log_start s := encode_head (lh_n v) (lh_block v) (blk v (log_start v)))" by auto
  have "recover_from_log s = Ret () w"
    using t(1) u(1) w(1) by (simp add: recover_from_log_def install_trans_def lg v_def)
  with w v(6) show ?thesis by auto
qed

subsection \<open>Commit\<close>

definition commit_writes :: "'a lstate_scheme \<Rightarrow> nat \<Rightarrow> (u32 \<times> u8 list) list" where
  "commit_writes s n =
     (let h = encode_head (int n) (lh_block s) (disk s (log_start s))
      in map (\<lambda>i. (lb s i, blk s (lh_block s ! i))) [0..<n] @ (log_start s, h) #
         map (\<lambda>i. (lh_block s ! i, blk s (lh_block s ! i))) [0..<n] @ [(log_start s, encode_head 0 (lh_block s) h)])"

lemma log_ws_lookup:
  assumes "n < LOGSIZE" "i < n"
  shows "replay (map (\<lambda>i. (lb s i, f i)) [0..<n]) D (lb s i) = f i"
proof (rule replay_in)
  show "(lb s i, f i) \<in> set (map (\<lambda>i. (lb s i, f i)) [0..<n])" using assms by (auto simp: image_iff)
  fix y assume "(lb s i, y) \<in> set (map (\<lambda>i. (lb s i, f i)) [0..<n])"
  then obtain j where "j < n" "lb s i = lb s j" "y = f j" by auto
  then show "y = f i" using lb_inj [of i j s] assms by simp
qed

lemma commit_ok:
  assumes "idle s" "layout n s" "lh_n s = int n" "0 < n" "dirtyb s = set (take n (lh_block s))" "length (lh_block s) = LOGSIZE"
  shows "\<exists>t. commit s = Ret () t \<and> idle t \<and> dirtyb t = {} \<and> lh_n t = 0 \<and> disk t = replay (commit_writes s n) (disk s) \<and>
    dhist t = dhist s @ commit_writes s n \<and> benv (s\<lparr>lh_n := 0\<rparr>) t"
proof -
  let ?ls = "map (\<lambda>i. (lb s i, blk s (lh_block s ! i))) [0..<n]"
  have n: "n < LOGSIZE" using assms(2) by (simp add: layout_def)
  have dt: "dirtyb s = (\<lambda>i. lh_block s ! i) ` {..<n}"
    using nth_image [of n "lh_block s"] assms(5,6) n by (simp add: atLeast0LessThan)
  have dl: "dirtyb s \<inter> logreg s = {}" using layout_lb(5) [OF assms(2)] by (auto simp: dt)
  have c: "card (dirtyb s) < NBUF"
    using n card_length [of "take n (lh_block s)"] unfolding assms(5) by simp
  have st: "log_start s < disksize s" "log_start s \<notin> dirtyb s" using layout_start [OF assms(2)] dl by auto
  from write_log_loop_ok [OF assms(1,2) _ dl c _ refl, of "[0..<n]"] dt obtain t where t: "write_log_loop [0..<n] s = Ret () t" "idle t"
      "blk t = replay ?ls (blk s)" "dirtyb t = dirtyb s" "disk t = replay ?ls (disk s)" "dhist t = dhist s @ ?ls" "benv s t"
    by (auto simp: atLeast0LessThan)
  note et = benv_log [OF t(7)] benv_disksize [OF t(7)]
  have bt: "blk t (log_start s) = disk s (log_start s)"
    using layout_lb(3) [OF assms(2)] t(3) bcache.clean_law [of s "log_start s"] st(2) assms(1)
    by (subst t(3), subst replay_other) (auto simp: idle_def ran_def)
  define h where "h = encode_head (int n) (lh_block s) (disk s (log_start s))"
  obtain u where u: "write_head t = Ret () u" "idle u" "blk u = (blk t)(log_start s := h)" "dirtyb u = dirtyb s"
      "disk u = (disk t)(log_start s := h)" "dhist u = dhist t @ [(log_start s, h)]" "benv t u"
    using write_head_ok [OF t(2) _ _ _ _ refl] assms(2,3) st c t(4) bt by (auto simp: et layout_def h_def)
  have su: "benv s u" by (rule benv_trans [OF t(7) u(7)])
  note eu = benv_log [OF su] benv_disksize [OF su]
  define xs where "xs = map (\<lambda>i. (lh_block u ! i, blk u (lb u i))) [0..<n]"
  have "blk u (lb s i) = blk s (lh_block s ! i)" if "i < n" for i
    using log_ws_lookup [OF n that] layout_lb(3) [OF assms(2) that] by (simp add: u(3) t(3))
  then have xs: "xs = map (\<lambda>i. (lh_block s ! i, blk s (lh_block s ! i))) [0..<n]" by (simp add: xs_def eu)
  have "layout n u" "dirtyb u \<inter> logreg u = {}" "\<forall>i < n. lh_block u ! i \<in> dirtyb u" "card (dirtyb u) < NBUF"
    using assms(2) dl dt c by (simp_all add: layout_cong [OF su] eu u(4))
  from install_loop_ok [OF u(2) this(1) _ this(2,4) disjI1 [OF this(3)] xs_def] obtain v where
    v: "install_loop [0..<n] u = Ret () v" "idle v" "blk v = replay xs (blk u)" "dirtyb v = {}" "disk v = replay xs (disk u)"
      "dhist v = dhist u @ xs" "benv u v" using dt by (auto simp: u(4) eu atLeast0LessThan)
  have sv: "benv s v" by (rule benv_trans [OF su v(7)])
  define w where "w = v\<lparr>lh_n := 0\<rparr>"
  have bw: "blk w (log_start s) = h"
    using dl st(2) u(3) dt unfolding w_def bio_upd_lh v(3)
    by (subst replay_other) (auto simp: xs)
  obtain r where r: "write_head w = Ret () r" "idle r" "dirtyb r = {}" "disk r = (disk v)(log_start s := encode_head 0 (lh_block s) h)"
      "dhist r = dhist v @ [(log_start s, encode_head 0 (lh_block s) h)]" "benv w r"
    using write_head_ok [OF _ _ _ _ _ refl, of w] v(2,4) assms(2) st bw
    by (auto simp: w_def benv_log [OF sv] benv_disksize [OF sv] layout_def)
  have "commit s = Ret () r" using t(1) u(1) v(1) r(1) assms(3,4)
    by (simp add: commit_def write_log_def install_trans_def eu et w_def)
  moreover have "benv (s\<lparr>lh_n := 0\<rparr>) w" unfolding w_def by (rule benv_lh(1) [OF sv])
  then have sr: "benv (s\<lparr>lh_n := 0\<rparr>) r" by (rule benv_trans [OF _ r(6)])
  ultimately show ?thesis using r v u t benv_log(3) [OF sr] by (simp add: commit_writes_def Let_def h_def xs)
qed

end
