(* ===== verification/Transaction.thy ===== *)
theory Transaction
  imports Log
begin

text \<open>
  Transactions on the log of \<^verbatim>\<open>log.c\<close>. The invariant of an open transaction, the contract of \<^verbatim>\<open>log_write\<close> and
  \<^verbatim>\<open>end_op\<close> that the file system relies on, and crash safety: whatever prefix of the disk writes of a commit
  has happened when the machine stops, recovery leaves every block outside the log as before the
  transaction or every one as after it.
\<close>

subsection \<open>Crashes\<close>

lemma replay_agree:
  "(\<And>m y. (m, y) \<in> set ws \<Longrightarrow> y = v m) \<Longrightarrow> replay ws D b = (if b \<in> fst ` set ws then v b else D b)"
proof (cases "b \<in> fst ` set ws")
  case True
  assume a: "\<And>m y. (m, y) \<in> set ws \<Longrightarrow> y = v m"
  with True have "(b, v b) \<in> set ws" by auto
  then have "replay ws D b = v b" using a by (rule replay_in)
  then show ?thesis using True by simp
qed (simp add: replay_other)

lemma logreg_lb: "n < LOGSIZE \<Longrightarrow> i < n \<Longrightarrow> lb s i \<in> logreg s"
  unfolding logreg_def by (rule CollectI, rule exI [of _ "Suc i"]) simp

text \<open>
  A state as after a restart, whose disk holds a count of zero: recovery changes nothing outside the log.
\<close>

lemma recover_empty:
  assumes "idle r" "dirtyb r = {}" "log_dev r = 1" "unat (log_start r) + LOGSIZE \<le> unat (disksize r)"
    and "get32 (disk r (log_start r)) 0 = 0"
  shows "\<exists>t. recover_from_log r = Ret () t \<and> (\<forall>b. b \<noteq> log_start r \<longrightarrow> disk t b = disk r b)"
  using recover_ok [OF assms(1-4) refl, of 0 "[]"] assms(5) by auto

text \<open>A restart after the header has been written: recovery installs all the blocks of the transaction.\<close>

lemma recover_committed:
  assumes "idle r" "dirtyb r = {}" "log_dev r = 1" "layout n s" "disksize r = disksize s" "log_start r = log_start s"
    and h: "disk r (log_start s) = encode_head (int n) (lh_block s) d" "length d = 512"
    and lg: "\<And>i. i < n \<Longrightarrow> disk r (lb s i) = blk s (lh_block s ! i)"
    and hm: "\<And>b. b \<notin> logreg s \<Longrightarrow> b \<notin> (\<lambda>i. lh_block s ! i) ` {..<n} \<Longrightarrow> disk r b = blk s b"
  shows "\<exists>t. recover_from_log r = Ret () t \<and> (\<forall>b. b \<notin> logreg s \<longrightarrow> disk t b = blk s b)"
proof -
  let ?d = "disk r (log_start r)"
  define ws where "ws = map (\<lambda>i. (get32 ?d (4 + 4 * i), disk r (lb r i))) [0..<n]"
  have n: "n < LOGSIZE" "unat (log_start r) + LOGSIZE \<le> unat (disksize r)" using assms(4-6) by (auto simp: layout_def)
  have reg: "logreg r = logreg s" by (simp add: logreg_def assms(6))
  have g: "get32 ?d 0 = of_nat n" "\<And>i. i < n \<Longrightarrow> get32 ?d (4 + 4 * i) = lh_block s ! i"
    using get32_encode_head [OF h(2), of "int n"] n(1) by (simp_all add: h(1) assms(6))
  have "get32 ?d (4 + 4 * i) < disksize r \<and> get32 ?d (4 + 4 * i) \<notin> logreg r" if "i < n" for i
    using that layout_lb(4,5) [OF assms(4)] by (simp add: g(2) assms(5) reg)
  from recover_ok [OF assms(1-3) n(2) refl g(1) n(1) this ws_def] obtain t where
    t: "recover_from_log r = Ret () t" "\<And>b. b \<noteq> log_start s \<Longrightarrow> disk t b = replay ws (disk r) b" by (auto simp: assms(6))
  have ws': "ws = map (\<lambda>i. (lh_block s ! i, blk s (lh_block s ! i))) [0..<n]" using g(2) by (simp add: ws_def lg assms(6))
  have "disk t b = blk s b" if "b \<notin> logreg s" for b
  proof -
    have "b \<noteq> log_start s" using layout_start [OF assms(4)] that by auto
    then have "disk t b = replay ws (disk r) b" by (rule t(2))
    also have "\<dots> = (if b \<in> fst ` set ws then blk s b else disk r b)" by (rule replay_agree) (auto simp: ws')
    finally have "disk t b = (if b \<in> fst ` set ws then blk s b else disk r b)" .
    moreover have "fst ` set ws = (\<lambda>i. lh_block s ! i) ` {..<n}" by (simp add: ws' image_image atLeast0LessThan)
    ultimately show ?thesis using hm that by auto
  qed
  with t(1) show ?thesis by blast
qed

text \<open>
  The disk after a prefix of the writes of a commit, in the three cases: before the header is written,
  after that, and after the header has been cleared.
\<close>

lemma crash_prefix:
  fixes s :: "'a lstate_scheme"
  assumes "layout n s" "bio_inv s" "D = replay (take k (commit_writes s n)) (disk s)" "length (disk s (log_start s)) = 512"
    and "\<And>b. b \<notin> (\<lambda>i. lh_block s ! i) ` {..<n} \<Longrightarrow> disk s b = blk s b"
  defines "h \<equiv> encode_head (int n) (lh_block s) (disk s (log_start s))"
  shows "k \<le> n \<Longrightarrow> D (log_start s) = disk s (log_start s) \<and> (\<forall>b. b \<notin> logreg s \<longrightarrow> D b = disk s b)"
    "n < k \<Longrightarrow> k \<le> 2 * n + 1 \<Longrightarrow> D (log_start s) = h \<and> (\<forall>i < n. D (lb s i) = blk s (lh_block s ! i)) \<and>
       (\<forall>b. b \<notin> logreg s \<longrightarrow> b \<notin> (\<lambda>i. lh_block s ! i) ` {..<n} \<longrightarrow> D b = blk s b)"
    "2 * n + 1 < k \<Longrightarrow> get32 (D (log_start s)) 0 = 0 \<and> (\<forall>b. b \<notin> logreg s \<longrightarrow> D b = blk s b)"
proof -
  let ?ls = "map (\<lambda>i. (lb s i, blk s (lh_block s ! i))) [0..<n]" and ?hs = "map (\<lambda>i. (lh_block s ! i, blk s (lh_block s ! i))) [0..<n]"
  let ?h0 = "encode_head 0 (lh_block s) h"
  have n: "n < LOGSIZE" using assms(1) by (simp add: layout_def)
  have st: "log_start s \<in> logreg s" using layout_start [OF assms(1)] by blast
  have ws: "commit_writes s n = ?ls @ (log_start s, h) # ?hs @ [(log_start s, ?h0)]" by (simp add: commit_writes_def h_def Let_def)
  have home: "fst ` set (take j ?hs) \<inter> logreg s = {}" for j
    using layout_lb(5) [OF assms(1)] by (fastforce dest: in_set_takeD)
  have logs: "fst ` set (take j ?ls) \<subseteq> logreg s - {log_start s}" for j
    using layout_lb(2,3) [OF assms(1)] by (fastforce dest: in_set_takeD)
  have E: "replay ?ls (disk s) b = disk s b" if "b \<notin> logreg s" for b
    using logs [of n] that by (intro replay_other) auto
  have H: "replay (take j ?hs) E' b = (if b \<in> fst ` set (take j ?hs) then blk s b else E' b)" for j E' b
    by (rule replay_agree) (auto dest: in_set_takeD)
  show "D (log_start s) = disk s (log_start s) \<and> (\<forall>b. b \<notin> logreg s \<longrightarrow> D b = disk s b)" if "k \<le> n"
  proof -
    have "D = replay (take k ?ls) (disk s)" using that by (simp add: assms(3) ws)
    then show ?thesis using logs [of k] replay_other [of _ "take k ?ls" "disk s"] by blast
  qed
  show "D (log_start s) = h \<and> (\<forall>i < n. D (lb s i) = blk s (lh_block s ! i)) \<and>
       (\<forall>b. b \<notin> logreg s \<longrightarrow> b \<notin> (\<lambda>i. lh_block s ! i) ` {..<n} \<longrightarrow> D b = blk s b)" if "n < k" "k \<le> 2 * n + 1"
  proof -
    define j where "j = k - Suc n"
    have k: "k = n + Suc j" "j \<le> n" using that by (simp_all add: j_def)
    have D: "D = replay (take j ?hs) ((replay ?ls (disk s))(log_start s := h))"
      using k(2) by (simp add: assms(3) ws k(1))
    have "D (lb s i) = blk s (lh_block s ! i)" if "i < n" for i
      using log_ws_lookup [OF n that] layout_lb(2,3) [OF assms(1) that] home [of j] unfolding D
      by (subst replay_other) auto
    moreover have "D (log_start s) = h" using home [of j] st unfolding D by (subst replay_other) auto
    moreover have "D b = blk s b" if "b \<notin> logreg s" "b \<notin> (\<lambda>i. lh_block s ! i) ` {..<n}" for b
      using E [OF that(1)] assms(5) [OF that(2)] that(1) st unfolding D H by auto
    ultimately show ?thesis by blast
  qed
  show "get32 (D (log_start s)) 0 = 0 \<and> (\<forall>b. b \<notin> logreg s \<longrightarrow> D b = blk s b)" if "2 * n + 1 < k"
  proof -
    have D: "D = (replay (take n ?hs) ((replay ?ls (disk s))(log_start s := h)))(log_start s := ?h0)"
      using that by (simp add: assms(3) ws)
    have f: "fst ` set (take n ?hs) = (\<lambda>i. lh_block s ! i) ` {..<n}" by (simp add: image_image atLeast0LessThan)
    have "get32 ?h0 0 = 0" using get32_encode_head(1) [of h 0] assms(4) by (simp add: h_def)
    moreover have "D b = blk s b" if "b \<notin> logreg s" for b
      using E [OF that] assms(5) [of b] that st unfolding D H f by auto
    ultimately show ?thesis by (simp add: D)
  qed
qed

text \<open>
  C2: a commit writes the blocks of the transaction to their home places. If the machine stops after
  any number \<open>k\<close> of its disk writes, recovery from the disk as it is then leaves every block outside the
  log as it was before the commit, when the header had not been written, and as the transaction wrote
  it otherwise.
\<close>

theorem commit_crash_safe:
  fixes s :: "'a lstate_scheme"
  assumes "idle s" "layout n s" "lh_n s = int n" "0 < n" "dirtyb s = set (take n (lh_block s))" "length (lh_block s) = LOGSIZE"
    and z: "get32 (disk s (log_start s)) 0 = 0"
  shows "\<exists>t ws. commit s = Ret () t \<and> dhist t = dhist s @ ws \<and> disk t = replay ws (disk s) \<and> length ws = 2 * n + 2 \<and> lh_n t = 0 \<and>
    (\<forall>b. b \<notin> logreg s \<longrightarrow> disk t b = blk s b) \<and>
    (\<forall>(r :: 'a lstate_scheme) k. idle r \<and> dirtyb r = {} \<and> disk r = replay (take k ws) (disk s) \<and> disksize r = disksize s \<and>
       log_start r = log_start s \<and> log_dev r = 1 \<longrightarrow>
       (\<exists>r'. recover_from_log r = Ret () r' \<and> (\<forall>b. b \<notin> logreg s \<longrightarrow> disk r' b = (if k \<le> n then disk s b else blk s b))))"
proof -
  let ?ws = "commit_writes s n" and ?H = "(\<lambda>i. lh_block s ! i) ` {..<n}"
  have n: "n < LOGSIZE" "unat (log_start s) + LOGSIZE \<le> unat (disksize s)" using assms(2) by (auto simp: layout_def)
  have i: "bio_inv s" using assms(1) by (simp add: idle_def)
  have len: "length (disk s (log_start s)) = 512" using bio_invD(4) [OF i] layout_start [OF assms(2)] by blast
  have dt: "dirtyb s = ?H" using nth_image [of n "lh_block s"] assms(5,6) n by (simp add: atLeast0LessThan)
  have cl: "disk s b = blk s b" if "b \<notin> ?H" for b
    using that dt assms(1) bcache.clean_law [OF i, of b] by (simp add: idle_def ran_def)
  obtain t where t: "commit s = Ret () t" "lh_n t = 0" "disk t = replay ?ws (disk s)" "dhist t = dhist s @ ?ws"
    using commit_ok [OF assms(1-6)] by blast
  have lw: "length ?ws = 2 * n + 2" by (simp add: commit_writes_def Let_def)
  have "disk t b = blk s b" if "b \<notin> logreg s" for b
    using crash_prefix(3) [OF assms(2) i refl len cl, of "2 * n + 2"] that by (simp add: t(3) lw)
  moreover have "\<exists>r'. recover_from_log r = Ret () r' \<and> (\<forall>b. b \<notin> logreg s \<longrightarrow> disk r' b = (if k \<le> n then disk s b else blk s b))"
    if r: "idle r" "dirtyb r = {}" "disk r = replay (take k ?ws) (disk s)" "disksize r = disksize s" "log_start r = log_start s" "log_dev r = 1"
    for r :: "'a lstate_scheme" and k
  proof -
    note c = crash_prefix [OF assms(2) i r(3) len cl]
    have nl: "unat (log_start r) + LOGSIZE \<le> unat (disksize r)" using n(2) r by simp
    have st: "b \<notin> logreg s \<Longrightarrow> b \<noteq> log_start r" for b using layout_start [OF assms(2)] r(5) by auto
    consider "k \<le> n" | "n < k" "k \<le> 2 * n + 1" | "2 * n + 1 < k" by linarith
    then show ?thesis
    proof cases
      case 1
      then show ?thesis using c(1) recover_empty [OF r(1,2,6) nl] z st by (auto simp: r(5))
    next
      case 2
      then show ?thesis using c(2) recover_committed [OF r(1,2,6) assms(2) r(4,5) _ len] by auto
    next
      case 3
      then show ?thesis using c(3) recover_empty [OF r(1,2,6) nl] st by (auto simp: r(5))
    qed
  qed
  ultimately show ?thesis using t lw by blast
qed

subsection \<open>The invariant of a transaction\<close>

definition log_ok :: "'a lstate_scheme \<Rightarrow> bool" where
  "log_ok s \<longleftrightarrow> bio_inv s \<and> 0 \<le> lh_n s \<and> layout (nat (lh_n s)) s \<and> length (lh_block s) = LOGSIZE \<and> log_size s = int LOGSIZE \<and>
     dirtyb s = set (take (nat (lh_n s)) (lh_block s)) \<and> get32 (disk s (log_start s)) 0 = 0"

text \<open>The rest of the state is the same, up to the log header.\<close>

definition lenv :: "'a lstate_scheme \<Rightarrow> 'a lstate_scheme \<Rightarrow> bool" where
  "lenv s t \<longleftrightarrow> (\<exists>n bl. benv (s\<lparr>lh_n := n, lh_block := bl\<rparr>) t)"

lemma benv_lenv: "benv s t \<Longrightarrow> lenv s t"
  unfolding lenv_def by (rule exI [of _ "lh_n s"], rule exI [of _ "lh_block s"]) simp

lemma lenv_refl [simp]: "lenv s s"
  by (rule benv_lenv) simp

lemma lenv_trans: "lenv s t \<Longrightarrow> lenv t u \<Longrightarrow> lenv s u"
proof -
  assume "lenv s t" "lenv t u"
  then obtain n bl m bm where a: "benv (s\<lparr>lh_n := n, lh_block := bl\<rparr>) t" "benv (t\<lparr>lh_n := m, lh_block := bm\<rparr>) u"
    by (auto simp: lenv_def)
  from benv_lh(2) [OF a(1), where n = m and bl = bm] have "benv (s\<lparr>lh_n := m, lh_block := bm\<rparr>) (t\<lparr>lh_n := m, lh_block := bm\<rparr>)" by simp
  from benv_trans [OF this a(2)] show ?thesis unfolding lenv_def by blast
qed

lemma lenv_log:
  assumes "lenv s t"
  shows "log_start t = log_start s" "log_dev t = log_dev s" "log_size t = log_size s" "log_outstanding t = log_outstanding s"
    "log_committing t = log_committing s" "disksize t = disksize s" "logreg t = logreg s"
proof -
  obtain n bl where "benv (s\<lparr>lh_n := n, lh_block := bl\<rparr>) t" using assms by (auto simp: lenv_def)
  from benv_log [OF this] benv_disksize [OF this]
  show "log_start t = log_start s" "log_dev t = log_dev s" "log_size t = log_size s" "log_outstanding t = log_outstanding s"
    "log_committing t = log_committing s" "disksize t = disksize s" "logreg t = logreg s"
    by (simp_all add: logreg_def)
qed

lemma log_okD:
  assumes "log_ok s"
  shows "bio_inv s" "kern_ok s" "0 \<le> lh_n s" "layout (nat (lh_n s)) s" "length (lh_block s) = LOGSIZE" "log_size s = 30"
    "dirtyb s = set (take (nat (lh_n s)) (lh_block s))" "log_dev s = 1" "lh_n s < 30" "dirtyb s \<inter> logreg s = {}"
proof -
  show i: "bio_inv s" "0 \<le> lh_n s" "layout (nat (lh_n s)) s" "length (lh_block s) = LOGSIZE" "log_size s = 30"
    and d: "dirtyb s = set (take (nat (lh_n s)) (lh_block s))" using assms by (auto simp: log_ok_def)
  then show "kern_ok s" by (simp add: bio_inv_def)
  show l: "log_dev s = 1" "lh_n s < 30" using i(2,3) by (auto simp: layout_def)
  show "dirtyb s \<inter> logreg s = {}" using i(3,4) l unfolding d by (auto simp: layout_def in_set_conv_nth)
qed

lemma log_ok_card: "log_ok s \<Longrightarrow> card (dirtyb s) \<le> nat (lh_n s)"
  using card_length [of "take (nat (lh_n s)) (lh_block s)"] log_okD(3,5,7,9) [of s] by simp

text \<open>An operation on the cache that changes neither the disk nor the pinned blocks.\<close>

lemma log_ok_same: "log_ok s \<Longrightarrow> bio_inv t \<Longrightarrow> dirtyb t = dirtyb s \<Longrightarrow> disk t = disk s \<Longrightarrow> benv s t \<Longrightarrow> log_ok t"
  using benv_log [of s t] layout_cong [of s t] by (simp add: log_ok_def)

subsection \<open>log_write\<close>

lemma log_slot_cases:
  assumes "log_ok s"
  shows "int (log_slot n s) < lh_n s \<and> lh_block s ! log_slot n s = n \<and> n \<in> dirtyb s \<or> int (log_slot n s) = lh_n s \<and> n \<notin> dirtyb s"
proof -
  let ?xs = "take (nat (lh_n s)) (lh_block s)"
  note d = log_okD [OF assms]
  have l: "length ?xs = nat (lh_n s)" using d(3,5,9) by simp
  show ?thesis
  proof (cases "n \<in> dirtyb s")
    case True
    then have e: "\<exists>x \<in> set ?xs. \<not> x \<noteq> n" using d(7) by auto
    then have "takeWhile (\<lambda>x. x \<noteq> n) ?xs \<noteq> ?xs" by (simp add: takeWhile_eq_all_conv)
    then have "log_slot n s \<noteq> length ?xs"
      using takeWhile_eq_take [of "\<lambda>x. x \<noteq> n" ?xs] unfolding log_slot_def by (metis take_all order_refl)
    then have "log_slot n s < length ?xs"
      using length_takeWhile_le [of "\<lambda>x. x \<noteq> n" ?xs] unfolding log_slot_def by linarith
    moreover have "?xs ! log_slot n s = n"
      using calculation nth_length_takeWhile [of "\<lambda>x. x \<noteq> n" ?xs] by (simp add: log_slot_def)
    ultimately show ?thesis using True d(3) by (simp add: zless_nat_eq_int_zless)
  next
    case False
    then have "takeWhile (\<lambda>x. x \<noteq> n) ?xs = ?xs" using d(7) by (auto simp: takeWhile_eq_all_conv)
    then have "log_slot n s = nat (lh_n s)" using l unfolding log_slot_def by metis
    then show ?thesis using False d(3) by simp
  qed
qed

definition log_add :: "u32 \<Rightarrow> 'a lstate_scheme \<Rightarrow> 'a lstate_scheme" where
  "log_add n s = (if n \<in> dirtyb s then s else s\<lparr>lh_block := (lh_block s)[nat (lh_n s) := n], lh_n := lh_n s + 1\<rparr>)"

lemma acquired_log [simp]:
  "lh_n (acquired s lk) = lh_n s" "lh_block (acquired s lk) = lh_block s" "log_size (acquired s lk) = log_size s"
  "log_outstanding (acquired s lk) = log_outstanding s" "log_committing (acquired s lk) = log_committing s"
  "acquired s lk\<lparr>lh_n := m\<rparr> = acquired (s\<lparr>lh_n := m\<rparr>) lk" "acquired s lk\<lparr>lh_block := bl\<rparr> = acquired (s\<lparr>lh_block := bl\<rparr>) lk"
  "acquired s lk\<lparr>log_outstanding := i\<rparr> = acquired (s\<lparr>log_outstanding := i\<rparr>) lk"
  "acquired s lk\<lparr>log_committing := c\<rparr> = acquired (s\<lparr>log_committing := c\<rparr>) lk"
  by (simp_all add: acquired_def)

lemma log_write_eq:
  assumes "log_ok s" "lockd s b = Some (n, d)" "lh_n s < 29" "0 < log_outstanding s"
  shows "log_write b s = Ret () (pin_buf b (log_add n s))"
proof -
  note d = log_okD [OF assms(1)] and l = lockd_props [OF log_okD(1) [OF assms(1)] assms(2)]
  note k = kern_okD [OF d(2)]
  have sl: "log_slot n (acquired s LOGLOCK) = log_slot n s" by (simp add: log_slot_def)
  have kk: "cpu_ok (pin_buf b (log_add n s))" "lock_free (locks (pin_buf b (log_add n s)) LOGLOCK)"
    using k by (simp_all add: log_add_def pin_buf_def upd_buf_def cpu_ok_def)
  have r: "release LOGLOCK (pin_buf b (acquired (log_add n s) LOGLOCK)) = Ret () (pin_buf b (log_add n s))"
    using release_acquired [OF kk] by (simp add: pin_buf_def upd_buf_acquired)
  from log_slot_cases [OF assms(1), of n] show ?thesis
  proof
    assume h: "int (log_slot n s) < lh_n s \<and> lh_block s ! log_slot n s = n \<and> n \<in> dirtyb s"
    then have "(lh_block s)[log_slot n s := n] = lh_block s" using list_update_id [of "lh_block s" "log_slot n s"] by simp
    then show ?thesis using h r assms(3,4) d(6) k l(3)
      by (simp add: log_write_def acquire_ok Let_def sl log_add_def)
  next
    assume h: "int (log_slot n s) = lh_n s \<and> n \<notin> dirtyb s"
    then have "log_slot n s = nat (lh_n s)" by (metis nat_int)
    then show ?thesis using h r assms(3,4) d(3,6) k l(3)
      by (simp add: log_write_def acquire_ok Let_def sl log_add_def)
  qed
qed


text \<open>
  Contract of \<^verbatim>\<open>log_write\<close> for a buffer in use: the block is pinned and belongs to the transaction.
\<close>

lemma log_write_law:
  assumes "log_ok s" "lockd s b = Some (n, d)" "n \<notin> logreg s" "lh_n s < 29" "0 < log_outstanding s"
  shows "\<exists>t. log_write b s = Ret () t \<and> log_ok t \<and> lockd t = lockd s \<and> blk t = blk s \<and> dirtyb t = insert n (dirtyb s) \<and>
    disk t = disk s \<and> dhist t = dhist s \<and> lh_n t \<le> lh_n s + 1 \<and> lenv s t"
proof -
  note d = log_okD [OF assms(1)] and l = lockd_props [OF log_okD(1) [OF assms(1)] assms(2)]
  define u where "u = log_add n s"
  have u: "bio_inv u" "lockd u = lockd s" "blk u = blk s" "dirtyb u = dirtyb s" "disk u = disk s" "dhist u = dhist s"
    using d(1) by (simp_all add: u_def log_add_def)
  have "lockd u b = Some (n, d)" using u(2) assms(2) by simp
  from bcache.pin_law [OF u(1) this] have p: "bio_inv (pin_buf b u)" "lockd (pin_buf b u) = lockd s" "blk (pin_buf b u) = blk s"
      "dirtyb (pin_buf b u) = insert n (dirtyb s)" "disk (pin_buf b u) = disk s" "dhist (pin_buf b u) = dhist s" "benv u (pin_buf b u)"
    using u by simp_all
  note e = benv_log [OF p(7)]
  define m where "m = nat (lh_n s)"
  have m: "lh_n s = int m" "m < 29" using d(3) assms(4) by (simp_all add: m_def)
  have t: "log_ok (pin_buf b u)"
  proof (cases "n \<in> dirtyb s")
    case True
    then have "u = s" by (simp add: u_def log_add_def)
    then show ?thesis using p True by (intro log_ok_same [OF assms(1)]) auto
  next
    case False
    then have f: "lh_n u = int (Suc m)" "lh_block u = (lh_block s)[m := n]" "log_start u = log_start s" "log_size u = log_size s"
        "log_dev u = log_dev s" "disksize u = disksize s" "logreg u = logreg s"
      by (simp_all add: u_def log_add_def m logreg_def)
    have "take (Suc m) (lh_block u) = take m (lh_block s) @ [n]" using m(2) d(5) by (simp add: f take_Suc_conv_app_nth)
    then have "insert n (dirtyb s) = set (take (Suc m) (lh_block u))" using d(7) by (auto simp: m)
    moreover have "layout (Suc m) u"
      using d(4,5,8) m(2) assms(3) l(7) by (auto simp: layout_def f m(1) nth_list_update less_Suc_eq)
    moreover have "nat (1 + int m) = Suc m" by simp
    ultimately show ?thesis using assms(1) p e layout_cong [OF p(7)] by (simp add: log_ok_def f)
  qed
  moreover have "u = s\<lparr>lh_n := lh_n u, lh_block := lh_block u\<rparr>" by (simp add: u_def log_add_def)
  then have "lenv s u" unfolding lenv_def by (metis benv_refl)
  then have "lenv s (pin_buf b u)" using benv_lenv [OF p(7)] by (rule lenv_trans)
  moreover have "lh_n u \<le> lh_n s + 1" by (simp add: u_def log_add_def)
  ultimately show ?thesis using log_write_eq [OF assms(1,2,4,5)] p e(3) by (simp add: u_def)
qed

subsection \<open>Steps of a transaction\<close>

text \<open>
  The state of a transaction with room for \<open>k\<close> more block writes and at most one buffer in use, and the
  effect of steps that write at most \<open>m\<close> blocks.
\<close>

definition ready :: "nat \<Rightarrow> 'a lstate_scheme \<Rightarrow> bool" where
  "ready k s \<longleftrightarrow> log_ok s \<and> lh_n s + int k \<le> 28 \<and> (0 < k \<longrightarrow> 0 < log_outstanding s) \<and> card (fst ` ran (lockd s)) \<le> 1"

definition txn :: "nat \<Rightarrow> 'a lstate_scheme \<Rightarrow> 'a lstate_scheme \<Rightarrow> bool" where
  "txn m s t \<longleftrightarrow> log_ok t \<and> lockd t = lockd s \<and> disk t = disk s \<and> dirtyb s \<subseteq> dirtyb t \<and> lh_n t \<le> lh_n s + int m \<and> lenv s t"

lemma txn_refl: "log_ok s \<Longrightarrow> txn 0 s s"
  by (simp add: txn_def)

lemma txn_trans: "txn m s t \<Longrightarrow> txn k t u \<Longrightarrow> txn (m + k) s u"
  using lenv_trans [of s t u] by (auto simp: txn_def)

lemma txn_mono: "txn m s t \<Longrightarrow> m \<le> k \<Longrightarrow> txn k s t"
  by (auto simp: txn_def)

lemma txn_ready: "txn m s t \<Longrightarrow> ready (m + k) s \<Longrightarrow> ready k t"
  using lenv_log(4) [of s t] by (simp add: txn_def ready_def)

lemma ready_mono: "ready k s \<Longrightarrow> m \<le> k \<Longrightarrow> ready m s"
  by (simp add: ready_def)

lemma finite_lockd: "finite (fst ` ran (lockd s))"
proof -
  have "dom (lockd s) \<subseteq> {..<NBUF}" by (auto simp: lockd_def split: if_splits)
  then have "finite (dom (lockd s))" using finite_subset by blast
  then show ?thesis using finite_ran by blast
qed

lemma ready_room:
  assumes "ready k s"
  shows "card (dirtyb s \<union> fst ` ran (lockd s)) < NBUF"
proof -
  have l: "log_ok s" "lh_n s \<le> 28" "card (fst ` ran (lockd s)) \<le> 1" using assms by (auto simp: ready_def)
  have "card (dirtyb s) \<le> 28" using log_ok_card [OF l(1)] l(2) by simp
  with l(3) card_Un_le [of "dirtyb s" "fst ` ran (lockd s)"] show ?thesis by simp
qed

lemma ready_bread:
  assumes "ready k s" "n < disksize s" "n \<notin> fst ` ran (lockd s)"
  shows "\<exists>b u. bread 1 n s = Ret b u \<and> log_ok u \<and> b_data (bufs u b) = blk s n \<and> lockd s b = None \<and>
    lockd u = (lockd s)(b \<mapsto> (n, blk s n)) \<and> blk u = blk s \<and> dirtyb u = dirtyb s \<and> disk u = disk s \<and> dhist u = dhist s \<and> benv s u"
proof -
  have l: "log_ok s" using assms(1) by (simp add: ready_def)
  from bcache.brd_law [OF log_okD(1) [OF l] assms(2,3)] ready_room [OF assms(1)] obtain b u where
    u: "bread 1 n s = Ret b u" "bio_inv u" "lockd s b = None" "lockd u = (lockd s)(b \<mapsto> (n, blk s n))" "blk u = blk s"
      "dirtyb u = dirtyb s" "disk u = disk s" "dhist u = dhist s" "benv s u" by blast
  have "b_data (bufs u b) = blk s n" using lockd_props(4) [OF u(2), of b n "blk s n"] u(4) by simp
  with u log_ok_same [OF l u(2,6,7,9)] show ?thesis by blast
qed

lemma ready_brelse:
  assumes "log_ok s" "lockd s b = Some (n, d)" "n \<in> dirtyb s \<or> disk s n = d"
  shows "\<exists>t. brelse b s = Ret () t \<and> log_ok t \<and> lockd t = (lockd s)(b := None) \<and> blk t = blk s \<and> dirtyb t = dirtyb s \<and>
    disk t = disk s \<and> dhist t = dhist s \<and> benv s t"
  using bcache.brl_law [OF log_okD(1) [OF assms(1)] assms(2,3)] log_ok_same [OF assms(1)] by blast

lemma blk_disk: "log_ok s \<Longrightarrow> n \<notin> fst ` ran (lockd s) \<Longrightarrow> n \<in> dirtyb s \<or> disk s n = blk s n"
  using bcache.clean_law [OF log_okD(1)] by metis

text \<open>Reading a block: \<^verbatim>\<open>bread\<close> and \<^verbatim>\<open>brelse\<close>.\<close>

lemma read_block:
  assumes "ready k s" "n < disksize s" "n \<notin> fst ` ran (lockd s)"
  shows "\<exists>b u t. bread 1 n s = Ret b u \<and> b_data (bufs u b) = blk s n \<and> benv s u \<and> brelse b u = Ret () t \<and>
    txn 0 s t \<and> blk t = blk s \<and> benv s t"
proof -
  have l: "log_ok s" using assms(1) by (simp add: ready_def)
  obtain b u where u: "bread 1 n s = Ret b u" "log_ok u" "b_data (bufs u b) = blk s n" "lockd s b = None"
    "lockd u = (lockd s)(b \<mapsto> (n, blk s n))" "blk u = blk s" "dirtyb u = dirtyb s" "disk u = disk s" "benv s u"
    using ready_bread [OF assms] by blast
  have "lockd u b = Some (n, blk s n)" "n \<in> dirtyb u \<or> disk u n = blk s n" using u blk_disk [OF l assms(3)] by auto
  from ready_brelse [OF u(2) this] obtain t where t: "brelse b u = Ret () t" "log_ok t" "lockd t = (lockd u)(b := None)"
      "blk t = blk u" "dirtyb t = dirtyb u" "disk t = disk u" "benv u t" by blast
  have "benv s t" by (rule benv_trans [OF u(9) t(7)])
  moreover have "lockd t = lockd s" using t(3) u(4,5) by auto
  ultimately have "txn 0 s t" using t u benv_log(3) [of s t] by (simp add: txn_def benv_lenv)
  with \<open>benv s t\<close> u t show ?thesis by auto
qed

text \<open>Writing a buffer in use: a change of the data, \<^verbatim>\<open>log_write\<close> and \<^verbatim>\<open>brelse\<close>.\<close>

lemma write_locked:
  assumes "log_ok u" "lockd u b = Some (n, e)" "n \<notin> logreg u" "lh_n u < 29" "0 < log_outstanding u" "length d = 512"
  shows "\<exists>v t. log_write b (set_data b d u) = Ret () v \<and> brelse b v = Ret () t \<and> log_ok t \<and> lockd t = (lockd u)(b := None) \<and>
    blk t = (blk u)(n := d) \<and> disk t = disk u \<and> dirtyb t = insert n (dirtyb u) \<and> lh_n t \<le> lh_n u + 1 \<and> lenv u v \<and> lenv u t"
proof -
  from bcache.setd_law [OF log_okD(1) [OF assms(1)] assms(2,6)] have w: "bio_inv (set_data b d u)"
      "lockd (set_data b d u) = (lockd u)(b \<mapsto> (n, d))" "blk (set_data b d u) = (blk u)(n := d)" "dirtyb (set_data b d u) = dirtyb u"
      "disk (set_data b d u) = disk u" "benv u (set_data b d u)" by auto
  note w0 = log_ok_same [OF assms(1) w(1,4,5,6)]
  have x: "lockd (set_data b d u) b = Some (n, d)" using w(2) by simp
  have y: "n \<notin> logreg (set_data b d u)" "lh_n (set_data b d u) < 29" "0 < log_outstanding (set_data b d u)"
    using assms(3-5) benv_log [OF w(6)] layout_cong [OF w(6)] by simp_all
  obtain v where v: "log_write b (set_data b d u) = Ret () v" "log_ok v" "lockd v = lockd (set_data b d u)"
      "blk v = blk (set_data b d u)" "dirtyb v = insert n (dirtyb u)" "disk v = disk u" "lh_n v \<le> lh_n u + 1" "lenv (set_data b d u) v"
    using log_write_law [OF w0 x y] w(4,5) benv_log(3) [OF w(6)] by auto
  have "lockd v b = Some (n, d)" "n \<in> dirtyb v \<or> disk v n = d" using v w by auto
  from ready_brelse [OF v(2) this] obtain t where t: "brelse b v = Ret () t" "log_ok t" "lockd t = (lockd v)(b := None)"
      "blk t = blk v" "dirtyb t = dirtyb v" "disk t = disk v" "benv v t" by blast
  have uv: "lenv u v" by (rule lenv_trans [OF benv_lenv [OF w(6)] v(8)])
  have "lockd t = (lockd u)(b := None)" using t(3) v(3) w(2) by auto
  with uv t v w(3) benv_log(3) [OF t(7)] lenv_trans [OF uv benv_lenv [OF t(7)]] show ?thesis by auto
qed

text \<open>Changing a block: \<^verbatim>\<open>bread\<close> and then the same.\<close>

lemma update_block:
  assumes "ready (Suc k) s" "n < disksize s" "n \<notin> fst ` ran (lockd s)" "n \<notin> logreg s" "length d = 512"
  shows "\<exists>b u v t. bread 1 n s = Ret b u \<and> b_data (bufs u b) = blk s n \<and> benv s u \<and>
    log_write b (set_data b d u) = Ret () v \<and> brelse b v = Ret () t \<and> txn 1 s t \<and> blk t = (blk s)(n := d) \<and> lenv s v"
proof -
  have l: "log_ok s" "0 < log_outstanding s" "lh_n s < 29" using assms(1) by (auto simp: ready_def)
  obtain b u where u: "bread 1 n s = Ret b u" "log_ok u" "b_data (bufs u b) = blk s n" "lockd s b = None"
    "lockd u = (lockd s)(b \<mapsto> (n, blk s n))" "blk u = blk s" "dirtyb u = dirtyb s" "disk u = disk s" "benv s u"
    using ready_bread [OF assms(1-3)] by blast
  have "lockd u b = Some (n, blk s n)" using u(5) by simp
  from write_locked [OF u(2) this _ _ _ assms(5)] assms(4) l benv_log [OF u(9)] layout_cong [OF u(9)] obtain v t where
    v: "log_write b (set_data b d u) = Ret () v" "brelse b v = Ret () t" "log_ok t" "lockd t = (lockd u)(b := None)"
      "blk t = (blk u)(n := d)" "disk t = disk u" "dirtyb t = insert n (dirtyb u)" "lh_n t \<le> lh_n u + 1" "lenv u v" "lenv u t" by auto
  have "lockd t = lockd s" using v(4) u(4,5) by auto
  then have "txn 1 s t" using v u benv_log(3) [OF u(9)] lenv_trans [OF benv_lenv [OF u(9)] v(10)] by (auto simp: txn_def)
  moreover have "lenv s v" by (rule lenv_trans [OF benv_lenv [OF u(9)] v(9)])
  ultimately show ?thesis using u v by auto
qed

subsection \<open>begin_op and end_op\<close>

lemma bio_upd_outstanding [simp]:
  "blk (s\<lparr>log_outstanding := n\<rparr>) = blk s" "dirtyb (s\<lparr>log_outstanding := n\<rparr>) = dirtyb s" "lockd (s\<lparr>log_outstanding := n\<rparr>) = lockd s"
  "bio_inv (s\<lparr>log_outstanding := n\<rparr>) = bio_inv s" "idle (s\<lparr>log_outstanding := n\<rparr>) = idle s"
  by (rule bio_same; simp add: kern_ok_def cpu_ok_def)+

lemma bio_upd_committing [simp]:
  "blk (s\<lparr>log_committing := n\<rparr>) = blk s" "dirtyb (s\<lparr>log_committing := n\<rparr>) = dirtyb s" "lockd (s\<lparr>log_committing := n\<rparr>) = lockd s"
  "bio_inv (s\<lparr>log_committing := n\<rparr>) = bio_inv s" "idle (s\<lparr>log_committing := n\<rparr>) = idle s"
  by (rule bio_same; simp add: kern_ok_def cpu_ok_def)+

lemma bio_wakeup1 [simp]:
  "blk (wakeup1 c s) = blk s" "dirtyb (wakeup1 c s) = dirtyb s" "lockd (wakeup1 c s) = lockd s"
  "bio_inv (wakeup1 c s) = bio_inv s" "idle (wakeup1 c s) = idle s" "disk (wakeup1 c s) = disk s"
  by (rule bio_same; simp add: kern_ok_def cpu_ok_def wakeup1_def)+ (simp add: wakeup1_def)

lemma begin_op_law:
  assumes "kern_ok s" "\<not> log_committing s" "lh_n s + (log_outstanding s + 1) * 10 \<le> 30"
  shows "begin_op s = Ret () (s\<lparr>log_outstanding := log_outstanding s + 1\<rparr>)"
  using assms kern_okD [OF assms(1)] release_acquired [of "s\<lparr>log_outstanding := log_outstanding s + 1\<rparr>" LOGLOCK]
  by (simp add: begin_op_def begin_op_loop_def acquire_ok cpu_ok_def)

text \<open>The state a closing transaction leaves: nothing pinned, and every block on the disk as it was written.\<close>

lemma log_ok_upd [simp]:
  "log_ok (s\<lparr>log_outstanding := n\<rparr>) = log_ok s" "log_ok (s\<lparr>log_committing := c\<rparr>) = log_ok s" "log_ok (wakeup1 ch s) = log_ok s"
  by (simp_all add: log_ok_def layout_def logreg_def) (simp_all add: wakeup1_def)

lemma commit_law:
  assumes "log_ok s" "idle s"
  shows "\<exists>t. commit s = Ret () t \<and> log_ok t \<and> idle t \<and> dirtyb t = {} \<and> lh_n t = 0 \<and>
    (\<forall>b. b \<notin> logreg s \<longrightarrow> blk t b = blk s b \<and> disk t b = blk s b) \<and> lenv s t"
proof (cases "lh_n s = 0")
  case True
  then have e: "dirtyb s = {}" using log_okD(7) [OF assms(1)] by simp
  then have "disk s b = blk s b" for b
    using assms(2) bcache.clean_law [of s b] by (auto simp: idle_def ran_def)
  then show ?thesis using True e assms by (simp add: commit_def)
next
  case False
  note d = log_okD [OF assms(1)]
  define n where "n = nat (lh_n s)"
  have n: "lh_n s = int n" "0 < n" "layout n s" "dirtyb s = set (take n (lh_block s))" using d(3,4,7) False by (auto simp: n_def)
  from commit_ok [OF assms(2) n(3,1,2,4) d(5)] obtain t where t: "commit s = Ret () t" "idle t" "dirtyb t = {}" "lh_n t = 0"
    "disk t = replay (commit_writes s n) (disk s)" "benv (s\<lparr>lh_n := 0\<rparr>) t" by blast
  have lt: "lenv s t" using t(6) unfolding lenv_def by (metis lstate.surjective lstate.update_convs(7))
  have "length (commit_writes s n) = 2 * n + 2" by (simp add: commit_writes_def Let_def)
  then have D: "disk t = replay (take (2 * n + 2) (commit_writes s n)) (disk s)" by (simp add: t(5))
  have len: "length (disk s (log_start s)) = 512" using bio_invD(4) [OF d(1)] layout_start [OF n(3)] by blast
  have "dirtyb s = (\<lambda>i. lh_block s ! i) ` {..<n}" using nth_image [of n "lh_block s"] n(1,4) d(5,9) by (simp add: atLeast0LessThan)
  then have "disk s b = blk s b" if "b \<notin> (\<lambda>i. lh_block s ! i) ` {..<n}" for b
    using that assms(2) bcache.clean_law [of s b] by (auto simp: idle_def ran_def)
  from crash_prefix(3) [OF n(3) d(1) D len this] have c: "get32 (disk t (log_start s)) 0 = 0" "\<And>b. b \<notin> logreg s \<Longrightarrow> disk t b = blk s b"
    by auto
  have bt: "blk t b = disk t b" for b using t(2,3) bcache.clean_law [of t b] by (auto simp: idle_def ran_def)
  have "lh_block t = lh_block s" using benv_log [OF t(6)] by simp
  then have "log_ok t"
    using c(1) t(2,3,4) d(4,5,6) n(3) lenv_log [OF lt] by (simp add: log_ok_def idle_def layout_def)
  then show ?thesis using t c(2) bt lt by simp
qed

lemma end_op_last:
  assumes "log_ok s" "idle s" "log_outstanding s = 1" "\<not> log_committing s"
  shows "\<exists>t. end_op s = Ret () t \<and> log_ok t \<and> idle t \<and> dirtyb t = {} \<and> lh_n t = 0 \<and> log_outstanding t = 0 \<and> \<not> log_committing t \<and>
    (\<forall>b. b \<notin> logreg s \<longrightarrow> blk t b = blk s b \<and> disk t b = blk s b)"
proof -
  note k = kern_okD [OF log_okD(2) [OF assms(1)]]
  define s1 where "s1 = s\<lparr>log_outstanding := 0, log_committing := True\<rparr>"
  have s1: "log_ok s1" "idle s1" "blk s1 = blk s" "cpu_ok s1" "lock_free (locks s1 LOGLOCK)" "logreg s1 = logreg s"
    using assms(1,2) k by (simp_all add: s1_def cpu_ok_def logreg_def)
  from commit_law [OF s1(1,2)] obtain t where t: "commit s1 = Ret () t" "log_ok t" "idle t" "dirtyb t = {}" "lh_n t = 0"
    "\<And>b. b \<notin> logreg s \<Longrightarrow> blk t b = blk s b \<and> disk t b = blk s b" "lenv s1 t" using s1(3,6) by auto
  define u where "u = t\<lparr>log_committing := False\<rparr>"
  have ku: "kern_ok u" using log_okD(2) [of u] t(2) by (simp add: u_def)
  have k': "lock_free (locks (acquired u LOGLOCK) PTABLE)" using kern_okD [OF ku] by (simp add: acquired_def)
  have "release LOGLOCK (acquired s1 LOGLOCK) = Ret () s1" using s1 by (intro release_acquired)
  moreover have "acquire LOGLOCK t = Ret () (acquired t LOGLOCK)" using kern_okD [OF log_okD(2) [OF t(2)]] by (simp add: acquire_ok)
  moreover have "wakeup ChLog (acquired u LOGLOCK) = Ret () (acquired (wakeup1 ChLog u) LOGLOCK)"
    using kern_okD [OF ku] k' by (simp add: wakeup_ok wakeup1_acquired)
  moreover have "release LOGLOCK (acquired (wakeup1 ChLog u) LOGLOCK) = Ret () (wakeup1 ChLog u)"
    using kern_okD [OF ku] by (intro release_acquired) simp_all
  ultimately have "end_op s = Ret () (wakeup1 ChLog u)"
    using k assms(3,4) t(1) by (simp add: end_op_def acquire_ok Let_def s1_def [symmetric] u_def)
  moreover have "log_ok (wakeup1 ChLog u)" "idle (wakeup1 ChLog u)" "dirtyb (wakeup1 ChLog u) = {}" using t by (simp_all add: u_def)
  moreover have "lh_n (wakeup1 ChLog u) = 0" "log_outstanding (wakeup1 ChLog u) = 0" "\<not> log_committing (wakeup1 ChLog u)"
    using t(5) lenv_log [OF t(7)] by (simp_all add: u_def s1_def wakeup1_def)
  ultimately show ?thesis using t(6) by (auto simp: u_def)
qed

subsection \<open>A transaction of one block\<close>

definition boot_lstate :: lstate where
  "boot_lstate = binit (bstate.extend boot_bstate \<lparr>log_start = 256, log_size = 30, log_outstanding = 1, log_committing = False,
     log_dev = 1, lh_n = 0, lh_block = replicate 30 0\<rparr>)"

definition write_one :: "u32 \<Rightarrow> u8 list \<Rightarrow> 'a lstate_scheme \<Rightarrow> ('a lstate_scheme, unit) outcome" where
  "write_one n d s = obind (bread 1 n s) (\<lambda>b s. obind (log_write b (set_data b d s)) (\<lambda>_. brelse b))"

lemma binit_log [simp]:
  "log_start (binit s) = log_start s" "log_size (binit s) = log_size s" "log_outstanding (binit s) = log_outstanding s"
  "log_committing (binit s) = log_committing s" "log_dev (binit s) = log_dev s" "lh_n (binit s) = lh_n s" "lh_block (binit s) = lh_block s"
proof -
  have l: "log_start (binit_loop bs s) = log_start s \<and> log_size (binit_loop bs s) = log_size s \<and>
    log_outstanding (binit_loop bs s) = log_outstanding s \<and> log_committing (binit_loop bs s) = log_committing s \<and>
    log_dev (binit_loop bs s) = log_dev s \<and> lh_n (binit_loop bs s) = lh_n s \<and> lh_block (binit_loop bs s) = lh_block s" for bs and s :: "'a lstate_scheme"
    by (induction bs arbitrary: s) (simp_all add: initsleeplock_def initlock_def)
  show "log_start (binit s) = log_start s" "log_size (binit s) = log_size s" "log_outstanding (binit s) = log_outstanding s"
    "log_committing (binit s) = log_committing s" "log_dev (binit s) = log_dev s" "lh_n (binit s) = lh_n s" "lh_block (binit s) = lh_block s"
    by (simp_all add: binit_def Let_def l upd_buf_def initlock_def)
qed

lemma boot_lstate_ok:
  "log_ok boot_lstate" "lockd boot_lstate = (\<lambda>_. None)" "dirtyb boot_lstate = {}" "disk boot_lstate n = replicate 512 (ucast n)"
  "disksize boot_lstate = 1000" "log_start boot_lstate = 256" "log_outstanding boot_lstate = 1" "lh_n boot_lstate = 0"
proof -
  define s0 :: lstate where "s0 = bstate.extend boot_bstate \<lparr>log_start = 256, log_size = 30, log_outstanding = 1,
    log_committing = False, log_dev = 1, lh_n = 0, lh_block = replicate 30 0\<rparr>"
  have s0: "kern_ok s0" "\<And>i. bufs s0 i = bss_buf" "disksize s0 = 1000" "\<And>n. disk s0 n = replicate 512 (ucast n)"
    using boot_bstate_ok by (simp_all add: s0_def bstate.defs kern_ok_def cpu_ok_def)
  have "\<And>n. length (disk s0 n) = 512" by (simp add: s0(4))
  note b = binit_ok [OF s0(1,2) this]
  have e: "boot_lstate = binit s0" by (simp add: boot_lstate_def s0_def)
  show d: "lockd boot_lstate = (\<lambda>_. None)" "dirtyb boot_lstate = {}" "disk boot_lstate n = replicate 512 (ucast n)"
    "disksize boot_lstate = 1000" using b s0 by (simp_all add: e)
  show l: "log_start boot_lstate = 256" "log_outstanding boot_lstate = 1" "lh_n boot_lstate = 0"
    by (simp_all add: e) (simp_all add: s0_def bstate.defs)
  have "log_size boot_lstate = 30" "log_dev boot_lstate = 1" "lh_block boot_lstate = replicate 30 0"
    by (simp_all add: e) (simp_all add: s0_def bstate.defs)
  with l d(4) have "layout 0 boot_lstate" by (simp add: layout_def)
  moreover have "get32 (disk boot_lstate 256) 0 = 0" using b(4) s0(4) by (simp add: e get32_def)
  ultimately show "log_ok boot_lstate"
    using l d \<open>log_size boot_lstate = 30\<close> \<open>lh_block boot_lstate = _\<close> b(1) by (simp add: log_ok_def e)
qed

lemma commit_crash_safe_witness:
  "\<exists>s t ws. write_one 500 (replicate 512 7) boot_lstate = Ret () s \<and> commit s = Ret () t \<and> length ws = 4 \<and>
     disk s 500 = replicate 512 244 \<and> disk t 500 = replicate 512 7 \<and> dhist t = dhist s @ ws"
proof -
  note b = boot_lstate_ok
  have reg: "500 \<notin> logreg boot_lstate"
  proof
    assume "500 \<in> logreg boot_lstate"
    then obtain i where "500 = (256 :: u32) + of_nat i" "i < 30" by (auto simp: logreg_def b)
    then have "unat (500 :: u32) = unat ((256 :: u32) + of_nat i)" by simp
    then show False using \<open>i < 30\<close> unat_add_of_nat [of 256 i] by simp
  qed
  have "ready 1 boot_lstate" using b by (simp add: ready_def ran_def)
  from update_block [of 0 boot_lstate 500 "replicate 512 7"] this reg obtain c u v s where
    "bread 1 500 boot_lstate = Ret c u" "log_write c (set_data c (replicate 512 7) u) = Ret () v" "brelse c v = Ret () s"
    and s: "txn 1 boot_lstate s" "blk s = (blk boot_lstate)(500 := replicate 512 7)" using b by (auto simp: ran_def)
  then have w: "write_one 500 (replicate 512 7) boot_lstate = Ret () s" by (simp add: write_one_def)
  have x: "log_ok s" "lockd s = (\<lambda>_. None)" "disk s 500 = replicate 512 244" "lh_n s \<le> 1" "logreg s = logreg boot_lstate"
    using s(1) b lenv_log(7) [of boot_lstate s] by (auto simp: txn_def)
  note d = log_okD [OF x(1)]
  have i: "idle s" using x d by (simp add: idle_def)
  have "lh_n s \<noteq> 0"
  proof
    assume "lh_n s = 0"
    then have "dirtyb s = {}" using d(7) by simp
    then have "blk s 500 = disk s 500" using bcache.clean_law [OF d(1)] x(2) by (simp add: ran_def)
    then show False using s(2) x(3) by simp
  qed
  then have n: "lh_n s = int 1" using d(3) x(4) by simp
  then have "layout 1 s" "dirtyb s = set (take 1 (lh_block s))" "get32 (disk s (log_start s)) 0 = 0"
    using d(4,7) x(1) by (simp_all add: log_ok_def)
  from commit_crash_safe [OF i this(1) n _ this(2) d(5) this(3)] obtain t ws where
    "commit s = Ret () t" "dhist t = dhist s @ ws" "length ws = 4" "\<forall>b. b \<notin> logreg s \<longrightarrow> disk t b = blk s b" by auto
  with w x reg s(2) show ?thesis by auto
qed

end
