(* ===== verification/Layout.thy ===== *)
theory Layout
  imports Transaction
begin

text \<open>
  The on-disk structures of \<^verbatim>\<open>fs.h\<close> in their bytes: 16- and 32-bit fields in the byte order of the machine,
  disk inodes (64 bytes) and directory entries (16 bytes). The lemmas say that what is stored is read
  back and that neighbouring structures are not touched.
\<close>

record dinode =
  d_type :: u16
  d_major :: u16
  d_minor :: u16
  d_nlink :: u16
  d_size :: u32
  d_addrs :: "u32 list"

definition get16 :: "u8 list \<Rightarrow> nat \<Rightarrow> u16" where
  "get16 d off = ucast (d ! off) OR push_bit 8 (ucast (d ! (off + 1)))"

definition put16 :: "nat \<Rightarrow> u16 \<Rightarrow> u8 list \<Rightarrow> u8 list" where
  "put16 off v d = d[off := ucast v, off + 1 := ucast (drop_bit 8 v)]"

definition IBLOCK :: "u32 \<Rightarrow> superblock \<Rightarrow> u32" where
  "IBLOCK i sb = i div IPB + sb_inodestart sb"

text \<open>The byte offset of inode \<open>i\<close> in its block; \<^verbatim>\<open>sizeof(struct dinode)\<close> is 64.\<close>

definition ioff :: "u32 \<Rightarrow> nat" where
  "ioff i = unat (i mod IPB) * 64"

definition get_dinode :: "u8 list \<Rightarrow> nat \<Rightarrow> dinode" where
  "get_dinode d off = \<lparr>d_type = get16 d off, d_major = get16 d (off + 2), d_minor = get16 d (off + 4), d_nlink = get16 d (off + 6),
     d_size = get32 d (off + 8), d_addrs = map (\<lambda>i. get32 d (off + 12 + 4 * i)) [0..<NDIRECT + 1]\<rparr>"

definition put_dinode :: "nat \<Rightarrow> dinode \<Rightarrow> u8 list \<Rightarrow> u8 list" where
  "put_dinode off x d =
     fold (\<lambda>i. put32 (off + 12 + 4 * i) (d_addrs x ! i)) [0..<NDIRECT + 1]
       (put32 (off + 8) (d_size x) (put16 (off + 6) (d_nlink x) (put16 (off + 4) (d_minor x) (put16 (off + 2) (d_major x)
         (put16 off (d_type x) d)))))"

definition zero_dinode :: dinode where
  "zero_dinode = \<lparr>d_type = 0, d_major = 0, d_minor = 0, d_nlink = 0, d_size = 0, d_addrs = replicate 13 0\<rparr>"

lemma length_put16 [simp]: "length (put16 off v d) = length d"
  by (simp add: put16_def)

lemma bytes16_join: "(ucast (ucast v :: u8) :: u16) OR push_bit 8 (ucast (ucast (drop_bit 8 v) :: u8)) = v"
  by (rule bit_word_eqI) (auto simp: bit_simps)

lemma get16_put16 [simp]: "off + 1 < length d \<Longrightarrow> get16 (put16 off v d) off = v"
  using bytes16_join [of v] by (simp add: get16_def put16_def nth_list_update)

lemma get16_put16_other: "off + 2 \<le> i \<or> i + 2 \<le> off \<Longrightarrow> get16 (put16 off v d) i = get16 d i"
  by (auto simp: get16_def put16_def nth_list_update)

lemma get16_put32_other: "off + 4 \<le> i \<or> i + 2 \<le> off \<Longrightarrow> get16 (put32 off v d) i = get16 d i"
  by (auto simp: get16_def put32_def nth_list_update)

lemma get32_put16_other: "off + 2 \<le> i \<or> i + 4 \<le> off \<Longrightarrow> get32 (put16 off v d) i = get32 d i"
  by (auto simp: get32_def put16_def nth_list_update)

lemma get16_fold_put32_other:
  "(\<And>i. i \<in> set is \<Longrightarrow> k + 2 \<le> off + 4 * i \<or> off + 4 * i + 4 \<le> k) \<Longrightarrow>
   get16 (fold (\<lambda>i. put32 (off + 4 * i) (v i)) is d) k = get16 d k"
proof (induction "is" arbitrary: d)
  case (Cons i "is")
  have "off + 4 * i + 4 \<le> k \<or> k + 2 \<le> off + 4 * i" using Cons.prems [of i] by auto
  then show ?case using Cons by (simp add: get16_put32_other)
qed simp

lemma length_put_dinode [simp]: "length (put_dinode off x d) = length d"
  unfolding put_dinode_def by simp

lemmas get_other = get16_put16_other get32_put32_other get16_put32_other get32_put16_other

lemma get_put_dinode:
  assumes "off + 64 \<le> length d" "length (d_addrs x) = 13"
  shows "get_dinode (put_dinode off x d) off = x"
proof -
  have "map (\<lambda>i. get32 (put_dinode off x d) (off + 12 + 4 * i)) [0..<13] = d_addrs x"
    unfolding put_dinode_def using assms by (intro nth_equalityI) (simp_all add: get32_fold_put32 [where off = "off + 12"])
  moreover have "get32 (put_dinode off x d) (off + 8) = d_size x" "get16 (put_dinode off x d) off = d_type x"
      "get16 (put_dinode off x d) (off + 2) = d_major x" "get16 (put_dinode off x d) (off + 4) = d_minor x"
      "get16 (put_dinode off x d) (off + 6) = d_nlink x"
    unfolding put_dinode_def using assms(1) by (simp_all add: get32_fold_put32_other get16_fold_put32_other get_other)
  ultimately show ?thesis unfolding get_dinode_def by simp
qed

lemma get_put_dinode_other:
  assumes "k + 64 \<le> off \<or> off + 64 \<le> k"
  shows "get_dinode (put_dinode off x d) k = get_dinode d k"
proof -
  have "get32 (put_dinode off x d) j = get32 d j" if "k \<le> j" "j + 4 \<le> k + 64" for j
    unfolding put_dinode_def using assms that by (subst get32_fold_put32_other) (auto simp: get_other)
  moreover have "get16 (put_dinode off x d) j = get16 d j" if "k \<le> j" "j + 2 \<le> k + 64" for j
    unfolding put_dinode_def using assms that by (subst get16_fold_put32_other) (auto simp: get_other)
  ultimately show ?thesis by (simp add: get_dinode_def)
qed

lemma ioff_bound: "ioff i + 64 \<le> 512"
proof -
  have "unat (i mod IPB) < 8" by (simp add: unat_mod_distrib)
  then show ?thesis by (simp add: ioff_def)
qed

lemma ioff_other: "i mod IPB \<noteq> j mod IPB \<Longrightarrow> ioff i + 64 \<le> ioff j \<or> ioff j + 64 \<le> ioff i"
  by (auto simp: ioff_def word_unat_eq_iff)

lemma IBLOCK_ioff_inj: "IBLOCK i sb = IBLOCK j sb \<Longrightarrow> i mod IPB = j mod IPB \<Longrightarrow> i = j"
proof -
  assume a: "IBLOCK i sb = IBLOCK j sb" "i mod IPB = j mod IPB"
  then have "unat (i div 8) = unat (j div 8)" "unat (i mod 8) = unat (j mod 8)" by (simp_all add: IBLOCK_def)
  then have "unat i div 8 = unat j div 8" "unat i mod 8 = unat j mod 8" by (simp_all add: unat_div_distrib unat_mod_distrib)
  then have "unat i = unat j" by (metis div_mult_mod_eq)
  then show ?thesis by (simp add: word_unat_eq_iff)
qed

subsection \<open>Directory entries\<close>

definition de_inum :: "u8 list \<Rightarrow> u16" where
  "de_inum de = get16 de 0"

definition de_name :: "u8 list \<Rightarrow> u8 list" where
  "de_name de = take DIRSIZ (drop 2 de)"

definition mk_dirent :: "u16 \<Rightarrow> u8 list \<Rightarrow> u8 list" where
  "mk_dirent inum name = [ucast inum, ucast (drop_bit 8 inum)] @ name"

lemma mk_dirent_law: "length name = 14 \<Longrightarrow> de_inum (mk_dirent i name) = i \<and> de_name (mk_dirent i name) = name \<and> length (mk_dirent i name) = 16"
  using bytes16_join [of i] by (simp add: de_inum_def de_name_def mk_dirent_def get16_def)

subsection \<open>A small file system\<close>

definition encode_sb :: "superblock \<Rightarrow> u8 list \<Rightarrow> u8 list" where
  "encode_sb sb d = put32 24 (sb_bmapstart sb) (put32 20 (sb_inodestart sb) (put32 16 (sb_logstart sb) (put32 12 (sb_nlog sb)
     (put32 8 (sb_ninodes sb) (put32 4 (sb_nblocks sb) (put32 0 (sb_size sb) d))))))"

lemma decode_encode_sb: "28 \<le> length d \<Longrightarrow> decode_sb (encode_sb sb d) = sb"
  by (simp add: decode_sb_def encode_sb_def get32_put32_other)

text \<open>
  The image of a file system with a root directory that holds one file \<^verbatim>\<open>a\<close> with the content \<^verbatim>\<open>hello\<close>, for
  concrete instances of the theorems.
\<close>

definition small_sb :: superblock where
  "small_sb = \<lparr>sb_size = 1000, sb_nblocks = 941, sb_ninodes = 200, sb_nlog = 30, sb_logstart = 2, sb_inodestart = 32, sb_bmapstart = 58\<rparr>"

definition small_root :: dinode where
  "small_root = \<lparr>d_type = T_DIR, d_major = 0, d_minor = 0, d_nlink = 1, d_size = 512, d_addrs = 59 # replicate 12 0\<rparr>"

definition small_file :: dinode where
  "small_file = \<lparr>d_type = T_FILE, d_major = 0, d_minor = 0, d_nlink = 1, d_size = 5, d_addrs = 60 # replicate 12 0\<rparr>"

definition zero_block :: "u8 list" where
  "zero_block = replicate 512 0"

definition pad_name :: "string \<Rightarrow> u8 list" where
  "pad_name nm = take 14 (str nm @ replicate 14 0)"

definition small_image :: "u32 \<Rightarrow> u8 list" where
  "small_image = (\<lambda>n.
     if n = 1 then encode_sb small_sb zero_block
     else if n = 32 then put_dinode 64 small_root (put_dinode 128 small_file zero_block)
     else if n = 58 then replicate 7 255 @ [31] @ replicate 504 0
     else if n = 59 then mk_dirent 1 (pad_name ''.'') @ mk_dirent 1 (pad_name ''..'') @ mk_dirent 2 (pad_name ''a'') @ replicate 464 0
     else if n = 60 then str ''hello'' @ replicate 507 0
     else zero_block)"

lemma length_pad_name [simp]: "length (pad_name nm) = 14"
  by (simp add: pad_name_def)

lemma length_small_image [simp]: "length (small_image n) = 512"
  by (simp add: small_image_def zero_block_def encode_sb_def mk_dirent_law)

end
