(* ===== verification/Balloc.thy ===== *)
theory Balloc
  imports Layout
begin

text \<open>
  The block allocator (\<^verbatim>\<open>fs.c\<close>, section Blocks): zeroing, allocating and freeing disk blocks through the
  free map. The state gains the in-memory super block, the inode cache and the device switch that the
  rest of \<^verbatim>\<open>fs.c\<close> uses.
\<close>

subsection \<open>State (file.h, fs.c)\<close>

text \<open>The in-memory inode; the copy of the disk inode is the nested record \<open>i_d\<close>.\<close>

record inode =
  i_dev :: u32
  i_inum :: u32
  i_ref :: int
  i_valid :: bool   \<comment> \<open>\<^verbatim>\<open>I_VALID\<close>\<close>
  i_d :: dinode

record fstate = lstate +
  fs_sb :: superblock
  inodes :: "nat \<Rightarrow> inode"
  devsw :: "int \<Rightarrow> bool"  \<comment> \<open>is the console installed in this entry? no other driver installs itself\<close>

subsection \<open>Blocks\<close>

definition BBLOCK :: "u32 \<Rightarrow> superblock \<Rightarrow> u32" where
  "BBLOCK b sb = b div BPB + sb_bmapstart sb"

definition bzero :: "u32 \<Rightarrow> u32 \<Rightarrow> 'a fstate_scheme \<Rightarrow> ('a fstate_scheme, unit) outcome" where
  "bzero dev bno s =
     obind (bread dev bno s) (\<lambda>bp s.
     obind (log_write bp (set_data bp (replicate 512 0) s)) (\<lambda>_. brelse bp))"

text \<open>The bit of a block in the byte of the free map that holds it.\<close>

definition bm_mask :: "nat \<Rightarrow> u8" where
  "bm_mask bi = push_bit (bi mod 8) 1"

definition bm_clear :: "u8 list \<Rightarrow> nat \<Rightarrow> bool" where
  "bm_clear d bi \<longleftrightarrow> d ! (bi div 8) AND bm_mask bi = 0"

definition bm_set :: "nat \<Rightarrow> u8 list \<Rightarrow> u8 list" where
  "bm_set bi d = d[bi div 8 := d ! (bi div 8) OR bm_mask bi]"

definition bm_unset :: "nat \<Rightarrow> u8 list \<Rightarrow> u8 list" where
  "bm_unset bi d = d[bi div 8 := d ! (bi div 8) AND NOT (bm_mask bi)]"

text \<open>The outer loop of \<^verbatim>\<open>balloc\<close> over the first block \<open>b\<close> of each block of the free map; the inner loop is the search.\<close>

primrec balloc_loop :: "u32 \<Rightarrow> nat list \<Rightarrow> 'a fstate_scheme \<Rightarrow> ('a fstate_scheme, u32) outcome" where
  "balloc_loop dev [] s = Panic ''balloc: out of blocks''"
| "balloc_loop dev (b # bs) s =
     obind (bread dev (BBLOCK (of_nat b) (fs_sb s)) s) (\<lambda>bp s.
     let d = b_data (bufs s bp)
     in case find (bm_clear d) [0..<min 4096 (unat (sb_size (fs_sb s)) - b)] of
          Some bi \<Rightarrow>
            obind (log_write bp (set_data bp (bm_set bi d) s)) (\<lambda>_ s.
            obind (brelse bp s) (\<lambda>_ s.
            obind (bzero dev (of_nat (b + bi)) s) (\<lambda>_. Ret (of_nat (b + bi)))))
        | None \<Rightarrow> obind (brelse bp s) (\<lambda>_. balloc_loop dev bs))"

definition balloc :: "u32 \<Rightarrow> 'a fstate_scheme \<Rightarrow> ('a fstate_scheme, u32) outcome" where
  "balloc dev s = balloc_loop dev (map (\<lambda>i. i * 4096) [0..<(unat (sb_size (fs_sb s)) + 4095) div 4096]) s"

definition bfree :: "u32 \<Rightarrow> u32 \<Rightarrow> 'a fstate_scheme \<Rightarrow> ('a fstate_scheme, unit) outcome" where
  "bfree dev b s =
     obind (readsb dev s) (\<lambda>sb s.
     obind (bread dev (BBLOCK b sb) (s\<lparr>fs_sb := sb\<rparr>)) (\<lambda>bp s.
     let d = b_data (bufs s bp); bi = unat (b mod BPB)
     in if bm_clear d bi then Panic ''freeing free block''
        else obind (log_write bp (set_data bp (bm_unset bi d) s)) (\<lambda>_. brelse bp)))"

subsection \<open>The bits of the free map\<close>

lemma and_push_bit_1: "k < 8 \<Longrightarrow> (x :: u8) AND push_bit k 1 = 0 \<longleftrightarrow> \<not> bit x k"
proof
  assume k: "k < 8" and z: "x AND push_bit k 1 = 0"
  have "bit (x AND push_bit k 1) k \<longleftrightarrow> bit x k" using k by (simp add: bit_simps)
  then show "\<not> bit x k" using z by simp
next
  assume "\<not> bit x k"
  then show "x AND push_bit k 1 = 0" by (intro bit_word_eqI) (auto simp: bit_simps)
qed

lemma bm_clear_bit: "bm_clear d i \<longleftrightarrow> \<not> bit (d ! (i div 8)) (i mod 8)"
  unfolding bm_clear_def bm_mask_def by (rule and_push_bit_1) simp

lemma div_mod_8: "(i :: nat) div 8 = j div 8 \<Longrightarrow> i mod 8 = j mod 8 \<Longrightarrow> i = j"
  by (metis div_mult_mod_eq)

lemma length_bm [simp]: "length (bm_set i d) = length d" "length (bm_unset i d) = length d"
  by (simp_all add: bm_set_def bm_unset_def)

lemma bm_clear_set: "i div 8 < length d \<Longrightarrow> bm_clear (bm_set i d) j \<longleftrightarrow> j \<noteq> i \<and> bm_clear d j"
  using div_mod_8 [of i j] by (auto simp: bm_clear_bit bm_set_def bm_mask_def nth_list_update bit_simps)

lemma bm_clear_unset: "i div 8 < length d \<Longrightarrow> bm_clear (bm_unset i d) j \<longleftrightarrow> j = i \<or> bm_clear d j"
  using div_mod_8 [of i j] by (auto simp: bm_clear_bit bm_unset_def bm_mask_def nth_list_update bit_simps)

lemma bm_unset_set: "bm_clear d i \<Longrightarrow> i div 8 < length d \<Longrightarrow> bm_unset i (bm_set i d) = d"
  by (rule nth_equalityI) (auto simp: bm_clear_bit bm_unset_def bm_set_def bm_mask_def nth_list_update bit_simps intro!: bit_word_eqI)

subsection \<open>The free map of a file system\<close>

text \<open>A block in use, by the free map; \<open>V\<close> is the current content of the blocks.\<close>

definition used :: "(u32 \<Rightarrow> u8 list) \<Rightarrow> superblock \<Rightarrow> u32 \<Rightarrow> bool" where
  "used V sb b \<longleftrightarrow> \<not> bm_clear (V (BBLOCK b sb)) (unat (b mod BPB))"

text \<open>
  The blocks that hold no file data: boot block, super block, log, inodes and free map. They lie
  inside the file system and are marked as used.
\<close>

definition metab :: "'a fstate_scheme \<Rightarrow> u32 set" where
  "metab s = {0, 1} \<union> logreg s \<union> {IBLOCK i (fs_sb s) | i. i < sb_ninodes (fs_sb s)} \<union>
     {BBLOCK b (fs_sb s) | b. b < sb_size (fs_sb s)}"

definition fsmap_ok :: "'a fstate_scheme \<Rightarrow> bool" where
  "fsmap_ok s \<longleftrightarrow> decode_sb (blk s 1) = fs_sb s \<and> sb_size (fs_sb s) \<le> disksize s \<and>
     (\<forall>b. b < sb_size (fs_sb s) \<longrightarrow> BBLOCK b (fs_sb s) \<notin> logreg s \<union> {1}) \<and>
     (\<forall>i. i < sb_ninodes (fs_sb s) \<longrightarrow> IBLOCK i (fs_sb s) \<notin> logreg s \<union> {1} \<union> {BBLOCK b (fs_sb s) | b. b < sb_size (fs_sb s)}) \<and>
     (\<forall>b \<in> metab s. b < sb_size (fs_sb s) \<and> used (blk s) (fs_sb s) b)"

lemma lenv_fs:
  assumes "lenv s t"
  shows "fs_sb t = fs_sb s" "inodes t = inodes s" "devsw t = devsw s" "curproc t = curproc s" "mem t = mem s"
    "metab t = metab s" "locks t = locks s" "cr3 t = cr3 s" "sleeplocks t (InodeLock i) = sleeplocks s (InodeLock i)"
proof -
  obtain n bl where "benv (s\<lparr>lh_n := n, lh_block := bl\<rparr>) t" using assms by (auto simp: lenv_def)
  then obtain ps sl bf dk h where t: "t = s\<lparr>lh_n := n, lh_block := bl, procs := ps, sleeplocks := sl, bufs := bf, disk := dk, dhist := h\<rparr>"
    and i: "\<And>i. sl (InodeLock i) = sleeplocks s (InodeLock i)"
    by (auto simp: benv_def)
  then show "fs_sb t = fs_sb s" "inodes t = inodes s" "devsw t = devsw s" "curproc t = curproc s" "mem t = mem s"
    "locks t = locks s" "cr3 t = cr3 s" "sleeplocks t (InodeLock i) = sleeplocks s (InodeLock i)" by simp_all
  then show "metab t = metab s" using lenv_log(7) [OF assms] by (simp add: metab_def)
qed

lemma BBLOCK_of_nat: "i < 4096 \<Longrightarrow> b * 4096 + i < 2 ^ 32 \<Longrightarrow> BBLOCK (of_nat (b * 4096 + i)) sb = BBLOCK (of_nat (b * 4096)) sb"
proof -
  assume a: "i < 4096" "b * 4096 + i < 2 ^ 32"
  have "(of_nat (b * 4096 + i) :: u32) div 4096 = of_nat (b * 4096) div 4096"
    using a by (simp add: word_unat_eq_iff unat_div_distrib unat_of_nat_u32 del: of_nat_add of_nat_mult)
  then show ?thesis by (simp add: BBLOCK_def)
qed

lemma mod_of_nat: "i < 4096 \<Longrightarrow> b * 4096 + i < 2 ^ 32 \<Longrightarrow> unat ((of_nat (b * 4096 + i) :: u32) mod 4096) = i"
  by (simp add: unat_mod_distrib unat_of_nat_u32 del: of_nat_add of_nat_mult)

lemma used_of_nat:
  "i < 4096 \<Longrightarrow> b * 4096 + i < 2 ^ 32 \<Longrightarrow>
   used V sb (of_nat (b * 4096 + i)) \<longleftrightarrow> \<not> bm_clear (V (BBLOCK (of_nat (b * 4096)) sb)) i"
  unfolding used_def by (simp only: BBLOCK_of_nat mod_of_nat)

lemma bzero_law:
  assumes "ready (Suc k) s" "n < disksize s" "n \<notin> fst ` ran (lockd s)" "n \<notin> logreg s"
  shows "\<exists>t. bzero 1 n s = Ret () t \<and> txn 1 s t \<and> blk t = (blk s)(n := replicate 512 0)"
  using update_block [OF assms, of "replicate 512 0"] by (auto simp: bzero_def)

text \<open>The buffers in use hold data blocks.\<close>

definition locked_ok :: "'a fstate_scheme \<Rightarrow> bool" where
  "locked_ok s \<longleftrightarrow> (\<forall>n \<in> fst ` ran (lockd s). n < sb_size (fs_sb s) \<and> used (blk s) (fs_sb s) n \<and> n \<notin> metab s)"

definition fs_ready :: "nat \<Rightarrow> 'a fstate_scheme \<Rightarrow> bool" where
  "fs_ready k s \<longleftrightarrow> ready k s \<and> fsmap_ok s \<and> locked_ok s"

lemma fs_ready_same: "txn m s t \<Longrightarrow> blk t = blk s \<Longrightarrow> fs_ready (m + k) s \<Longrightarrow> fs_ready k t"
  using txn_ready [of m s t k] lenv_fs [of s t] lenv_log [of s t]
  by (simp add: fs_ready_def fsmap_ok_def locked_ok_def txn_def)

lemma fs_ready_mono: "fs_ready k s \<Longrightarrow> m \<le> k \<Longrightarrow> fs_ready m s"
  using ready_mono by (auto simp: fs_ready_def)

lemma bitmap_block:
  assumes "fs_ready k s" "b < sb_size (fs_sb s)"
  defines "n \<equiv> BBLOCK b (fs_sb s)"
  shows "n < disksize s" "n \<notin> fst ` ran (lockd s)" "n \<notin> logreg s" "n \<noteq> 1" "length (blk s n) = 512" "n \<in> metab s"
proof -
  show m: "n \<in> metab s" using assms by (auto simp: metab_def)
  have f: "fsmap_ok s" using assms by (simp add: fs_ready_def)
  show d: "n < disksize s" using f m by (force simp: fsmap_ok_def)
  show "n \<notin> fst ` ran (lockd s)" using assms m by (auto simp: fs_ready_def locked_ok_def)
  show "n \<notin> logreg s" "n \<noteq> 1" using f assms by (auto simp: fsmap_ok_def)
  show "length (blk s n) = 512"
    using bcache.size_law [OF log_okD(1) d] assms(1) by (simp add: fs_ready_def ready_def)
qed

lemma free_block:
  assumes "fs_ready k s" "b < sb_size (fs_sb s)" "\<not> used (blk s) (fs_sb s) b"
  shows "b < disksize s" "b \<notin> fst ` ran (lockd s)" "b \<notin> metab s" "b \<notin> logreg s"
proof -
  have f: "fsmap_ok s" "locked_ok s" using assms by (auto simp: fs_ready_def)
  show "b < disksize s" using f(1) assms(2) by (force simp: fsmap_ok_def)
  show "b \<notin> fst ` ran (lockd s)" using f(2) assms(3) by (auto simp: locked_ok_def)
  show m: "b \<notin> metab s" using f(1) assms(3) by (auto simp: fsmap_ok_def)
  then show "b \<notin> logreg s" by (simp add: metab_def)
qed

text \<open>The effect of an allocation on the blocks.\<close>

definition alloc_view :: "superblock \<Rightarrow> u32 \<Rightarrow> (u32 \<Rightarrow> u8 list) \<Rightarrow> (u32 \<Rightarrow> u8 list)" where
  "alloc_view sb a V = V(BBLOCK a sb := bm_set (unat (a mod BPB)) (V (BBLOCK a sb)), a := replicate 512 0)"

text \<open>The iteration of \<^verbatim>\<open>balloc\<close> that finds a free block.\<close>

lemma balloc_hit:
  assumes "fs_ready 2 s" "b * 4096 + bi < unat (sb_size (fs_sb s))" "bi < 4096"
    and f: "find (bm_clear (blk s (BBLOCK (of_nat (b * 4096)) (fs_sb s)))) [0..<min 4096 (unat (sb_size (fs_sb s)) - b * 4096)] = Some bi"
  shows "\<exists>t. balloc_loop 1 ((b * 4096) # bs) s = Ret (of_nat (b * 4096 + bi)) t \<and> txn 2 s t \<and>
    blk t = alloc_view (fs_sb s) (of_nat (b * 4096 + bi)) (blk s)"
proof -
  let ?sb = "fs_sb s" and ?a = "of_nat (b * 4096 + bi) :: u32"
  let ?n = "BBLOCK (of_nat (b * 4096)) ?sb"
  have N: "b * 4096 + bi < 2 ^ 32" using less_trans [OF assms(2) unat_u32_less] by simp
  have as: "?a < sb_size ?sb" using assms(2) N by (simp add: word_less_nat_alt unat_of_nat_u32 del: of_nat_add of_nat_mult)
  have n: "?n = BBLOCK ?a ?sb" by (rule BBLOCK_of_nat [OF assms(3) N, symmetric])
  have mb: "unat (?a mod BPB) = bi" by (rule mod_of_nat [OF assms(3) N])
  note bm = bitmap_block [OF assms(1) as, folded n]
  have free: "\<not> used (blk s) ?sb ?a"
    using f used_of_nat [OF assms(3) N] by (auto simp: find_Some_iff simp del: of_nat_add of_nat_mult)
  note fr = free_block [OF assms(1) as free]
  let ?d = "bm_set bi (blk s ?n)"
  have r: "ready (Suc 1) s" using assms(1) by (simp add: fs_ready_def numeral_2_eq_2)
  from update_block [OF r bm(1,2,3), of ?d] bm(5) obtain bp u v w where
    u: "bread 1 ?n s = Ret bp u" "b_data (bufs u bp) = blk s ?n" "benv s u"
    "log_write bp (set_data bp ?d u) = Ret () v" "brelse bp v = Ret () w" "txn 1 s w" "blk w = (blk s)(?n := ?d)" by auto
  have w: "ready (Suc 0) w" "lockd w = lockd s" "lenv s w" using txn_ready [OF u(6), of 1] r u(6) by (auto simp: txn_def)
  from bzero_law [OF w(1), of ?a] fr lenv_log [OF w(3)] w(2) obtain t where
    t: "bzero 1 ?a w = Ret () t" "txn 1 w t" "blk t = (blk w)(?a := replicate 512 0)" by auto
  have sb: "fs_sb u = fs_sb s" using lenv_fs(1) [OF benv_lenv [OF u(3)]] .
  have "balloc_loop 1 ((b * 4096) # bs) s = Ret ?a t"
    using u t(1) f by (simp add: sb Let_def del: of_nat_add of_nat_mult)
  moreover have "txn 2 s t" using txn_trans [OF u(6) t(2)] by (simp add: numeral_2_eq_2)
  ultimately show ?thesis using t(3) u(7) by (simp add: alloc_view_def n mb del: of_nat_add of_nat_mult)
qed

lemma balloc_loop_law:
  assumes "fs_ready 2 s" "K = (unat (sb_size (fs_sb s)) + 4095) div 4096" "i \<le> K"
    and "\<And>b. unat b < i * 4096 \<Longrightarrow> b < sb_size (fs_sb s) \<Longrightarrow> used (blk s) (fs_sb s) b"
  shows "(\<exists>a t. balloc_loop 1 (map (\<lambda>i. i * 4096) [i..<K]) s = Ret a t \<and> a < sb_size (fs_sb s) \<and> \<not> used (blk s) (fs_sb s) a \<and>
        (\<forall>b < a. used (blk s) (fs_sb s) b) \<and> blk t = alloc_view (fs_sb s) a (blk s) \<and> txn 2 s t) \<or>
    (\<forall>b < sb_size (fs_sb s). used (blk s) (fs_sb s) b) \<and>
      balloc_loop 1 (map (\<lambda>i. i * 4096) [i..<K]) s = Panic ''balloc: out of blocks''"
  using assms
proof (induction "K - i" arbitrary: i s)
  case 0
  have "unat b < i * 4096" if "b < sb_size (fs_sb s)" for b
    using 0 that by (simp add: word_less_nat_alt)
  then show ?case using 0 by simp
next
  case (Suc k)
  let ?sb = "fs_sb s"
  define N where "N = unat (sb_size ?sb)"
  have i: "i < K" "i * 4096 < N" using Suc.hyps(2) Suc.prems(2) by (auto simp: N_def)
  have N: "N < 2 ^ 32" using unat_u32_less [of "sb_size ?sb"] by (simp add: N_def)
  have l: "[i..<K] = i # [Suc i..<K]" using i by (simp add: upt_conv_Cons)
  let ?n = "BBLOCK (of_nat (i * 4096)) ?sb" and ?r = "[0..<min 4096 (N - i * 4096)]"
  have "unat (of_nat (i * 4096) :: u32) = i * 4096" using less_trans [OF i(2) N] by (intro unat_of_nat_u32) simp
  then have s0: "of_nat (i * 4096) < sb_size ?sb" using i(2) by (simp add: word_less_nat_alt N_def del: of_nat_mult)
  have split: "\<exists>j < min 4096 (N - i * 4096). b = of_nat (i * 4096 + j)"
    if "\<not> unat b < i * 4096" "unat b < Suc i * 4096" "b < sb_size ?sb" for b
    using that by (intro exI [of _ "unat b - i * 4096"]) (auto simp: N_def word_less_nat_alt simp del: of_nat_add of_nat_mult)
  show ?case
  proof (cases "find (bm_clear (blk s ?n)) ?r")
    case None
    have u: "used (blk s) ?sb b" if b: "unat b < Suc i * 4096" "b < sb_size ?sb" for b
    proof (cases "unat b < i * 4096")
      case False
      from split [OF this b] obtain j where j: "j < min 4096 (N - i * 4096)" "b = of_nat (i * 4096 + j)" by blast
      have "\<not> bm_clear (blk s ?n) j" using None j(1) by (auto simp: find_None_iff)
      moreover have "i * 4096 + j < 2 ^ 32" "j < 4096" using j(1) N by auto
      ultimately show ?thesis unfolding j(2) by (subst used_of_nat)
    qed (use Suc.prems(4) b in blast)
    have r: "ready 2 s" using Suc.prems(1) by (simp add: fs_ready_def)
    from read_block [OF r] bitmap_block [OF Suc.prems(1) s0] obtain bp v w where
      v: "bread 1 ?n s = Ret bp v" "b_data (bufs v bp) = blk s ?n" "benv s v" "brelse bp v = Ret () w" "txn 0 s w" "blk w = blk s" by blast
    have sb: "fs_sb v = ?sb" "fs_sb w = ?sb" using lenv_fs(1) [OF benv_lenv [OF v(3)]] lenv_fs(1) [of s w] v(5) by (auto simp: txn_def)
    have e: "balloc_loop 1 (map (\<lambda>i. i * 4096) [i..<K]) s = balloc_loop 1 (map (\<lambda>i. i * 4096) [Suc i..<K]) w"
      using v None by (simp add: l sb N_def Let_def del: of_nat_mult)
    have "fs_ready 2 w" using fs_ready_same [OF v(5,6), of 2, unfolded add_0] Suc.prems(1) by blast
    from Suc.hyps(1) [OF _ this, of "Suc i"] Suc.hyps(2) Suc.prems(2) i(1) u
    have "(\<exists>a t. balloc_loop 1 (map (\<lambda>i. i * 4096) [Suc i..<K]) w = Ret a t \<and> a < sb_size ?sb \<and> \<not> used (blk s) ?sb a \<and>
        (\<forall>b < a. used (blk s) ?sb b) \<and> blk t = alloc_view ?sb a (blk s) \<and> txn 2 w t) \<or>
      (\<forall>b < sb_size ?sb. used (blk s) ?sb b) \<and> balloc_loop 1 (map (\<lambda>i. i * 4096) [Suc i..<K]) w = Panic ''balloc: out of blocks''"
      by (simp add: sb v(6))
    then show ?thesis unfolding e using txn_trans [OF v(5), of 2, unfolded add_0] by blast
  next
    case (Some bi)
    then have bi: "bi < min 4096 (N - i * 4096)" "\<And>j. j < bi \<Longrightarrow> \<not> bm_clear (blk s ?n) j" "bm_clear (blk s ?n) bi"
      by (auto simp: find_Some_iff)
    let ?a = "of_nat (i * 4096 + bi) :: u32"
    have as: "i * 4096 + bi < N" "bi < 4096" using bi(1) by auto
    have ua: "unat ?a = i * 4096 + bi" using less_trans [OF as(1) N] by (intro unat_of_nat_u32) simp
    from balloc_hit [OF Suc.prems(1), of i bi] Some as obtain t where
      t: "balloc_loop 1 (map (\<lambda>i. i * 4096) [i..<K]) s = Ret ?a t" "txn 2 s t" "blk t = alloc_view ?sb ?a (blk s)"
      by (auto simp: l N_def simp del: of_nat_add of_nat_mult balloc_loop.simps)
    have "?a < sb_size ?sb" using as ua by (simp add: word_less_nat_alt N_def)
    moreover have "\<not> used (blk s) ?sb ?a" using used_of_nat [OF as(2) less_trans [OF as(1) N]] bi(3) by blast
    moreover have "used (blk s) ?sb b" if "b < ?a" for b
    proof (cases "unat b < i * 4096")
      case True
      then show ?thesis using Suc.prems(4) that \<open>?a < sb_size ?sb\<close> less_trans by blast
    next
      case False
      have "unat b < i * 4096 + bi" using that ua by (simp add: word_less_nat_alt)
      then have j: "unat b - i * 4096 < bi" "i * 4096 + (unat b - i * 4096) = unat b" using False by auto
      have "used (blk s) ?sb (of_nat (i * 4096 + (unat b - i * 4096)))"
        using j as N bi(2) by (subst used_of_nat) auto
      then show ?thesis unfolding j(2) by simp
    qed
    ultimately show ?thesis using t by blast
  qed
qed

lemma balloc_law:
  assumes "fs_ready 2 s"
  shows "(\<exists>a t. balloc 1 s = Ret a t \<and> a < sb_size (fs_sb s) \<and> \<not> used (blk s) (fs_sb s) a \<and>
        (\<forall>b < a. used (blk s) (fs_sb s) b) \<and> blk t = alloc_view (fs_sb s) a (blk s) \<and> txn 2 s t) \<or>
    (\<forall>b < sb_size (fs_sb s). used (blk s) (fs_sb s) b) \<and> balloc 1 s = Panic ''balloc: out of blocks''"
  using balloc_loop_law [OF assms refl, of 0] by (simp add: balloc_def)

subsection \<open>The free map after an allocation and after a release\<close>

lemma mod_4096_less: "unat (b mod BPB) div 8 < 512"
proof -
  have "unat (b mod BPB) < 4096" using unat_mod_4096 [of b] by simp
  then show ?thesis by simp
qed

lemma BBLOCK_inj: "BBLOCK a sb = BBLOCK b sb \<Longrightarrow> unat (a mod BPB) = unat (b mod BPB) \<Longrightarrow> a = b"
proof -
  assume a: "BBLOCK a sb = BBLOCK b sb" "unat (a mod BPB) = unat (b mod BPB)"
  then have "unat (a div 4096) = unat (b div 4096)" by (simp add: BBLOCK_def)
  with a(2) have "unat a div 4096 = unat b div 4096" "unat a mod 4096 = unat b mod 4096"
    by (simp_all add: unat_div_distrib unat_mod_distrib)
  then have "unat a = unat b" by (metis div_mult_mod_eq)
  then show ?thesis by (simp add: word_unat_eq_iff)
qed

lemma used_alloc:
  assumes "fs_ready k s" "a < sb_size (fs_sb s)" "\<not> used (blk s) (fs_sb s) a" "b < sb_size (fs_sb s)"
  shows "used (alloc_view (fs_sb s) a (blk s)) (fs_sb s) b \<longleftrightarrow> used (blk s) (fs_sb s) b \<or> b = a"
proof -
  note ba = bitmap_block [OF assms(1,2)] and bb = bitmap_block [OF assms(1,4)]
  have "BBLOCK b (fs_sb s) \<noteq> a" using bb(6) free_block(3) [OF assms(1-3)] by auto
  then show ?thesis
    using BBLOCK_inj [of b "fs_sb s" a] ba(5) mod_4096_less [of a] assms(3)
    by (auto simp: used_def alloc_view_def bm_clear_set)
qed

lemma fs_ready_alloc:
  assumes "fs_ready (m + k) s" "txn m s t" "a < sb_size (fs_sb s)" "\<not> used (blk s) (fs_sb s) a" "blk t = alloc_view (fs_sb s) a (blk s)"
  shows "fs_ready k t"
proof -
  have l: "lenv s t" "lockd t = lockd s" using assms(2) by (auto simp: txn_def)
  note e = lenv_fs [OF l(1)] lenv_log [OF l(1)]
  have f: "fsmap_ok s" "locked_ok s" using assms(1) by (auto simp: fs_ready_def)
  note u = used_alloc [OF assms(1,3,4)] and fb = free_block [OF assms(1,3,4)]
  have "blk t 1 = blk s 1"
    using bitmap_block(4) [OF assms(1,3)] fb(3) unfolding assms(5) alloc_view_def by (auto simp: metab_def)
  then have "fsmap_ok t" using f(1) u unfolding fsmap_ok_def e assms(5) by auto
  moreover have "locked_ok t" using f(2) u unfolding locked_ok_def e assms(5) l(2) by blast
  ultimately show ?thesis using txn_ready [OF assms(2)] assms(1) by (simp add: fs_ready_def)
qed

lemma super_block:
  assumes "fs_ready k s"
  shows "1 < disksize s" "1 \<notin> fst ` ran (lockd s)" "decode_sb (blk s 1) = fs_sb s"
proof -
  have "1 \<in> metab s" by (simp add: metab_def)
  then show "1 < disksize s" "1 \<notin> fst ` ran (lockd s)" "decode_sb (blk s 1) = fs_sb s"
    using assms by (force simp: fs_ready_def fsmap_ok_def locked_ok_def)+
qed

lemma readsb_law:
  assumes "fs_ready k s"
  shows "\<exists>t. readsb 1 s = Ret (fs_sb s) t \<and> txn 0 s t \<and> blk t = blk s"
proof -
  note b = super_block [OF assms]
  have "ready k s" using assms by (simp add: fs_ready_def)
  from read_block [OF this b(1,2)] obtain bp u t where "bread 1 1 s = Ret bp u" "b_data (bufs u bp) = blk s 1"
    "brelse bp u = Ret () t" "txn 0 s t" "blk t = blk s" by blast
  then show ?thesis using b(3) by (simp add: readsb_def Let_def)
qed

definition free_view :: "superblock \<Rightarrow> u32 \<Rightarrow> (u32 \<Rightarrow> u8 list) \<Rightarrow> (u32 \<Rightarrow> u8 list)" where
  "free_view sb b V = V(BBLOCK b sb := bm_unset (unat (b mod BPB)) (V (BBLOCK b sb)))"

lemma bfree_law:
  assumes "fs_ready (Suc k) s" "b < sb_size (fs_sb s)"
  shows "used (blk s) (fs_sb s) b \<Longrightarrow> \<exists>t. bfree 1 b s = Ret () t \<and> txn 1 s t \<and> blk t = free_view (fs_sb s) b (blk s)"
    "\<not> used (blk s) (fs_sb s) b \<Longrightarrow> bfree 1 b s = Panic ''freeing free block''"
proof -
  let ?n = "BBLOCK b (fs_sb s)" and ?d = "bm_unset (unat (b mod BPB)) (blk s (BBLOCK b (fs_sb s)))"
  obtain t where t: "readsb 1 s = Ret (fs_sb s) t" "txn 0 s t" "blk t = blk s" using readsb_law [OF assms(1)] by blast
  have ft: "fs_ready (Suc k) t" using fs_ready_same [OF t(2,3), of "Suc k"] assms(1) by simp
  have sb: "fs_sb t = fs_sb s" using lenv_fs(1) [of s t] t(2) by (simp add: txn_def)
  have t': "t\<lparr>fs_sb := fs_sb s\<rparr> = t" using sb by simp
  note bm = bitmap_block [OF ft, of b, unfolded sb, OF assms(2)]
  from ft have "ready (Suc k) t" by (simp add: fs_ready_def)
  from update_block [OF this bm(1-3), of ?d] bm(5) obtain bp u v w where
    u: "bread 1 ?n t = Ret bp u" "b_data (bufs u bp) = blk s ?n" "log_write bp (set_data bp ?d u) = Ret () v" "brelse bp v = Ret () w"
      "txn 1 t w" "blk w = (blk s)(?n := ?d)" by (auto simp: t(3))
  show "\<exists>t. bfree 1 b s = Ret () t \<and> txn 1 s t \<and> blk t = free_view (fs_sb s) b (blk s)" if "used (blk s) (fs_sb s) b"
    using that u t(1) txn_trans [OF t(2) u(5)] by (simp add: bfree_def t' Let_def used_def free_view_def)
  show "bfree 1 b s = Panic ''freeing free block''" if "\<not> used (blk s) (fs_sb s) b"
    using that u t(1) by (simp add: bfree_def t' Let_def used_def)
qed

lemma used_free:
  assumes "fs_ready k s" "a < sb_size (fs_sb s)"
  shows "used (free_view (fs_sb s) a (blk s)) (fs_sb s) b \<longleftrightarrow> used (blk s) (fs_sb s) b \<and> b \<noteq> a"
  using BBLOCK_inj [of b "fs_sb s" a] bitmap_block(5) [OF assms] mod_4096_less [of a]
  by (auto simp: used_def free_view_def bm_clear_unset)

lemma fs_ready_free:
  assumes "fs_ready (m + k) s" "txn m s t" "a < sb_size (fs_sb s)" "a \<notin> metab s" "a \<notin> fst ` ran (lockd s)"
    and "blk t = free_view (fs_sb s) a (blk s)"
  shows "fs_ready k t"
proof -
  have l: "lenv s t" "lockd t = lockd s" using assms(2) by (auto simp: txn_def)
  note e = lenv_fs [OF l(1)] lenv_log [OF l(1)]
  have f: "fsmap_ok s" "locked_ok s" using assms(1) by (auto simp: fs_ready_def)
  note u = used_free [OF assms(1,3)]
  have "blk t 1 = blk s 1" using bitmap_block(4) [OF assms(1,3)] unfolding assms(6) free_view_def by auto
  then have "fsmap_ok t" using f(1) u assms(4) unfolding fsmap_ok_def e assms(6) by auto
  moreover have "locked_ok t" using f(2) u assms(5) unfolding locked_ok_def e assms(6) l(2) by auto
  ultimately show ?thesis using txn_ready [OF assms(2)] assms(1) by (simp add: fs_ready_def)
qed

text \<open>
  C8: if some block is free, \<^verbatim>\<open>balloc\<close> returns the first free one: zeroed, marked as used, every other
  block and every other mark unchanged; freeing it again restores the free map. If no block is free
  it panics.
\<close>

theorem balloc_correct:
  assumes "fs_ready 3 s"
  shows "if \<exists>b < sb_size (fs_sb s). \<not> used (blk s) (fs_sb s) b
    then \<exists>a t u. balloc 1 s = Ret a t \<and> a < sb_size (fs_sb s) \<and> \<not> used (blk s) (fs_sb s) a \<and> (\<forall>b < a. used (blk s) (fs_sb s) b) \<and>
      blk t a = replicate 512 0 \<and> (\<forall>n. n \<noteq> a \<and> n \<noteq> BBLOCK a (fs_sb s) \<longrightarrow> blk t n = blk s n) \<and>
      (\<forall>b < sb_size (fs_sb s). used (blk t) (fs_sb s) b \<longleftrightarrow> used (blk s) (fs_sb s) b \<or> b = a) \<and>
      bfree 1 a t = Ret () u \<and> blk u = (blk s)(a := replicate 512 0)
    else balloc 1 s = Panic ''balloc: out of blocks''"
proof (cases "\<exists>b < sb_size (fs_sb s). \<not> used (blk s) (fs_sb s) b")
  case True
  have "fs_ready 2 s" using assms fs_ready_mono by fastforce
  from balloc_law [OF this] True obtain a t where t: "balloc 1 s = Ret a t" "a < sb_size (fs_sb s)" "\<not> used (blk s) (fs_sb s) a"
    "\<forall>b < a. used (blk s) (fs_sb s) b" "blk t = alloc_view (fs_sb s) a (blk s)" "txn 2 s t" by blast
  have sb: "fs_sb t = fs_sb s" using t(6) lenv_fs(1) [of s t] by (simp add: txn_def)
  have r: "fs_ready (Suc 0) t" using fs_ready_alloc [of 2 "Suc 0" s t a] assms t by (simp add: numeral_3_eq_3)
  note ua = used_alloc [OF assms t(2,3)]
  have "used (blk t) (fs_sb t) a" using ua [of a] t(2) by (simp add: sb t(5))
  from bfree_law(1) [OF r _ this] t(2) obtain u where u: "bfree 1 a t = Ret () u" "blk u = free_view (fs_sb s) a (blk t)"
    by (auto simp: sb)
  have "BBLOCK a (fs_sb s) \<noteq> a" using bitmap_block(6) [OF assms t(2)] free_block(3) [OF assms t(2,3)] by auto
  then have "blk u = (blk s)(a := replicate 512 0)"
    using bm_unset_set [of "blk s (BBLOCK a (fs_sb s))" "unat (a mod BPB)"] t(3) bitmap_block(5) [OF assms t(2)] mod_4096_less [of a]
    by (auto simp: u(2) t(5) free_view_def alloc_view_def used_def)
  moreover have "blk t a = replicate 512 0" "\<forall>n. n \<noteq> a \<and> n \<noteq> BBLOCK a (fs_sb s) \<longrightarrow> blk t n = blk s n"
    by (simp_all add: t(5) alloc_view_def)
  ultimately show ?thesis using True t u(1) ua by (simp add: t(5))
next
  case False
  have "fs_ready 2 s" using assms fs_ready_mono by fastforce
  from balloc_law [OF this] False show ?thesis by auto
qed

subsection \<open>The small file system\<close>

definition bss_inode :: inode where
  "bss_inode = \<lparr>i_dev = 0, i_inum = 0, i_ref = 0, i_valid = False, i_d = zero_dinode\<rparr>"

definition boot_fstate :: fstate where
  "boot_fstate = binit (lstate.extend (bstate.extend (boot_bstate\<lparr>disk := small_image\<rparr>)
     \<lparr>log_start = 2, log_size = 30, log_outstanding = 1, log_committing = False, log_dev = 1, lh_n = 0, lh_block = replicate 30 0\<rparr>)
     \<lparr>fs_sb = small_sb, inodes = (\<lambda>_. bss_inode), devsw = (\<lambda>_. False)\<rparr>)"

lemma binit_fs [simp]: "fs_sb (binit s) = fs_sb s" "inodes (binit s) = inodes s" "devsw (binit s) = devsw s" "procs (binit s) = procs s"
  "curproc (binit s) = curproc s"
proof -
  have l: "fs_sb (binit_loop bs s) = fs_sb s \<and> inodes (binit_loop bs s) = inodes s \<and> devsw (binit_loop bs s) = devsw s \<and>
      procs (binit_loop bs s) = procs s \<and> curproc (binit_loop bs s) = curproc s" for bs and s :: "'a fstate_scheme"
    by (induction bs arbitrary: s) (simp_all add: initsleeplock_def initlock_def)
  show "fs_sb (binit s) = fs_sb s" "inodes (binit s) = inodes s" "devsw (binit s) = devsw s" "procs (binit s) = procs s"
    "curproc (binit s) = curproc s"
    by (simp_all add: binit_def Let_def l upd_buf_def initlock_def)
qed

lemma logreg_2: "log_start s = 2 \<Longrightarrow> b \<in> logreg s \<Longrightarrow> 2 \<le> unat b \<and> unat b < 32"
proof -
  assume "log_start s = 2" "b \<in> logreg s"
  then obtain i where i: "i < 30" "b = 2 + of_nat i" by (auto simp: logreg_def)
  then have "unat b = unat (2 :: u32) + i" unfolding i(2) by (intro unat_add_of_nat) simp
  then show ?thesis using i(1) by simp
qed

lemma boot_fstate_ok:
  "log_ok boot_fstate" "lockd boot_fstate = (\<lambda>_. None)" "blk boot_fstate = small_image" "fs_sb boot_fstate = small_sb"
  "disksize boot_fstate = 1000" "log_start boot_fstate = 2" "log_outstanding boot_fstate = 1" "lh_n boot_fstate = 0"
  "inodes boot_fstate = (\<lambda>_. bss_inode)" "devsw boot_fstate = (\<lambda>_. False)"
proof -
  define s0 :: fstate where "s0 = lstate.extend (bstate.extend (boot_bstate\<lparr>disk := small_image\<rparr>)
     \<lparr>log_start = 2, log_size = 30, log_outstanding = 1, log_committing = False, log_dev = 1, lh_n = 0, lh_block = replicate 30 0\<rparr>)
     \<lparr>fs_sb = small_sb, inodes = (\<lambda>_. bss_inode), devsw = (\<lambda>_. False)\<rparr>"
  have s0: "kern_ok s0" "\<And>i. bufs s0 i = bss_buf" "disksize s0 = 1000" "disk s0 = small_image"
    using boot_bstate_ok by (simp_all add: s0_def bstate.defs lstate.defs kern_ok_def cpu_ok_def)
  have "\<And>n. length (disk s0 n) = 512" by (simp add: s0(4))
  note b = binit_ok [OF s0(1,2) this]
  have e: "boot_fstate = binit s0" by (simp add: boot_fstate_def s0_def)
  show d: "lockd boot_fstate = (\<lambda>_. None)" "disksize boot_fstate = 1000" using b s0 by (simp_all add: e)
  show "fs_sb boot_fstate = small_sb" "inodes boot_fstate = (\<lambda>_. bss_inode)" "devsw boot_fstate = (\<lambda>_. False)"
    by (simp_all add: e) (simp_all add: s0_def lstate.defs)
  show l: "log_start boot_fstate = 2" "log_outstanding boot_fstate = 1" "lh_n boot_fstate = 0"
    by (simp_all add: e) (simp_all add: s0_def bstate.defs lstate.defs)
  have l': "log_size boot_fstate = 30" "log_dev boot_fstate = 1" "lh_block boot_fstate = replicate 30 0"
    by (simp_all add: e) (simp_all add: s0_def bstate.defs lstate.defs)
  have i: "bio_inv boot_fstate" "dirtyb boot_fstate = {}" "disk boot_fstate = small_image" using b s0 by (simp_all add: e)
  show "blk boot_fstate = small_image"
    using bcache.clean_law [OF i(1)] i d(1) by (auto simp: fun_eq_iff ran_def)
  have "get32 (small_image 2) 0 = 0" by (simp add: small_image_def zero_block_def get32_def)
  then show "log_ok boot_fstate" using i l l' d by (simp add: log_ok_def layout_def)
qed

lemma small_BBLOCK: "b < 1000 \<Longrightarrow> BBLOCK b small_sb = 58"
proof -
  assume "b < 1000"
  then have "b div 4096 = 0" by (simp add: word_unat_eq_iff unat_div_distrib word_less_nat_alt)
  then show ?thesis by (simp add: BBLOCK_def small_sb_def)
qed

lemma small_map_bit: "bm_clear (small_image 58) i \<longleftrightarrow> 61 \<le> i" if "i < 1000"
proof -
  have m: "(255 :: u8) = mask 8" "(31 :: u8) = mask 5" by (simp_all add: mask_eq_exp_minus_1)
  have n: "small_image 58 ! (i div 8) = (if i div 8 < 7 then 255 else if i div 8 = 7 then 31 else 0)"
    using that by (simp add: small_image_def nth_append nth_Cons')
  consider "i < 56" | "i div 8 = 7" | "8 \<le> i div 8" by (cases "i < 56"; cases "i div 8 = 7") auto
  then show ?thesis
  proof cases
    case 2
    then have "i mod 8 < 5 \<longleftrightarrow> i < 61" using div_mult_mod_eq [of i 8] by linarith
    with 2 n show ?thesis unfolding bm_clear_bit by (simp only: m) (auto simp: bit_mask_iff)
  next
    case 1
    with n show ?thesis unfolding bm_clear_bit by (simp only: m) (auto simp: bit_mask_iff)
  next
    case 3
    with n show ?thesis unfolding bm_clear_bit by auto
  qed
qed

lemma small_used: "b < 1000 \<Longrightarrow> used small_image small_sb b \<longleftrightarrow> unat b < 61"
  using small_map_bit [of "unat b"] by (auto simp: used_def small_BBLOCK unat_mod_distrib word_less_nat_alt)

lemma small_IBLOCK: "i < 200 \<Longrightarrow> 32 \<le> unat (IBLOCK i small_sb) \<and> unat (IBLOCK i small_sb) < 57"
proof -
  assume "i < 200"
  then have "unat (i div 8) < 25" by (simp add: unat_div_distrib word_less_nat_alt)
  then show ?thesis by (simp add: IBLOCK_def small_sb_def unat_word_ariths)
qed

lemma small_metab: "x \<in> metab boot_fstate \<Longrightarrow> unat x < 59"
  using small_BBLOCK logreg_2 [OF boot_fstate_ok(6), of x] small_IBLOCK by (fastforce simp: metab_def boot_fstate_ok small_sb_def)

lemma boot_fs_ready:
  assumes "k \<le> 28"
  shows "fs_ready k boot_fstate"
proof -
  note b = boot_fstate_ok and ib = small_IBLOCK
  have m: "x < 1000 \<and> used small_image small_sb x" if "x \<in> metab boot_fstate" for x
    using small_metab [OF that] small_used [of x] by (force simp: word_less_nat_alt)
  have sz: "sb_size small_sb = 1000" "sb_ninodes small_sb = 200" by (simp_all add: small_sb_def)
  have "58 \<notin> logreg boot_fstate" using logreg_2 [OF b(6), of 58] by auto
  then have r: "BBLOCK x small_sb \<notin> logreg boot_fstate \<union> {1}" if "x < 1000" for x using small_BBLOCK [OF that] by simp
  have "IBLOCK i small_sb \<notin> logreg boot_fstate \<union> {1, 58}" if "i < 200" for i
    using ib [OF that] logreg_2 [OF b(6), of "IBLOCK i small_sb"] by auto
  then have "IBLOCK i small_sb \<notin> logreg boot_fstate \<union> {1} \<union> {BBLOCK b small_sb | b. b < 1000}" if "i < 200" for i
    using that small_BBLOCK by auto
  moreover have "decode_sb (small_image 1) = small_sb" by (simp add: small_image_def zero_block_def decode_encode_sb)
  ultimately have "fsmap_ok boot_fstate" using m r unfolding fsmap_ok_def b sz by blast
  then show ?thesis using assms b by (simp add: fs_ready_def ready_def locked_ok_def ran_def)
qed

lemma balloc_correct_witness:
  "\<exists>t u. balloc 1 boot_fstate = Ret 61 t \<and> blk t 61 = zero_block \<and> bfree 1 61 t = Ret () u \<and> blk u 58 = small_image 58"
proof -
  note b = boot_fstate_ok and c = balloc_correct [OF boot_fs_ready [of 3, simplified]]
  have "\<not> used small_image small_sb 61" using small_used [of 61] by simp
  then have "\<exists>b < sb_size small_sb. \<not> used small_image small_sb b" by (intro exI [of _ 61]) (simp add: small_sb_def)
  then obtain a t u where a: "balloc 1 boot_fstate = Ret a t" "a < 1000" "\<not> used small_image small_sb a"
    "\<forall>b < a. used small_image small_sb b" "blk t a = replicate 512 0" "bfree 1 a t = Ret () u" "blk u = small_image(a := replicate 512 0)"
    using c by (auto simp: b small_sb_def)
  have "\<not> unat a < 61" using small_used [OF a(2)] a(3) by blast
  moreover have "\<not> 61 < a" using a(4) \<open>\<not> used small_image small_sb 61\<close> by blast
  ultimately have "a = 61" by (simp add: word_unat_eq_iff word_less_nat_alt)
  then show ?thesis using a by (simp add: zero_block_def)
qed

end
