(* ===== verification/Inode.thy ===== *)
theory Inode
  imports Balloc
begin

text \<open>
  Inodes (\<^verbatim>\<open>fs.c\<close>, sections Inodes and Inode content): the cache of in-memory inodes, the on-disk inodes in
  their bytes, the mapping from file blocks to disk blocks, truncation, reading and writing, and the
  console device behind \<^verbatim>\<open>devsw\<close> (\<^verbatim>\<open>consoleread\<close>, \<^verbatim>\<open>consolewrite\<close> of \<^verbatim>\<open>console.c\<close>), which locks inodes.
  Inode pointers are indices into the cache.
\<close>

subsection \<open>The inode cache\<close>

definition upd_inode :: "nat \<Rightarrow> (inode \<Rightarrow> inode) \<Rightarrow> 'a fstate_scheme \<Rightarrow> 'a fstate_scheme" where
  "upd_inode i f s = s\<lparr>inodes := (inodes s)(i := f (inodes s i))\<rparr>"

definition upd_d :: "nat \<Rightarrow> (dinode \<Rightarrow> dinode) \<Rightarrow> 'a fstate_scheme \<Rightarrow> 'a fstate_scheme" where
  "upd_d i f s = upd_inode i (\<lambda>x. x\<lparr>i_d := f (i_d x)\<rparr>) s"

primrec iinit_loop :: "nat list \<Rightarrow> 'a fstate_scheme \<Rightarrow> 'a fstate_scheme" where
  "iinit_loop [] s = s"
| "iinit_loop (i # is) s = iinit_loop is (initsleeplock (InodeLock i) ''inode'' s)"

definition iinit :: "u32 \<Rightarrow> 'a fstate_scheme \<Rightarrow> ('a fstate_scheme, unit) outcome" where
  "iinit dev s =
     obind (readsb dev (iinit_loop [0..<NINODE] (initlock ICACHE ''icache'' s))) (\<lambda>sb s.
     cprintf (Some (str ''sb: size %d nblocks %d ninodes %d nlog %d logstart %d inodestart %d bmap start %d'' @ [10]))
       [ANum (sb_size sb), ANum (sb_nblocks sb), ANum (sb_ninodes sb), ANum (sb_nlog sb), ANum (sb_logstart sb),
        ANum (sb_inodestart sb), ANum (sb_bmapstart sb)] (s\<lparr>fs_sb := sb\<rparr>))"

text \<open>The scan of \<^verbatim>\<open>iget\<close>: the entry of the inode, or else the first entry that is not in use.\<close>

definition iget_hit :: "u32 \<Rightarrow> u32 \<Rightarrow> 'a fstate_scheme \<Rightarrow> nat option" where
  "iget_hit dev inum s = find (\<lambda>i. 0 < i_ref (inodes s i) \<and> i_dev (inodes s i) = dev \<and> i_inum (inodes s i) = inum) [0..<NINODE]"

definition iget_empty :: "'a fstate_scheme \<Rightarrow> nat option" where
  "iget_empty s = find (\<lambda>i. i_ref (inodes s i) = 0) [0..<NINODE]"

definition iget :: "u32 \<Rightarrow> u32 \<Rightarrow> 'a fstate_scheme \<Rightarrow> ('a fstate_scheme, nat) outcome" where
  "iget dev inum s =
     obind (acquire ICACHE s) (\<lambda>_ s.
     case iget_hit dev inum s of
       Some i \<Rightarrow> obind (release ICACHE (upd_inode i (\<lambda>x. x\<lparr>i_ref := i_ref x + 1\<rparr>) s)) (\<lambda>_. Ret i)
     | None \<Rightarrow>
         (case iget_empty s of
            None \<Rightarrow> Panic ''iget: no inodes''
          | Some i \<Rightarrow>
              obind (release ICACHE (upd_inode i (\<lambda>x. x\<lparr>i_dev := dev, i_inum := inum, i_ref := 1, i_valid := False\<rparr>) s))
                (\<lambda>_. Ret i)))"

primrec ialloc_loop :: "u32 \<Rightarrow> u16 \<Rightarrow> nat list \<Rightarrow> 'a fstate_scheme \<Rightarrow> ('a fstate_scheme, nat) outcome" where
  "ialloc_loop dev ty [] s = Panic ''ialloc: no inodes''"
| "ialloc_loop dev ty (inum # is) s =
     obind (bread dev (IBLOCK (of_nat inum) (fs_sb s)) s) (\<lambda>bp s.
     let d = b_data (bufs s bp); off = ioff (of_nat inum)
     in if d_type (get_dinode d off) = 0
        then obind (log_write bp (set_data bp (put_dinode off (zero_dinode\<lparr>d_type := ty\<rparr>) d) s)) (\<lambda>_ s.
             obind (brelse bp s) (\<lambda>_. iget dev (of_nat inum)))
        else obind (brelse bp s) (\<lambda>_. ialloc_loop dev ty is))"

definition ialloc :: "u32 \<Rightarrow> u16 \<Rightarrow> 'a fstate_scheme \<Rightarrow> ('a fstate_scheme, nat) outcome" where
  "ialloc dev ty s = ialloc_loop dev ty [1..<unat (sb_ninodes (fs_sb s))] s"

definition iupdate :: "nat \<Rightarrow> 'a fstate_scheme \<Rightarrow> ('a fstate_scheme, unit) outcome" where
  "iupdate ip s =
     obind (bread (i_dev (inodes s ip)) (IBLOCK (i_inum (inodes s ip)) (fs_sb s)) s) (\<lambda>bp s.
     let d = put_dinode (ioff (i_inum (inodes s ip))) (i_d (inodes s ip)) (b_data (bufs s bp))
     in obind (log_write bp (set_data bp d s)) (\<lambda>_. brelse bp))"

definition idup :: "nat \<Rightarrow> 'a fstate_scheme \<Rightarrow> ('a fstate_scheme, nat) outcome" where
  "idup ip s =
     obind (acquire ICACHE s) (\<lambda>_ s.
     obind (release ICACHE (upd_inode ip (\<lambda>x. x\<lparr>i_ref := i_ref x + 1\<rparr>) s)) (\<lambda>_. Ret ip))"

definition ilock_read :: "nat \<Rightarrow> 'a fstate_scheme \<Rightarrow> ('a fstate_scheme, unit) outcome" where
  "ilock_read ip s =
     (if i_valid (inodes s ip) then Ret () s
      else
        obind (bread (i_dev (inodes s ip)) (IBLOCK (i_inum (inodes s ip)) (fs_sb s)) s) (\<lambda>bp s.
        let x = get_dinode (b_data (bufs s bp)) (ioff (i_inum (inodes s ip)))
        in obind (brelse bp (upd_d ip (\<lambda>_. x) s)) (\<lambda>_ s.
           let s = upd_inode ip (\<lambda>x. x\<lparr>i_valid := True\<rparr>) s
           in if d_type (i_d (inodes s ip)) = 0 then Panic ''ilock: no type'' else Ret () s)))"

definition ilock :: "nat \<Rightarrow> 'a fstate_scheme \<Rightarrow> ('a fstate_scheme, unit) outcome" where
  "ilock ip s =
     (if i_ref (inodes s ip) < 1 then Panic ''ilock''
      else obind (acquiresleep (InodeLock ip) s) (\<lambda>_. ilock_read ip))"

definition ilock_resume :: "nat \<Rightarrow> 'a fstate_scheme \<Rightarrow> ('a fstate_scheme, unit) outcome" where
  "ilock_resume ip s = obind (acquiresleep_resume (InodeLock ip) s) (\<lambda>_. ilock_read ip)"

definition iunlock :: "nat \<Rightarrow> 'a fstate_scheme \<Rightarrow> ('a fstate_scheme, unit) outcome" where
  "iunlock ip s =
     obind (holdingsleep (InodeLock ip) s) (\<lambda>h s.
     if \<not> h \<or> i_ref (inodes s ip) < 1 then Panic ''iunlock'' else releasesleep (InodeLock ip) s)"

subsection \<open>Inode content\<close>

definition addr_at :: "nat \<Rightarrow> nat \<Rightarrow> 'a fstate_scheme \<Rightarrow> u32" where
  "addr_at ip i s = d_addrs (i_d (inodes s ip)) ! i"

definition set_addr :: "nat \<Rightarrow> nat \<Rightarrow> u32 \<Rightarrow> 'a fstate_scheme \<Rightarrow> 'a fstate_scheme" where
  "set_addr ip i a s = upd_d ip (\<lambda>x. x\<lparr>d_addrs := (d_addrs x)[i := a]\<rparr>) s"

text \<open>The address in slot \<open>i\<close> of the inode, allocating a block when there is none.\<close>

definition bmap_slot :: "nat \<Rightarrow> nat \<Rightarrow> 'a fstate_scheme \<Rightarrow> ('a fstate_scheme, u32) outcome" where
  "bmap_slot ip i s =
     (if addr_at ip i s = 0
      then obind (balloc (i_dev (inodes s ip)) s) (\<lambda>a s. Ret a (set_addr ip i a s))
      else Ret (addr_at ip i s) s)"

text \<open>The address in entry \<open>bn\<close> of the indirect block \<open>addr\<close>, allocating a block when there is none.\<close>

definition bmap_entry :: "nat \<Rightarrow> nat \<Rightarrow> u32 \<Rightarrow> 'a fstate_scheme \<Rightarrow> ('a fstate_scheme, u32) outcome" where
  "bmap_entry ip bn addr s =
     obind (bread (i_dev (inodes s ip)) addr s) (\<lambda>bp s.
     let addr = get32 (b_data (bufs s bp)) (4 * bn)
     in obind (if addr = 0
          then obind (balloc (i_dev (inodes s ip)) s) (\<lambda>addr s.
               obind (log_write bp (set_data bp (put32 (4 * bn) addr (b_data (bufs s bp))) s)) (\<lambda>_. Ret addr))
          else Ret addr s) (\<lambda>addr s. obind (brelse bp s) (\<lambda>_. Ret addr)))"

definition bmap :: "nat \<Rightarrow> u32 \<Rightarrow> 'a fstate_scheme \<Rightarrow> ('a fstate_scheme, u32) outcome" where
  "bmap ip bn s =
     (if unat bn < NDIRECT then bmap_slot ip (unat bn) s
      else let bn = unat bn - NDIRECT
           in if bn < NINDIRECT then obind (bmap_slot ip NDIRECT s) (\<lambda>addr. bmap_entry ip bn addr)
              else Panic ''bmap: out of range'')"

primrec itrunc_direct :: "nat \<Rightarrow> nat list \<Rightarrow> 'a fstate_scheme \<Rightarrow> ('a fstate_scheme, unit) outcome" where
  "itrunc_direct ip [] s = Ret () s"
| "itrunc_direct ip (i # is) s =
     (if addr_at ip i s \<noteq> 0
      then obind (bfree (i_dev (inodes s ip)) (addr_at ip i s) s) (\<lambda>_ s. itrunc_direct ip is (set_addr ip i 0 s))
      else itrunc_direct ip is s)"

primrec itrunc_indirect :: "nat \<Rightarrow> nat \<Rightarrow> nat list \<Rightarrow> 'a fstate_scheme \<Rightarrow> ('a fstate_scheme, unit) outcome" where
  "itrunc_indirect ip bp [] s = Ret () s"
| "itrunc_indirect ip bp (j # js) s =
     (let a = get32 (b_data (bufs s bp)) (4 * j)
      in if a \<noteq> 0 then obind (bfree (i_dev (inodes s ip)) a s) (\<lambda>_. itrunc_indirect ip bp js)
         else itrunc_indirect ip bp js s)"

definition itrunc :: "nat \<Rightarrow> 'a fstate_scheme \<Rightarrow> ('a fstate_scheme, unit) outcome" where
  "itrunc ip s =
     obind (itrunc_direct ip [0..<NDIRECT] s) (\<lambda>_ s.
     obind (if addr_at ip NDIRECT s \<noteq> 0
            then obind (bread (i_dev (inodes s ip)) (addr_at ip NDIRECT s) s) (\<lambda>bp s.
                 obind (itrunc_indirect ip bp [0..<NINDIRECT] s) (\<lambda>_ s.
                 obind (brelse bp s) (\<lambda>_ s.
                 obind (bfree (i_dev (inodes s ip)) (addr_at ip NDIRECT s) s) (\<lambda>_ s. Ret () (set_addr ip NDIRECT 0 s)))))
            else Ret () s) (\<lambda>_ s.
     iupdate ip (upd_d ip (\<lambda>x. x\<lparr>d_size := 0\<rparr>) s)))"

definition iput :: "nat \<Rightarrow> 'a fstate_scheme \<Rightarrow> ('a fstate_scheme, unit) outcome" where
  "iput ip s =
     obind (acquire ICACHE s) (\<lambda>_ s.
     obind (if i_ref (inodes s ip) = 1 \<and> i_valid (inodes s ip) \<and> d_nlink (i_d (inodes s ip)) = 0
            then obind (release ICACHE s) (\<lambda>_ s.
                 obind (itrunc ip s) (\<lambda>_ s.
                 obind (iupdate ip (upd_d ip (\<lambda>x. x\<lparr>d_type := 0\<rparr>) s)) (\<lambda>_ s.
                 obind (acquire ICACHE s) (\<lambda>_ s. Ret () (upd_inode ip (\<lambda>x. x\<lparr>i_valid := False\<rparr>) s)))))
            else Ret () s) (\<lambda>_ s.
     release ICACHE (upd_inode ip (\<lambda>x. x\<lparr>i_ref := i_ref x - 1\<rparr>) s)))"

definition iunlockput :: "nat \<Rightarrow> 'a fstate_scheme \<Rightarrow> ('a fstate_scheme, unit) outcome" where
  "iunlockput ip s = obind (iunlock ip s) (\<lambda>_. iput ip)"

record stat =
  st_type :: u16
  st_dev :: u32
  st_ino :: u32
  st_nlink :: u16
  st_size :: u32

definition stati :: "nat \<Rightarrow> 'a fstate_scheme \<Rightarrow> stat" where
  "stati ip s =
     (let x = inodes s ip
      in \<lparr>st_type = d_type (i_d x), st_dev = i_dev x, st_ino = i_inum x, st_nlink = d_nlink (i_d x), st_size = d_size (i_d x)\<rparr>)"

subsection \<open>Where data comes from and goes to\<close>

text \<open>
  The pointer argument of \<^verbatim>\<open>readi\<close> and \<^verbatim>\<open>writei\<close>: a local variable of the calling kernel routine, whose
  bytes are passed as values, an address of the process, or a kernel address.
\<close>

datatype dest = Local | User u32 | Kern u32

datatype source = Bytes "u8 list" | FromUser u32

definition copy_out :: "dest \<Rightarrow> nat \<Rightarrow> u8 list \<Rightarrow> 'a kstate_scheme \<Rightarrow> 'a kstate_scheme option" where
  "copy_out dst off bs s =
     (case dst of
        Local \<Rightarrow> Some s
      | User a \<Rightarrow> uwrite (a + of_nat off) bs s
      | Kern a \<Rightarrow> Some (s\<lparr>mem := store_bytes (a + of_nat off) bs (mem s)\<rparr>))"

definition copy_in :: "source \<Rightarrow> nat \<Rightarrow> nat \<Rightarrow> 'a kstate_scheme \<Rightarrow> u8 list option" where
  "copy_in src off n s =
     (case src of Bytes bs \<Rightarrow> Some (take n (drop off bs)) | FromUser a \<Rightarrow> uread n (a + of_nat off) s)"

subsection \<open>The console device\<close>

definition console_done :: "nat \<Rightarrow> int \<Rightarrow> 'a fstate_scheme \<Rightarrow> ('a fstate_scheme, int) outcome" where
  "console_done ip r s = obind (release CONS s) (\<lambda>_ s. obind (ilock ip s) (\<lambda>_. Ret r))"

text \<open>The loop of \<^verbatim>\<open>consoleread\<close> with \<open>n\<close> bytes still wanted.\<close>

primrec consoleread_loop :: "nat \<Rightarrow> nat \<Rightarrow> dest \<Rightarrow> nat \<Rightarrow> 'a fstate_scheme \<Rightarrow> ('a fstate_scheme, int) outcome" where
  "consoleread_loop 0 ip dst target s = console_done ip (int target) s"
| "consoleread_loop (Suc k) ip dst target s =
     (if in_r s = in_w s
      then if cur_killed s then console_done ip (- 1) s
           else obind (sleep ChInput CONS (save_locals [int (Suc k)] s)) (\<lambda>_. Ret 0)
      else
        let c = in_buf s ! unat (in_r s mod 128); s = s\<lparr>in_r := in_r s + 1\<rparr>
        in if c = 4
           then console_done ip (int target - int (Suc k)) (if Suc k < target then s\<lparr>in_r := in_r s - 1\<rparr> else s)
           else case copy_out dst (target - Suc k) [c] s of
               None \<Rightarrow> Panic ''trap''
             | Some s \<Rightarrow>
                 if c = 10 then console_done ip (int target - int k) s
                 else consoleread_loop k ip dst target s)"

definition consoleread :: "nat \<Rightarrow> dest \<Rightarrow> int \<Rightarrow> 'a fstate_scheme \<Rightarrow> ('a fstate_scheme, int) outcome" where
  "consoleread ip dst n s =
     obind (iunlock ip s) (\<lambda>_ s. obind (acquire CONS s) (\<lambda>_. consoleread_loop (nat n) ip dst (nat n)))"

definition consoleread_resume :: "nat \<Rightarrow> dest \<Rightarrow> int \<Rightarrow> 'a fstate_scheme \<Rightarrow> ('a fstate_scheme, int) outcome" where
  "consoleread_resume ip dst n s =
     obind (sleep_resume CONS s) (\<lambda>_ s. consoleread_loop (nat (hd (saved_locals s))) ip dst (nat n) s)"

primrec consolewrite_loop :: "u8 list \<Rightarrow> 'a fstate_scheme \<Rightarrow> ('a fstate_scheme, unit) outcome" where
  "consolewrite_loop [] s = Ret () s"
| "consolewrite_loop (c # cs) s = obind (consputc (int (unat c)) s) (\<lambda>_. consolewrite_loop cs)"

definition consolewrite :: "nat \<Rightarrow> source \<Rightarrow> int \<Rightarrow> 'a fstate_scheme \<Rightarrow> ('a fstate_scheme, int) outcome" where
  "consolewrite ip src n s =
     obind (iunlock ip s) (\<lambda>_ s.
     obind (acquire CONS s) (\<lambda>_ s.
     case copy_in src 0 (nat n) s of
       None \<Rightarrow> Panic ''trap''
     | Some bs \<Rightarrow> obind (consolewrite_loop bs s) (\<lambda>_. console_done ip n)))"

definition consoleinit :: "'a fstate_scheme \<Rightarrow> 'a fstate_scheme" where
  "consoleinit s = (initlock CONS ''console'' s)\<lparr>devsw := (devsw s)(1 := True), cons_locking := True\<rparr>"

subsection \<open>Reading and writing\<close>

function readi_loop :: "nat \<Rightarrow> dest \<Rightarrow> nat \<Rightarrow> nat \<Rightarrow> nat \<Rightarrow> 'a fstate_scheme \<Rightarrow> ('a fstate_scheme, u8 list) outcome" where
  "readi_loop ip dst off tot n s =
     (if tot < n
      then obind (bmap ip (of_nat off div BSIZE) s) (\<lambda>addr s.
           obind (bread (i_dev (inodes s ip)) addr s) (\<lambda>bp s.
           let m = min (n - tot) (512 - off mod 512); bs = take m (drop (off mod 512) (b_data (bufs s bp)))
           in case copy_out dst tot bs s of
                None \<Rightarrow> Panic ''trap''
              | Some s \<Rightarrow>
                  obind (brelse bp s) (\<lambda>_ s.
                  obind (readi_loop ip dst (off + m) (tot + m) n s) (\<lambda>rest. Ret (bs @ rest)))))
      else Ret [] s)"
  by pat_completeness auto
termination
  by (relation "measure (\<lambda>(ip, x, off, tot, n, s). n - tot)") auto

declare readi_loop.simps [simp del]

definition dev_ok :: "nat \<Rightarrow> 'a fstate_scheme \<Rightarrow> bool" where
  "dev_ok ip s \<longleftrightarrow>
     (let major = sint (d_major (i_d (inodes s ip))) in \<not> (major < 0 \<or> major \<ge> NDEV \<or> \<not> devsw s major))"

text \<open>The value is the result and, for a local destination, the bytes that were read.\<close>

definition readi :: "nat \<Rightarrow> dest \<Rightarrow> u32 \<Rightarrow> u32 \<Rightarrow> 'a fstate_scheme \<Rightarrow> ('a fstate_scheme, int \<times> u8 list) outcome" where
  "readi ip dst off n s =
     (let sz = d_size (i_d (inodes s ip))
      in if d_type (i_d (inodes s ip)) = T_DEV
         then if \<not> dev_ok ip s then Ret (- 1, []) s
              else obind (consoleread ip dst (sint n) s) (\<lambda>r. Ret (r, []))
         else if off > sz \<or> off + n < off then Ret (- 1, []) s
         else let n = (if off + n > sz then sz - off else n)
              in obind (readi_loop ip dst (unat off) 0 (unat n) s) (\<lambda>bs. Ret (sint n, bs)))"

function writei_loop :: "nat \<Rightarrow> source \<Rightarrow> nat \<Rightarrow> nat \<Rightarrow> nat \<Rightarrow> 'a fstate_scheme \<Rightarrow> ('a fstate_scheme, unit) outcome" where
  "writei_loop ip src off tot n s =
     (if tot < n
      then obind (bmap ip (of_nat off div BSIZE) s) (\<lambda>addr s.
           obind (bread (i_dev (inodes s ip)) addr s) (\<lambda>bp s.
           let m = min (n - tot) (512 - off mod 512); d = b_data (bufs s bp)
           in case copy_in src tot m s of
                None \<Rightarrow> Panic ''trap''
              | Some bs \<Rightarrow>
                  obind (log_write bp (set_data bp (take (off mod 512) d @ bs @ drop (off mod 512 + m) d) s)) (\<lambda>_ s.
                  obind (brelse bp s) (\<lambda>_. writei_loop ip src (off + m) (tot + m) n))))
      else Ret () s)"
  by pat_completeness auto
termination
  by (relation "measure (\<lambda>(ip, x, off, tot, n, s). n - tot)") auto

declare writei_loop.simps [simp del]

definition writei :: "nat \<Rightarrow> source \<Rightarrow> u32 \<Rightarrow> u32 \<Rightarrow> 'a fstate_scheme \<Rightarrow> ('a fstate_scheme, int) outcome" where
  "writei ip src off n s =
     (if d_type (i_d (inodes s ip)) = T_DEV
      then if \<not> dev_ok ip s then Ret (- 1) s else consolewrite ip src (sint n) s
      else if off > d_size (i_d (inodes s ip)) \<or> off + n < off then Ret (- 1) s
      else if off + n > of_nat MAXFILE * BSIZE then Ret (- 1) s
      else
        obind (writei_loop ip src (unat off) 0 (unat n) s) (\<lambda>_ s.
        obind (if n > 0 \<and> off + n > d_size (i_d (inodes s ip))
               then iupdate ip (upd_d ip (\<lambda>x. x\<lparr>d_size := off + n\<rparr>) s) else Ret () s) (\<lambda>_. Ret (sint n))))"

end
