(* ===== verification/Dir.thy ===== *)
theory Dir
  imports Inode
begin

text \<open>
  Directories and path names (\<^verbatim>\<open>fs.c\<close>, sections Directories and Paths). A directory is a file of 16-byte
  entries; a name is an array of 14 bytes, ended early by a zero byte. Paths are C strings, given by
  their bytes. What the array \<^verbatim>\<open>name\<close> of \<^verbatim>\<open>namei\<close> holds at first never shows, since a name shorter than the
  array ends with a zero byte; it is taken to be zeros.
\<close>

subsection \<open>Directories\<close>

text \<open>\<^verbatim>\<open>strncmp\<close> and \<^verbatim>\<open>strncpy\<close> of \<^verbatim>\<open>string.c\<close> on local arrays; a C string is read as if followed by zero bytes.\<close>

fun strncmp_arr :: "nat \<Rightarrow> u8 list \<Rightarrow> u8 list \<Rightarrow> int" where
  "strncmp_arr 0 p q = 0"
| "strncmp_arr (Suc n) p q =
     (let x = (case p of [] \<Rightarrow> 0 | x # _ \<Rightarrow> x); y = (case q of [] \<Rightarrow> 0 | y # _ \<Rightarrow> y)
      in if x \<noteq> 0 \<and> x = y then strncmp_arr n (tl p) (tl q) else int (unat x) - int (unat y))"

definition strncpy_arr :: "nat \<Rightarrow> u8 list \<Rightarrow> u8 list" where
  "strncpy_arr n t = (let z = takeWhile (\<lambda>x. x \<noteq> 0) t in take n (z @ replicate n 0))"

definition namecmp :: "u8 list \<Rightarrow> u8 list \<Rightarrow> int" where
  "namecmp s t = strncmp_arr DIRSIZ s t"

text \<open>The scan over the entries at the given offsets; the value is the inode and the offset of the entry.\<close>

primrec dirlookup_loop :: "nat \<Rightarrow> u8 list \<Rightarrow> nat list \<Rightarrow> 'a fstate_scheme \<Rightarrow> ('a fstate_scheme, (nat \<times> u32) option) outcome" where
  "dirlookup_loop dp name [] s = Ret None s"
| "dirlookup_loop dp name (off # offs) s =
     obind (readi dp Local (of_nat off) 16 s) (\<lambda>(r, de) s.
     if r \<noteq> 16 then Panic ''dirlink read''
     else if de_inum de = 0 then dirlookup_loop dp name offs s
     else if namecmp name (de_name de) = 0
     then obind (iget (i_dev (inodes s dp)) (ucast (de_inum de)) s) (\<lambda>ip. Ret (Some (ip, of_nat off)))
     else dirlookup_loop dp name offs s)"

definition dir_offs :: "nat \<Rightarrow> 'a fstate_scheme \<Rightarrow> nat list" where
  "dir_offs dp s = map (\<lambda>i. i * 16) [0..<(unat (d_size (i_d (inodes s dp))) + 15) div 16]"

definition dirlookup :: "nat \<Rightarrow> u8 list \<Rightarrow> 'a fstate_scheme \<Rightarrow> ('a fstate_scheme, (nat \<times> u32) option) outcome" where
  "dirlookup dp name s =
     (if d_type (i_d (inodes s dp)) \<noteq> T_DIR then Panic ''dirlookup not DIR''
      else dirlookup_loop dp name (dir_offs dp s) s)"

text \<open>The search of \<^verbatim>\<open>dirlink\<close> for a free entry; without one, the offset behind the last entry.\<close>

primrec dirlink_scan :: "nat \<Rightarrow> nat list \<Rightarrow> 'a fstate_scheme \<Rightarrow> ('a fstate_scheme, nat) outcome" where
  "dirlink_scan dp [] s = Ret (length (dir_offs dp s) * 16) s"
| "dirlink_scan dp (off # offs) s =
     obind (readi dp Local (of_nat off) 16 s) (\<lambda>(r, de) s.
     if r \<noteq> 16 then Panic ''dirlink read''
     else if de_inum de = 0 then Ret off s else dirlink_scan dp offs s)"

definition dirlink :: "nat \<Rightarrow> u8 list \<Rightarrow> u32 \<Rightarrow> 'a fstate_scheme \<Rightarrow> ('a fstate_scheme, int) outcome" where
  "dirlink dp name inum s =
     obind (dirlookup dp name s) (\<lambda>r s.
     case r of
       Some (ip, _) \<Rightarrow> obind (iput ip s) (\<lambda>_. Ret (- 1))
     | None \<Rightarrow>
         obind (dirlink_scan dp (dir_offs dp s) s) (\<lambda>off s.
         obind (writei dp (Bytes (mk_dirent (ucast inum) (strncpy_arr DIRSIZ name))) (of_nat off) 16 s) (\<lambda>r s.
         if r \<noteq> 16 then Panic ''dirlink'' else Ret 0 s)))"

subsection \<open>Paths\<close>

abbreviation (input) slash :: u8 where "slash \<equiv> 47"

text \<open>The first element of the path, as it lies in the array \<^verbatim>\<open>name\<close> afterwards, and the rest of the path.\<close>

definition skipelem :: "u8 list \<Rightarrow> u8 list \<Rightarrow> (u8 list \<times> u8 list) option" where
  "skipelem path name =
     (let p = dropWhile (\<lambda>c. c = slash) path
      in if p = [] then None
         else let e = takeWhile (\<lambda>c. c \<noteq> slash) p; r = dropWhile (\<lambda>c. c \<noteq> slash) p;
                  nm = (if length e \<ge> DIRSIZ then take DIRSIZ e @ drop DIRSIZ name else e @ 0 # drop (length e + 1) name)
              in Some (nm, dropWhile (\<lambda>c. c = slash) r))"

lemma skipelem_shorter: "skipelem path name = Some (nm, rest) \<Longrightarrow> length rest < length path"
proof -
  assume a: "skipelem path name = Some (nm, rest)"
  define p where "p = dropWhile (\<lambda>c. c = slash) path"
  have p: "p \<noteq> []" "rest = dropWhile (\<lambda>c. c = slash) (dropWhile (\<lambda>c. c \<noteq> slash) p)"
    using a by (auto simp: skipelem_def p_def Let_def split: if_splits)
  have "hd p \<noteq> slash" using p(1) hd_dropWhile unfolding p_def by blast
  then obtain q where "dropWhile (\<lambda>c. c \<noteq> slash) p = dropWhile (\<lambda>c. c \<noteq> slash) q" "length q < length p"
    using p(1) by (cases p) auto
  then have "length rest < length p"
    using p(2) length_dropWhile_le [of "\<lambda>c. c = slash" "dropWhile (\<lambda>c. c \<noteq> slash) q"] length_dropWhile_le [of "\<lambda>c. c \<noteq> slash" q] by simp
  then show ?thesis using length_dropWhile_le [of "\<lambda>c. c = slash" path] by (simp add: p_def)
qed

function namex_loop :: "nat \<Rightarrow> u8 list \<Rightarrow> bool \<Rightarrow> u8 list \<Rightarrow> 'a fstate_scheme \<Rightarrow> ('a fstate_scheme, (nat \<times> u8 list) option) outcome" where
  "namex_loop ip path parent name s =
     (case skipelem path name of
        None \<Rightarrow> if parent then obind (iput ip s) (\<lambda>_. Ret None) else Ret (Some (ip, name)) s
      | Some (nm, rest) \<Rightarrow>
          obind (ilock ip s) (\<lambda>_ s.
          if d_type (i_d (inodes s ip)) \<noteq> T_DIR then obind (iunlockput ip s) (\<lambda>_. Ret None)
          else if parent \<and> rest = [] then obind (iunlock ip s) (\<lambda>_. Ret (Some (ip, nm)))
          else obind (dirlookup ip nm s) (\<lambda>r s.
               case r of
                 None \<Rightarrow> obind (iunlockput ip s) (\<lambda>_. Ret None)
               | Some (next, _) \<Rightarrow> obind (iunlockput ip s) (\<lambda>_. namex_loop next rest parent nm))))"
  by pat_completeness auto
termination
  by (relation "measure (\<lambda>(ip, path, parent, name, s). length path)") (auto dest: skipelem_shorter)

declare namex_loop.simps [simp del]

definition namex :: "u8 list \<Rightarrow> bool \<Rightarrow> 'a fstate_scheme \<Rightarrow> ('a fstate_scheme, (nat \<times> u8 list) option) outcome" where
  "namex path parent s =
     obind (if path \<noteq> [] \<and> hd path = slash then iget ROOTDEV ROOTINO s
            else case p_cwd (procs s ! the (curproc s)) of None \<Rightarrow> Undef | Some c \<Rightarrow> idup c s) (\<lambda>ip.
     namex_loop ip path parent (replicate DIRSIZ 0))"

definition namei :: "u8 list \<Rightarrow> 'a fstate_scheme \<Rightarrow> ('a fstate_scheme, nat option) outcome" where
  "namei path s = obind (namex path False s) (\<lambda>r. Ret (map_option fst r))"

definition nameiparent :: "u8 list \<Rightarrow> 'a fstate_scheme \<Rightarrow> ('a fstate_scheme, (nat \<times> u8 list) option) outcome" where
  "nameiparent path s = namex path True s"

end
