(* ===== verification/Bmap.thy ===== *)
theory Bmap
  imports Dir
begin

text \<open>
  The blocks of a file, reached through the twelve direct addresses and the indirect block of its inode:
  what makes an inode well formed, and what \<^verbatim>\<open>bmap\<close> does through the buffer cache and the log. It keeps the
  inode well formed and touches no block of another file.
\<close>

subsection \<open>Changing the inode cache\<close>

lemma bio_upd_inodes [simp]:
  "blk (s\<lparr>inodes := f\<rparr>) = blk s" "dirtyb (s\<lparr>inodes := f\<rparr>) = dirtyb s" "lockd (s\<lparr>inodes := f\<rparr>) = lockd s"
  "bio_inv (s\<lparr>inodes := f\<rparr>) = bio_inv s" "idle (s\<lparr>inodes := f\<rparr>) = idle s"
  by (rule bio_same; simp add: kern_ok_def cpu_ok_def)+

lemma fs_upd_inodes [simp]:
  "logreg (s\<lparr>inodes := f\<rparr>) = logreg s" "log_ok (s\<lparr>inodes := f\<rparr>) = log_ok s" "metab (s\<lparr>inodes := f\<rparr>) = metab s"
  "ready k (s\<lparr>inodes := f\<rparr>) = ready k s" "fs_ready k (s\<lparr>inodes := f\<rparr>) = fs_ready k s"
proof -
  show l: "logreg (s\<lparr>inodes := f\<rparr>) = logreg s" by (simp add: logreg_def)
  then show o: "log_ok (s\<lparr>inodes := f\<rparr>) = log_ok s" "metab (s\<lparr>inodes := f\<rparr>) = metab s"
    by (simp_all add: log_ok_def layout_def metab_def)
  then show "ready k (s\<lparr>inodes := f\<rparr>) = ready k s" "fs_ready k (s\<lparr>inodes := f\<rparr>) = fs_ready k s"
    using l by (simp_all add: fs_ready_def ready_def fsmap_ok_def locked_ok_def)
qed

text \<open>Steps of a transaction that may also change the inode cache.\<close>

definition ftxn :: "nat \<Rightarrow> 'a fstate_scheme \<Rightarrow> 'a fstate_scheme \<Rightarrow> bool" where
  "ftxn m s t \<longleftrightarrow> txn m (s\<lparr>inodes := inodes t\<rparr>) t"

lemma lenv_inodes: "lenv s t \<Longrightarrow> lenv (s\<lparr>inodes := f\<rparr>) (t\<lparr>inodes := f\<rparr>)"
proof -
  assume "lenv s t"
  then obtain n bl ps sl bf dk h where
    t: "t = s\<lparr>lh_n := n, lh_block := bl, procs := ps, sleeplocks := sl, bufs := bf, disk := dk, dhist := h\<rparr>"
    "map (\<lambda>p. p\<lparr>p_state := UNUSED\<rparr>) ps = map (\<lambda>p. p\<lparr>p_state := UNUSED\<rparr>) (procs s)"
    "\<And>i. sl (InodeLock i) = sleeplocks s (InodeLock i)"
    by (auto simp: lenv_def benv_def)
  have "benv (s\<lparr>inodes := f, lh_n := n, lh_block := bl\<rparr>) (t\<lparr>inodes := f\<rparr>)"
    by (rule benvI [where ps = ps and sl = sl and bf = bf and dk = dk and h = h]) (use t in simp_all)
  then show ?thesis unfolding lenv_def by blast
qed

lemma txn_inodes: "txn m s t \<Longrightarrow> txn m (s\<lparr>inodes := f\<rparr>) (t\<lparr>inodes := f\<rparr>)"
  by (simp add: txn_def lenv_inodes)

lemma txn_ftxn: "txn m s t \<Longrightarrow> ftxn m s t"
  using lenv_fs(2) [of s t] by (simp add: ftxn_def txn_def)

lemma ftxn_trans: "ftxn m s t \<Longrightarrow> ftxn k t u \<Longrightarrow> ftxn (m + k) s u"
  using txn_inodes [of m "s\<lparr>inodes := inodes t\<rparr>" t "inodes u"] txn_trans [of m "s\<lparr>inodes := inodes u\<rparr>" "t\<lparr>inodes := inodes u\<rparr>" k u]
  by (simp add: ftxn_def)

lemma ftxn_mono: "ftxn m s t \<Longrightarrow> m \<le> k \<Longrightarrow> ftxn k s t"
  using txn_mono by (auto simp: ftxn_def)

lemma ftxn_upd: "log_ok s \<Longrightarrow> ftxn 0 s (s\<lparr>inodes := f\<rparr>)"
  using txn_refl [of "s\<lparr>inodes := f\<rparr>"] by (simp add: ftxn_def)

lemma ftxn_env:
  assumes "ftxn m s t"
  shows "fs_sb t = fs_sb s" "devsw t = devsw s" "curproc t = curproc s" "mem t = mem s" "metab t = metab s" "locks t = locks s" "cr3 t = cr3 s"
    "sleeplocks t (InodeLock i) = sleeplocks s (InodeLock i)" "disksize t = disksize s" "logreg t = logreg s" "lockd t = lockd s" "log_ok t"
    "log_outstanding t = log_outstanding s"
proof -
  have l: "lenv (s\<lparr>inodes := inodes t\<rparr>) t" using assms by (simp add: ftxn_def txn_def)
  show "fs_sb t = fs_sb s" "devsw t = devsw s" "curproc t = curproc s" "mem t = mem s" "metab t = metab s" "locks t = locks s" "cr3 t = cr3 s"
    "sleeplocks t (InodeLock i) = sleeplocks s (InodeLock i)" "disksize t = disksize s" "logreg t = logreg s" "lockd t = lockd s" "log_ok t"
    "log_outstanding t = log_outstanding s"
    using lenv_fs [OF l] lenv_log [OF l] assms by (simp_all add: ftxn_def txn_def)
qed

subsection \<open>The blocks of a file\<close>

text \<open>The address of block \<open>bn\<close> of a file, 0 when there is none, and all the blocks an inode holds.\<close>

definition faddr :: "(u32 \<Rightarrow> u8 list) \<Rightarrow> dinode \<Rightarrow> nat \<Rightarrow> u32" where
  "faddr V x bn = (if bn < 12 then d_addrs x ! bn else if d_addrs x ! 12 = 0 then 0 else get32 (V (d_addrs x ! 12)) (4 * (bn - 12)))"

definition iblocks :: "(u32 \<Rightarrow> u8 list) \<Rightarrow> dinode \<Rightarrow> u32 set" where
  "iblocks V x = {a. a \<noteq> 0 \<and> (a = d_addrs x ! 12 \<or> (\<exists>bn < 140. a = faddr V x bn))}"

text \<open>The blocks of an inode are data blocks in use, and no two of them coincide.\<close>

definition inode_ok :: "(u32 \<Rightarrow> u8 list) \<Rightarrow> superblock \<Rightarrow> u32 set \<Rightarrow> dinode \<Rightarrow> bool" where
  "inode_ok V sb M x \<longleftrightarrow> length (d_addrs x) = 13 \<and> (\<forall>a \<in> iblocks V x. a < sb_size sb \<and> used V sb a \<and> a \<notin> M) \<and>
     (\<forall>bn < 140. \<forall>bm < 140. faddr V x bn \<noteq> 0 \<and> faddr V x bn = faddr V x bm \<longrightarrow> bn = bm) \<and>
     (\<forall>bn < 140. d_addrs x ! 12 \<noteq> 0 \<longrightarrow> faddr V x bn \<noteq> d_addrs x ! 12)"

lemma faddr_iblocks: "bn < 140 \<Longrightarrow> faddr V x bn \<noteq> 0 \<Longrightarrow> faddr V x bn \<in> iblocks V x"
  by (auto simp: iblocks_def)

lemma faddr_same: "V' (d_addrs x ! 12) = V (d_addrs x ! 12) \<Longrightarrow> faddr V' x = faddr V x"
  by (simp add: faddr_def fun_eq_iff)

lemma faddr_cong: "\<forall>a \<in> iblocks V x. V' a = V a \<Longrightarrow> faddr V' x = faddr V x \<and> iblocks V' x = iblocks V x"
proof -
  assume "\<forall>a \<in> iblocks V x. V' a = V a"
  then have "faddr V' x = faddr V x"
    by (cases "d_addrs x ! 12 = 0") (auto simp: faddr_def fun_eq_iff iblocks_def)
  then show ?thesis by (simp add: iblocks_def)
qed

lemma inode_ok_cong:
  assumes "inode_ok V sb M x" "\<forall>a \<in> iblocks V x. V' a = V a \<and> used V' sb a"
  shows "inode_ok V' sb M x"
  using assms faddr_cong [of V x V'] by (auto simp: inode_ok_def)

text \<open>Three ways in which an inode gets a new block \<open>a\<close>: a direct block, the indirect block, an entry of the indirect block.\<close>

definition new_block :: "(u32 \<Rightarrow> u8 list) \<Rightarrow> superblock \<Rightarrow> u32 set \<Rightarrow> dinode \<Rightarrow> u32 \<Rightarrow> bool" where
  "new_block V sb M x a \<longleftrightarrow> a < sb_size sb \<and> used V sb a \<and> a \<notin> M \<and> a \<noteq> 0 \<and> a \<notin> iblocks V x"

lemma add_direct:
  assumes "inode_ok V sb M x" "new_block V sb M x a" "bn < 12" "d_addrs x ! bn = 0"
  defines "x' \<equiv> x\<lparr>d_addrs := (d_addrs x)[bn := a]\<rparr>"
  shows "inode_ok V sb M x'" "faddr V x' bm = (if bm = bn then a else faddr V x bm)" "iblocks V x' = insert a (iblocks V x)"
proof -
  have l: "length (d_addrs x) = 13" using assms(1) by (simp add: inode_ok_def)
  have n12: "d_addrs x' ! 12 = d_addrs x ! 12" using assms(3) by (simp add: x'_def)
  have f: "faddr V x' bm = (if bm = bn then a else faddr V x bm)" for bm
    using assms(3) l by (auto simp: x'_def faddr_def nth_list_update)
  have z: "faddr V x bn = 0" using assms(3,4) by (simp add: faddr_def)
  show ib: "iblocks V x' = insert a (iblocks V x)"
    using assms(2,3) z by (auto simp: iblocks_def n12 f new_block_def)
  have "a \<noteq> d_addrs x ! 12" "\<And>bm. bm < 140 \<Longrightarrow> faddr V x bm \<noteq> a"
    using assms(2) by (auto simp: new_block_def iblocks_def)
  then show "inode_ok V sb M x'"
    using assms(1,2) l unfolding inode_ok_def ib n12 f by (auto simp: new_block_def x'_def)
  show "faddr V x' bm = (if bm = bn then a else faddr V x bm)" by (rule f)
qed

lemma get32_zeros: "get32 (replicate 512 0) i = 0" if "i + 3 < 512"
  using that by (simp add: get32_def)

lemma add_indirect:
  assumes "inode_ok V sb M x" "new_block V sb M x a" "d_addrs x ! 12 = 0" "V a = replicate 512 0"
  defines "x' \<equiv> x\<lparr>d_addrs := (d_addrs x)[12 := a]\<rparr>"
  shows "inode_ok V sb M x'" "bm < 140 \<Longrightarrow> faddr V x' bm = faddr V x bm" "iblocks V x' = insert a (iblocks V x)" "d_addrs x' ! 12 = a"
proof -
  have l: "length (d_addrs x) = 13" using assms(1) by (simp add: inode_ok_def)
  show n12: "d_addrs x' ! 12 = a" using l by (simp add: x'_def)
  have f: "faddr V x' bm = faddr V x bm" if "bm < 140" for bm
    using that assms(2-4) l by (auto simp: faddr_def n12 get32_zeros new_block_def) (simp add: x'_def)
  show ib: "iblocks V x' = insert a (iblocks V x)"
    using assms(2,3) f by (auto simp: iblocks_def n12 new_block_def)
  have "\<And>bm. bm < 140 \<Longrightarrow> faddr V x bm \<noteq> a" using assms(2) by (auto simp: new_block_def iblocks_def)
  then show "inode_ok V sb M x'"
    using assms(1,2) l f unfolding inode_ok_def ib n12 by (auto simp: new_block_def x'_def)
  show "bm < 140 \<Longrightarrow> faddr V x' bm = faddr V x bm" by (rule f)
qed

lemma add_entry:
  assumes "inode_ok V sb M x" "new_block V sb M x a" "d_addrs x ! 12 = n" "n \<noteq> 0" "k < 128" "get32 (V n) (4 * k) = 0" "length (V n) = 512"
    and "\<And>b. b < sb_size sb \<Longrightarrow> BBLOCK b sb \<in> M"
  defines "V' \<equiv> V(n := put32 (4 * k) a (V n))"
  shows "inode_ok V' sb M x" "bm < 140 \<Longrightarrow> faddr V' x bm = (if bm = 12 + k then a else faddr V x bm)" "iblocks V' x = insert a (iblocks V x)"
proof -
  have n: "n \<in> iblocks V x" using assms(3,4) by (auto simp: iblocks_def)
  then have nM: "n \<notin> M" using assms(1) by (auto simp: inode_ok_def)
  then have us: "used V' sb b = used V sb b" if "b < sb_size sb" for b
    using assms(8) [OF that] by (auto simp: used_def V'_def)
  have f: "faddr V' x bm = (if bm = 12 + k then a else faddr V x bm)" if "bm < 140" for bm
  proof (cases "bm = 12 + k")
    case True
    then show ?thesis using assms(3-5,7) by (simp add: faddr_def V'_def)
  next
    case False
    then have "bm < 12 \<or> 12 \<le> bm \<and> (4 * k + 4 \<le> 4 * (bm - 12) \<or> 4 * (bm - 12) + 4 \<le> 4 * k)" using that by auto
    then show ?thesis using False assms(3,4) by (auto simp: faddr_def V'_def get32_put32_other)
  qed
  have z: "faddr V x (12 + k) = 0" using assms(3,4,6) by (simp add: faddr_def)
  have k: "12 + k < 140" "faddr V' x (12 + k) = a" "a \<noteq> 0" using f assms(2,5) by (auto simp: new_block_def)
  have f': "faddr V' x bm = faddr V x bm" if "bm < 140" "bm \<noteq> 12 + k" for bm using f that by simp
  have "b \<in> iblocks V' x \<longleftrightarrow> b = a \<or> b \<in> iblocks V x" for b
    unfolding iblocks_def mem_Collect_eq by (metis k z f')
  then show ib: "iblocks V' x = insert a (iblocks V x)" by auto
  have "a \<noteq> n" "\<And>bm. bm < 140 \<Longrightarrow> faddr V x bm \<noteq> a" using assms(2) n by (auto simp: new_block_def iblocks_def)
  then show "inode_ok V' sb M x"
    using assms(1,2,3) f us unfolding inode_ok_def ib by (auto simp: new_block_def)
  show "bm < 140 \<Longrightarrow> faddr V' x bm = (if bm = 12 + k then a else faddr V x bm)" by (rule f)
qed

subsection \<open>Allocation for an inode\<close>

definition nfree :: "(u32 \<Rightarrow> u8 list) \<Rightarrow> superblock \<Rightarrow> nat" where
  "nfree V sb = card {b. b < sb_size sb \<and> \<not> used V sb b}"

text \<open>Blocks in use stay in use, and those among them that are neither in \<open>X\<close> nor part of the free map keep their content.\<close>

definition bmblocks :: "superblock \<Rightarrow> u32 set" where
  "bmblocks sb = {BBLOCK b sb | b. b < sb_size sb}"

definition keep :: "(u32 \<Rightarrow> u8 list) \<Rightarrow> (u32 \<Rightarrow> u8 list) \<Rightarrow> superblock \<Rightarrow> u32 set \<Rightarrow> u32 set \<Rightarrow> bool" where
  "keep V V' sb M X \<longleftrightarrow> (\<forall>n < sb_size sb. used V sb n \<longrightarrow> used V' sb n \<and> (n \<notin> M \<inter> bmblocks sb \<union> X \<longrightarrow> V' n = V n))"

lemma keep_refl [simp]: "keep V V sb M X"
  by (simp add: keep_def)

lemma keep_mono: "keep V V' sb M X \<Longrightarrow> X \<subseteq> Y \<Longrightarrow> keep V V' sb M Y"
  by (auto simp: keep_def)

lemma keep_free: "keep V V' sb M X \<Longrightarrow> {b. b < sb_size sb \<and> \<not> used V' sb b} \<subseteq> {b. b < sb_size sb \<and> \<not> used V sb b}"
  by (auto simp: keep_def)

lemma keep_trans_free:
  assumes "keep V V1 sb M X" "keep V1 V2 sb M Y" "Y \<subseteq> X \<union> {b. b < sb_size sb \<and> \<not> used V sb b}"
  shows "keep V V2 sb M X"
  unfolding keep_def
proof (intro allI impI conjI)
  fix n assume n: "n < sb_size sb" "used V sb n"
  have 1: "used V1 sb n" "n \<notin> M \<inter> bmblocks sb \<union> X \<Longrightarrow> V1 n = V n" using assms(1) n unfolding keep_def by blast+
  then have 2: "used V2 sb n" "n \<notin> M \<inter> bmblocks sb \<union> Y \<Longrightarrow> V2 n = V1 n" using assms(2) n(1) unfolding keep_def by blast+
  show "used V2 sb n" by (rule 2(1))
  assume x: "n \<notin> M \<inter> bmblocks sb \<union> X"
  then have "n \<notin> M \<inter> bmblocks sb \<union> Y" using assms(3) n by blast
  then show "V2 n = V n" using 1(2) [OF x] 2(2) by simp
qed

lemma keep_trans: "keep V V' sb M X \<Longrightarrow> keep V' V'' sb M Y \<Longrightarrow> X \<union> Y \<subseteq> Z \<Longrightarrow> keep V V'' sb M Z"
  by (rule keep_trans_free [OF keep_mono, of V V' sb M X Z V'' Y]) auto

lemma keep_inode_ok: "keep V V' sb M X \<Longrightarrow> inode_ok V sb M x \<Longrightarrow> iblocks V x \<inter> X = {} \<Longrightarrow> inode_ok V' sb M x"
  by (rule inode_ok_cong) (auto simp: keep_def inode_ok_def)

lemma balloc_step:
  assumes "fs_ready (2 + k) s" "0 < nfree (blk s) (fs_sb s)"
  shows "\<exists>a t. balloc 1 s = Ret a t \<and> txn 2 s t \<and> fs_ready k t \<and> a \<noteq> 0 \<and> a < sb_size (fs_sb s) \<and> \<not> used (blk s) (fs_sb s) a \<and>
    a \<notin> metab s \<and> blk t a = replicate 512 0 \<and> used (blk t) (fs_sb s) a \<and> keep (blk s) (blk t) (fs_sb s) (metab s) {} \<and>
    nfree (blk s) (fs_sb s) = Suc (nfree (blk t) (fs_sb s))"
proof -
  let ?sb = "fs_sb s"
  have "fs_ready 2 s" using assms(1) fs_ready_mono by fastforce
  moreover have "\<exists>b < sb_size ?sb. \<not> used (blk s) ?sb b" using assms(2) by (auto simp: nfree_def card_gt_0_iff)
  ultimately obtain a t where t: "balloc 1 s = Ret a t" "a < sb_size ?sb" "\<not> used (blk s) ?sb a"
    "blk t = alloc_view ?sb a (blk s)" "txn 2 s t" using balloc_law by blast
  note u = used_alloc [OF assms(1) t(2,3)]
  have m: "a \<notin> metab s" by (rule free_block(3) [OF assms(1) t(2,3)])
  have b: "BBLOCK a ?sb \<in> metab s" by (rule bitmap_block(6) [OF assms(1) t(2)])
  have "keep (blk s) (blk t) ?sb (metab s) {}"
    using u t(2,3) b unfolding keep_def t(4) by (auto simp: alloc_view_def bmblocks_def)
  moreover have "{b. b < sb_size ?sb \<and> \<not> used (blk s) ?sb b} = insert a {b. b < sb_size ?sb \<and> \<not> used (blk t) ?sb b}"
    using u t(2,3) unfolding t(4) by auto
  then have "nfree (blk s) ?sb = Suc (nfree (blk t) ?sb)"
    unfolding nfree_def using u t(2) by (simp add: t(4))
  moreover have "a \<noteq> 0" using m by (auto simp: metab_def)
  moreover have "blk t a = replicate 512 0" "used (blk t) ?sb a" using u t(2) by (simp_all add: t(4) alloc_view_def)
  ultimately show ?thesis using t m fs_ready_alloc [OF assms(1) t(5,2,3,4)] by blast
qed

lemma bmap_slot_law:
  assumes "fs_ready (2 + k) s" "i_dev (inodes s ip) = 1" "x = i_d (inodes s ip)" "inode_ok (blk s) (fs_sb s) (metab s) x"
    and "0 < nfree (blk s) (fs_sb s) \<or> d_addrs x ! i \<noteq> 0"
  shows "\<exists>a t. bmap_slot ip i s = Ret a t \<and> ftxn 2 s t \<and> fs_ready k t \<and>
    inodes t = (inodes s)(ip := (inodes s ip)\<lparr>i_d := x\<lparr>d_addrs := (d_addrs x)[i := a]\<rparr>\<rparr>) \<and> a \<noteq> 0 \<and>
    keep (blk s) (blk t) (fs_sb s) (metab s) {} \<and> inode_ok (blk t) (fs_sb s) (metab s) x \<and> faddr (blk t) x = faddr (blk s) x \<and>
    iblocks (blk t) x = iblocks (blk s) x \<and>
    (if d_addrs x ! i \<noteq> 0 then a = d_addrs x ! i
     else new_block (blk t) (fs_sb s) (metab s) x a \<and> \<not> used (blk s) (fs_sb s) a \<and> blk t a = replicate 512 0) \<and>
    nfree (blk s) (fs_sb s) \<le> Suc (nfree (blk t) (fs_sb s))"
proof (cases "d_addrs x ! i = 0")
  case False
  have "fs_ready k s" "log_ok s" using assms(1) fs_ready_mono [of "2 + k" s k] by (auto simp: fs_ready_def ready_def)
  then show ?thesis using False assms(3,4) txn_mono [OF txn_ftxn [OF txn_refl [of s], unfolded ftxn_def]]
    by (simp add: bmap_slot_def addr_at_def ftxn_def)
next
  case True
  with assms(5) have "0 < nfree (blk s) (fs_sb s)" by simp
  from balloc_step [OF assms(1) this] obtain a t where t: "balloc 1 s = Ret a t" "txn 2 s t" "fs_ready k t" "a \<noteq> 0"
    "a < sb_size (fs_sb s)" "\<not> used (blk s) (fs_sb s) a" "a \<notin> metab s" "blk t a = replicate 512 0" "used (blk t) (fs_sb s) a"
    "keep (blk s) (blk t) (fs_sb s) (metab s) {}" "nfree (blk s) (fs_sb s) = Suc (nfree (blk t) (fs_sb s))" by blast
  have it: "inodes t = inodes s" using t(2) lenv_fs(2) by (auto simp: txn_def)
  define u where "u = set_addr ip i a t"
  have u: "u = t\<lparr>inodes := (inodes s)(ip := (inodes s ip)\<lparr>i_d := x\<lparr>d_addrs := (d_addrs x)[i := a]\<rparr>\<rparr>)\<rparr>"
    by (simp add: u_def set_addr_def upd_d_def upd_inode_def it assms(3))
  have "bmap_slot ip i s = Ret a u" using t(1) True assms(2,3) by (simp add: bmap_slot_def addr_at_def u_def)
  moreover have "ftxn 2 s u" using ftxn_trans [OF txn_ftxn [OF t(2)] ftxn_upd, of "inodes u"] t(3)
    by (simp add: u fs_ready_def ready_def)
  moreover have "\<forall>b \<in> iblocks (blk s) x. blk t b = blk s b"
    using t(10) assms(4) by (auto simp: keep_def inode_ok_def)
  note fc = faddr_cong [OF this]
  moreover have "inode_ok (blk t) (fs_sb s) (metab s) x" by (rule keep_inode_ok [OF t(10) assms(4)]) simp
  moreover have "a \<notin> iblocks (blk s) x" using t(6) assms(4) by (auto simp: inode_ok_def)
  then have "new_block (blk t) (fs_sb s) (metab s) x a" using t fc by (simp add: new_block_def)
  ultimately show ?thesis using t True by (simp add: u)
qed

lemma used_data: "n \<notin> metab s \<Longrightarrow> b < sb_size (fs_sb s) \<Longrightarrow> used (V(n := d)) (fs_sb s) b = used V (fs_sb s) b"
  by (auto simp: used_def metab_def)

lemma fsmap_ok_data:
  assumes "fsmap_ok s" "lenv s t" "blk t = (blk s)(n := d)" "n \<notin> metab s"
  shows "fsmap_ok t"
proof -
  note e = lenv_fs [OF assms(2)] lenv_log [OF assms(2)]
  have "n \<noteq> 1" using assms(4) by (auto simp: metab_def)
  moreover have "used (blk t) (fs_sb s) b = used (blk s) (fs_sb s) b" if "b \<in> metab s" for b
    using that assms(1) used_data [OF assms(4)] unfolding assms(3) by (auto simp: fsmap_ok_def)
  ultimately show ?thesis using assms(1) by (simp add: fsmap_ok_def e assms(3))
qed

lemma keep_data: "n \<notin> metab s \<Longrightarrow> keep V (V(n := d)) (fs_sb s) (metab s) {n}"
  using used_data [of n s] by (auto simp: keep_def)

lemma nfree_data: "n \<notin> metab s \<Longrightarrow> nfree (V(n := d)) (fs_sb s) = nfree V (fs_sb s)"
proof -
  assume "n \<notin> metab s"
  then have "{b. b < sb_size (fs_sb s) \<and> \<not> used (V(n := d)) (fs_sb s) b} = {b. b < sb_size (fs_sb s) \<and> \<not> used V (fs_sb s) b}"
    using used_data by blast
  then show ?thesis by (simp add: nfree_def)
qed

text \<open>Taking the buffer of a data block, with the free map still available.\<close>

lemma bread_data:
  assumes "fs_ready k s" "lockd s = (\<lambda>_. None)" "n < sb_size (fs_sb s)" "used (blk s) (fs_sb s) n" "n \<notin> metab s"
  shows "\<exists>b u. bread 1 n s = Ret b u \<and> fs_ready k u \<and> b_data (bufs u b) = blk s n \<and> lockd u = (\<lambda>_. None)(b \<mapsto> (n, blk s n)) \<and>
    blk u = blk s \<and> dirtyb u = dirtyb s \<and> disk u = disk s \<and> benv s u"
proof -
  have r: "ready k s" "fsmap_ok s" using assms(1) by (auto simp: fs_ready_def)
  have d: "n < disksize s" using assms(3) r(2) by (force simp: fsmap_ok_def)
  from ready_bread [OF r(1) d] obtain b u where u: "bread 1 n s = Ret b u" "log_ok u" "b_data (bufs u b) = blk s n"
    "lockd u = (\<lambda>_. None)(b \<mapsto> (n, blk s n))" "blk u = blk s" "dirtyb u = dirtyb s" "disk u = disk s" "benv s u"
    by (auto simp: assms(2) ran_none)
  note e = lenv_fs [OF benv_lenv [OF u(8)]] lenv_log [OF benv_lenv [OF u(8)]] benv_log [OF u(8)]
  have "fs_ready k u"
    using r u(2) assms(3-5) by (simp add: fs_ready_def ready_def fsmap_ok_def locked_ok_def e u(4,5) ran_one)
  then show ?thesis using u by blast
qed

lemma bmap_entry_hit:
  assumes "fs_ready k s" "lockd s = (\<lambda>_. None)" "i_dev (inodes s ip) = 1" "n < sb_size (fs_sb s)" "used (blk s) (fs_sb s) n" "n \<notin> metab s"
    and "get32 (blk s n) (4 * bn) \<noteq> 0"
  shows "\<exists>t. bmap_entry ip bn n s = Ret (get32 (blk s n) (4 * bn)) t \<and> txn 0 s t \<and> blk t = blk s \<and> fs_ready k t"
proof -
  from bread_data [OF assms(1,2,4-6)] obtain b u where u: "bread 1 n s = Ret b u" "fs_ready k u" "b_data (bufs u b) = blk s n"
    "lockd u = (\<lambda>_. None)(b \<mapsto> (n, blk s n))" "blk u = blk s" "dirtyb u = dirtyb s" "disk u = disk s" "benv s u" by blast
  have lu: "log_ok u" "log_ok s" using u(2) assms(1) by (auto simp: fs_ready_def ready_def)
  have "lockd u b = Some (n, blk s n)" "n \<in> dirtyb u \<or> disk u n = blk s n"
    using u blk_disk [OF lu(2), of n] assms(2) by (auto simp: ran_none)
  from ready_brelse [OF lu(1) this] obtain t where t: "brelse b u = Ret () t" "log_ok t" "lockd t = (lockd u)(b := None)"
    "blk t = blk u" "dirtyb t = dirtyb u" "disk t = disk u" "benv u t" by blast
  have st: "benv s t" by (rule benv_trans [OF u(8) t(7)])
  then have x: "txn 0 s t" using t u assms(2) benv_log(3) [OF st] by (auto simp: txn_def benv_lenv)
  have bt: "blk t = blk s" using t(4) u(5) by simp
  moreover have "fs_ready k t" using fs_ready_same [OF x bt, of k, unfolded add_0] assms(1) by simp
  moreover have "bmap_entry ip bn n s = Ret (get32 (blk s n) (4 * bn)) t"
    using u(1,3) t(1) assms(3,7) by (simp add: bmap_entry_def Let_def)
  ultimately show ?thesis using x by blast
qed

lemma bmap_entry_law:
  assumes "fs_ready (3 + k) s" "lockd s = (\<lambda>_. None)" "i_dev (inodes s ip) = 1" "inode_ok (blk s) (fs_sb s) (metab s) x"
    and "d_addrs x ! 12 = n" "n \<noteq> 0" "bn < 128" "0 < nfree (blk s) (fs_sb s) \<or> faddr (blk s) x (12 + bn) \<noteq> 0"
  shows "\<exists>a t. bmap_entry ip bn n s = Ret a t \<and> txn 3 s t \<and> fs_ready k t \<and> a \<noteq> 0 \<and> inode_ok (blk t) (fs_sb s) (metab s) x \<and>
    (\<forall>bm < 140. faddr (blk t) x bm = (if bm = 12 + bn then a else faddr (blk s) x bm)) \<and>
    (faddr (blk s) x (12 + bn) \<noteq> 0 \<longrightarrow> a = faddr (blk s) x (12 + bn)) \<and> keep (blk s) (blk t) (fs_sb s) (metab s) {n} \<and>
    iblocks (blk t) x \<subseteq> iblocks (blk s) x \<union> {b. b < sb_size (fs_sb s) \<and> \<not> used (blk s) (fs_sb s) b} \<and>
    nfree (blk s) (fs_sb s) \<le> Suc (nfree (blk t) (fs_sb s))"
proof -
  have n: "n \<in> iblocks (blk s) x" using assms(5,6) by (auto simp: iblocks_def)
  then have nn: "n < sb_size (fs_sb s)" "used (blk s) (fs_sb s) n" "n \<notin> metab s" using assms(4) by (auto simp: inode_ok_def)
  from bread_data [OF assms(1,2) nn] obtain b u where u: "bread 1 n s = Ret b u" "fs_ready (3 + k) u" "b_data (bufs u b) = blk s n"
    "lockd u = (\<lambda>_. None)(b \<mapsto> (n, blk s n))" "blk u = blk s" "dirtyb u = dirtyb s" "disk u = disk s" "benv s u" by blast
  note e = lenv_fs [OF benv_lenv [OF u(8)]] lenv_log [OF benv_lenv [OF u(8)]] benv_log [OF u(8)]
  have fa: "faddr (blk s) x (12 + bn) = get32 (blk s n) (4 * bn)" using assms(5,6) by (simp add: faddr_def)
  have lu: "log_ok u" "log_ok s" using u(2) assms(1) by (auto simp: fs_ready_def ready_def)
  show ?thesis
  proof (cases "get32 (blk s n) (4 * bn) = 0")
    case False
    from bmap_entry_hit [OF assms(1-3) nn False] obtain t where t: "bmap_entry ip bn n s = Ret (get32 (blk s n) (4 * bn)) t"
      "txn 0 s t" "blk t = blk s" "fs_ready (3 + k) t" by blast
    then have "txn 3 s t" "fs_ready k t" using txn_mono fs_ready_mono [of "3 + k" t k] by auto
    then show ?thesis using t False fa assms(4) by (intro exI) (auto simp: keep_def)
  next
    case True
    with assms(8) fa have f: "0 < nfree (blk u) (fs_sb u)" by (simp add: e u(5))
    have "fs_ready (2 + Suc k) u" using u(2) by (simp add: numeral_3_eq_3)
    from balloc_step [OF this f] obtain a v where v: "balloc 1 u = Ret a v" "txn 2 u v" "fs_ready (Suc k) v" "a \<noteq> 0"
      "a < sb_size (fs_sb s)" "\<not> used (blk s) (fs_sb s) a" "a \<notin> metab s" "blk v a = replicate 512 0" "used (blk v) (fs_sb s) a"
      "keep (blk s) (blk v) (fs_sb s) (metab s) {}" "nfree (blk s) (fs_sb s) = Suc (nfree (blk v) (fs_sb s))"
      by (auto simp: e u(5))
    have uv: "lenv u v" "lockd v = lockd u" "disk v = disk u" "dirtyb u \<subseteq> dirtyb v" "lh_n v \<le> lh_n u + 2" "log_ok v"
      using v(2) by (auto simp: txn_def)
    note e2 = lenv_fs [OF uv(1)] lenv_log [OF uv(1)]
    have lv: "lockd v b = Some (n, blk s n)" using uv(2) u(4) by simp
    have bd: "b_data (bufs v b) = blk s n" by (rule lockd_props(4) [OF log_okD(1) [OF uv(6)] lv])
    have vn: "blk v n = blk s n" using v(10) nn by (auto simp: keep_def)
    let ?d = "put32 (4 * bn) a (blk s n)"
    have len: "length (blk s n) = 512" using lockd_props(8) [OF log_okD(1) [OF uv(6)] lv] .
    have "n \<notin> logreg v" "lh_n v < 29" "0 < log_outstanding v"
      using nn(3) v(3) e2(16) e(16) by (auto simp: metab_def fs_ready_def ready_def)
    from write_locked [OF uv(6) lv this, of ?d] len obtain w t where
      t: "log_write b (set_data b ?d v) = Ret () w" "brelse b w = Ret () t" "log_ok t" "lockd t = (lockd v)(b := None)"
        "blk t = (blk v)(n := ?d)" "disk t = disk v" "dirtyb t = insert n (dirtyb v)" "lh_n t \<le> lh_n v + 1" "lenv v t" by auto
    have bm: "\<And>b. b < sb_size (fs_sb s) \<Longrightarrow> BBLOCK b (fs_sb s) \<in> metab s" by (auto simp: metab_def)
    have iv: "inode_ok (blk v) (fs_sb s) (metab s) x" by (rule keep_inode_ok [OF v(10) assms(4)]) simp
    have "\<forall>b \<in> iblocks (blk s) x. blk v b = blk s b" using v(10) assms(4) by (auto simp: keep_def inode_ok_def)
    note fc = faddr_cong [OF this]
    have nb: "new_block (blk v) (fs_sb s) (metab s) x a"
      using v(4-9) fc assms(4) by (auto simp: new_block_def inode_ok_def)
    note ae = add_entry [OF iv nb assms(5,6,7) _ _ bm, unfolded vn, folded t(5), OF True len]
    have sv: "lenv s v" "lenv s t" using lenv_trans [OF benv_lenv [OF u(8)] uv(1)] lenv_trans t(9) by blast+
    have "txn 3 s t"
      using t uv u assms(2) e(19) sv(2) by (auto simp: txn_def)
    moreover have "fs_ready k t"
    proof -
      have "fsmap_ok v" "ready (Suc k) v" using v(3) by (auto simp: fs_ready_def)
      moreover have "n \<notin> metab v" using nn(3) lenv_fs(6) [OF sv(1)] by simp
      ultimately show ?thesis
        using fsmap_ok_data [OF _ t(9,5)] t(3,4,8) uv(2) u(4) lenv_log(4) [OF t(9)]
        by (auto simp: fs_ready_def ready_def locked_ok_def ran_def)
    qed
    moreover have "bmap_entry ip bn n s = Ret a t"
      using u(1,3) v(1) t(1,2) True assms(3) e(2) by (simp add: bmap_entry_def Let_def bd)
    moreover have "keep (blk s) (blk t) (fs_sb s) (metab s) {n}"
      unfolding t(5) by (rule keep_trans [OF v(10) keep_data [OF nn(3)]]) simp
    moreover have "nfree (blk t) (fs_sb s) = nfree (blk v) (fs_sb s)" unfolding t(5) by (rule nfree_data [OF nn(3)])
    ultimately show ?thesis using v(4,5,6,11) ae fc True fa by (intro exI [of _ a] exI [of _ t]) auto
  qed
qed

text \<open>
  What \<^verbatim>\<open>bmap\<close> does to the inode \<open>x\<close>, giving \<open>x'\<close>: block \<open>bn\<close> gets an address if it has none, nothing else in the
  file moves, and the only blocks touched are free ones, the free map and the indirect block.
\<close>

definition mapped :: "superblock \<Rightarrow> u32 set \<Rightarrow> (u32 \<Rightarrow> u8 list) \<Rightarrow> dinode \<Rightarrow> nat \<Rightarrow> (u32 \<Rightarrow> u8 list) \<Rightarrow> dinode \<Rightarrow> bool" where
  "mapped sb M V x bn V' x' \<longleftrightarrow> x' = x\<lparr>d_addrs := d_addrs x'\<rparr> \<and> (faddr V x bn \<noteq> 0 \<longrightarrow> x' = x) \<and> inode_ok V' sb M x' \<and> faddr V' x' bn \<noteq> 0 \<and>
     (\<forall>bm < 140. bm \<noteq> bn \<or> faddr V x bn \<noteq> 0 \<longrightarrow> faddr V' x' bm = faddr V x bm) \<and> keep V V' sb M ({d_addrs x ! 12} - {0}) \<and>
     iblocks V' x' \<subseteq> iblocks V x \<union> {b. b < sb_size sb \<and> \<not> used V sb b} \<and> nfree V sb \<le> nfree V' sb + 2"

definition set_d :: "nat \<Rightarrow> dinode \<Rightarrow> 'a fstate_scheme \<Rightarrow> nat \<Rightarrow> inode" where
  "set_d ip x s = (inodes s)(ip := (inodes s ip)\<lparr>i_d := x\<rparr>)"

lemma bmap_direct:
  assumes "fs_ready (2 + k) s" "i_dev (inodes s ip) = 1" "x = i_d (inodes s ip)" "inode_ok (blk s) (fs_sb s) (metab s) x"
    and "bn < 12" "0 < nfree (blk s) (fs_sb s) \<or> d_addrs x ! bn \<noteq> 0"
  shows "\<exists>t x'. bmap ip (of_nat bn) s = Ret (faddr (blk t) x' bn) t \<and> ftxn 2 s t \<and> fs_ready k t \<and> inodes t = set_d ip x' s \<and>
    mapped (fs_sb s) (metab s) (blk s) x bn (blk t) x'"
proof -
  have l: "length (d_addrs x) = 13" using assms(4) by (simp add: inode_ok_def)
  from bmap_slot_law [OF assms(1-4,6)] obtain a t where t: "bmap_slot ip bn s = Ret a t" "ftxn 2 s t" "fs_ready k t"
    "inodes t = (inodes s)(ip := (inodes s ip)\<lparr>i_d := x\<lparr>d_addrs := (d_addrs x)[bn := a]\<rparr>\<rparr>)" "a \<noteq> 0"
    "keep (blk s) (blk t) (fs_sb s) (metab s) {}" "inode_ok (blk t) (fs_sb s) (metab s) x" "faddr (blk t) x = faddr (blk s) x"
    "iblocks (blk t) x = iblocks (blk s) x" "nfree (blk s) (fs_sb s) \<le> Suc (nfree (blk t) (fs_sb s))"
    and c: "if d_addrs x ! bn \<noteq> 0 then a = d_addrs x ! bn
       else new_block (blk t) (fs_sb s) (metab s) x a \<and> \<not> used (blk s) (fs_sb s) a \<and> blk t a = replicate 512 0" by auto
  define x' where "x' = x\<lparr>d_addrs := (d_addrs x)[bn := a]\<rparr>"
  have b: "bmap ip (of_nat bn) s = Ret a t" using t(1) assms(5) by (simp add: bmap_def unat_of_nat_u32)
  have k: "keep (blk s) (blk t) (fs_sb s) (metab s) ({d_addrs x ! 12} - {0})" by (rule keep_mono [OF t(6)]) simp
  have fa: "faddr (blk t) x' bn = a" using assms(5) l by (simp add: faddr_def x'_def)
  have "mapped (fs_sb s) (metab s) (blk s) x bn (blk t) x'"
  proof (cases "d_addrs x ! bn = 0")
    case True
    with c have nb: "new_block (blk t) (fs_sb s) (metab s) x a" "\<not> used (blk s) (fs_sb s) a" by auto
    note ad = add_direct [OF t(7) nb(1) assms(5) True, folded x'_def]
    have z: "faddr (blk s) x bn = 0" using True assms(5) by (simp add: faddr_def)
    have "a < sb_size (fs_sb s)" using nb(1) by (simp add: new_block_def)
    then show ?thesis unfolding mapped_def using ad k t(5,8,9,10) nb z fa by (auto simp: x'_def)
  next
    case False
    then have "x' = x" using c by (simp add: x'_def)
    then show ?thesis unfolding mapped_def using t(5,7-10) k fa by auto
  qed
  moreover have "inodes t = set_d ip x' s" by (simp add: t(4) set_d_def x'_def)
  ultimately show ?thesis using b fa t(2,3) by metis
qed

lemma bmap_law:
  assumes "fs_ready (5 + k) s" "lockd s = (\<lambda>_. None)" "i_dev (inodes s ip) = 1" "x = i_d (inodes s ip)"
    and "inode_ok (blk s) (fs_sb s) (metab s) x" "bn < 140" "2 \<le> nfree (blk s) (fs_sb s) \<or> faddr (blk s) x bn \<noteq> 0"
  shows "\<exists>t x'. bmap ip (of_nat bn) s = Ret (faddr (blk t) x' bn) t \<and> ftxn 5 s t \<and> fs_ready k t \<and> inodes t = set_d ip x' s \<and>
    mapped (fs_sb s) (metab s) (blk s) x bn (blk t) x'"
proof (cases "bn < 12")
  case True
  have "fs_ready (2 + (3 + k)) s" using assms(1) by simp
  from bmap_direct [OF this assms(3-5) True] assms(7) True obtain t x' where
    t: "bmap ip (of_nat bn) s = Ret (faddr (blk t) x' bn) t" "ftxn 2 s t" "fs_ready (3 + k) t" "inodes t = set_d ip x' s"
      "mapped (fs_sb s) (metab s) (blk s) x bn (blk t) x'" by (auto simp: faddr_def)
  then show ?thesis using ftxn_mono [of 2 s t 5] fs_ready_mono [of "3 + k" t k] by auto
next
  case False
  define j where "j = bn - 12"
  have j: "bn = 12 + j" "j < 128" using False assms(6) by (auto simp: j_def)
  have l: "length (d_addrs x) = 13" using assms(5) by (simp add: inode_ok_def)
  have r: "fs_ready (2 + (3 + k)) s" using assms(1) by simp
  have "0 < nfree (blk s) (fs_sb s) \<or> d_addrs x ! 12 \<noteq> 0" using assms(7) False by (auto simp: faddr_def)
  from bmap_slot_law [OF r assms(3-5) this] obtain a u where u: "bmap_slot ip 12 s = Ret a u" "ftxn 2 s u" "fs_ready (3 + k) u"
    "inodes u = (inodes s)(ip := (inodes s ip)\<lparr>i_d := x\<lparr>d_addrs := (d_addrs x)[12 := a]\<rparr>\<rparr>)" "a \<noteq> 0"
    "keep (blk s) (blk u) (fs_sb s) (metab s) {}" "inode_ok (blk u) (fs_sb s) (metab s) x" "faddr (blk u) x = faddr (blk s) x"
    "iblocks (blk u) x = iblocks (blk s) x" "nfree (blk s) (fs_sb s) \<le> Suc (nfree (blk u) (fs_sb s))"
    and c: "if d_addrs x ! 12 \<noteq> 0 then a = d_addrs x ! 12
       else new_block (blk u) (fs_sb s) (metab s) x a \<and> \<not> used (blk s) (fs_sb s) a \<and> blk u a = replicate 512 0" by auto
  define x' where "x' = x\<lparr>d_addrs := (d_addrs x)[12 := a]\<rparr>"
  have a12: "d_addrs x' ! 12 = a" using l by (simp add: x'_def)
  note e = ftxn_env [OF u(2)]
  have "inode_ok (blk u) (fs_sb s) (metab s) x' \<and> (\<forall>bm < 140. faddr (blk u) x' bm = faddr (blk s) x bm) \<and>
    iblocks (blk u) x' \<subseteq> iblocks (blk s) x \<union> {b. b < sb_size (fs_sb s) \<and> \<not> used (blk s) (fs_sb s) b} \<and>
    (d_addrs x ! 12 \<noteq> 0 \<and> a = d_addrs x ! 12 \<or> \<not> used (blk s) (fs_sb s) a)"
  proof (cases "d_addrs x ! 12 = 0")
    case True
    then show ?thesis using add_indirect [OF u(7) _ True, of a, folded x'_def] c u(8,9) by (auto simp: new_block_def)
  next
    case False
    then have "x' = x" using c by (simp add: x'_def)
    then show ?thesis using u(7-9) c False by auto
  qed
  then have x1: "inode_ok (blk u) (fs_sb s) (metab s) x'" "\<And>bm. bm < 140 \<Longrightarrow> faddr (blk u) x' bm = faddr (blk s) x bm"
    "iblocks (blk u) x' \<subseteq> iblocks (blk s) x \<union> {b. b < sb_size (fs_sb s) \<and> \<not> used (blk s) (fs_sb s) b}"
    "d_addrs x ! 12 \<noteq> 0 \<and> a = d_addrs x ! 12 \<or> \<not> used (blk s) (fs_sb s) a" by blast+
  have iu: "i_dev (inodes u ip) = 1" "lockd u = (\<lambda>_. None)" using assms(2,3) by (simp_all add: u(4) e)
  have "0 < nfree (blk u) (fs_sb u) \<or> faddr (blk u) x' (12 + j) \<noteq> 0"
    using assms(6,7) u(10) x1(2) by (auto simp: e j(1))
  from bmap_entry_law [OF u(3) iu(2,1) _ a12 u(5) j(2) this] x1(1) obtain b t where t: "bmap_entry ip j a u = Ret b t" "txn 3 u t" "fs_ready k t"
    "b \<noteq> 0" "inode_ok (blk t) (fs_sb s) (metab s) x'" "\<forall>bm < 140. faddr (blk t) x' bm = (if bm = 12 + j then b else faddr (blk u) x' bm)"
    "faddr (blk u) x' (12 + j) \<noteq> 0 \<longrightarrow> b = faddr (blk u) x' (12 + j)" "keep (blk u) (blk t) (fs_sb s) (metab s) {a}"
    "iblocks (blk t) x' \<subseteq> iblocks (blk u) x' \<union> {b. b < sb_size (fs_sb s) \<and> \<not> used (blk u) (fs_sb s) b}"
    "nfree (blk u) (fs_sb s) \<le> Suc (nfree (blk t) (fs_sb s))" by (auto simp: e)
  have kp: "keep (blk s) (blk t) (fs_sb s) (metab s) ({d_addrs x ! 12} - {0})"
  proof (rule keep_trans_free [OF keep_mono [OF u(6)] t(8)])
    show "{a} \<subseteq> {d_addrs x ! 12} - {0} \<union> {b. b < sb_size (fs_sb s) \<and> \<not> used (blk s) (fs_sb s) b}"
      using x1(4) c by (auto simp: new_block_def split: if_splits)
  qed simp
  have "{b. b < sb_size (fs_sb s) \<and> \<not> used (blk u) (fs_sb s) b} \<subseteq> {b. b < sb_size (fs_sb s) \<and> \<not> used (blk s) (fs_sb s) b}"
    using u(6) by (auto simp: keep_def)
  then have "iblocks (blk t) x' \<subseteq> iblocks (blk s) x \<union> {b. b < sb_size (fs_sb s) \<and> \<not> used (blk s) (fs_sb s) b}"
    using t(9) x1(3) by blast
  moreover have "faddr (blk s) x bn \<noteq> 0 \<longrightarrow> x' = x" using c False l by (auto simp: x'_def faddr_def)
  ultimately have "mapped (fs_sb s) (metab s) (blk s) x bn (blk t) x'"
    unfolding mapped_def using t(4-7,10) u(10) x1(2) kp assms(6) j(1) by (auto simp: x'_def)
  moreover have "bmap ip (of_nat bn) s = Ret (faddr (blk t) x' bn) t"
    using u(1) t(1,6) j assms(6) by (simp add: bmap_def unat_of_nat_u32 del: of_nat_add)
  moreover have "ftxn 5 s t" using ftxn_trans [OF u(2) txn_ftxn [OF t(2)]] by simp
  moreover have "inodes t = set_d ip x' s" using t(2) u(4) lenv_fs(2) [of u t] by (simp add: txn_def set_d_def x'_def)
  ultimately show ?thesis using t(3) by blast
qed

text \<open>A block that has an address is found without writing anything.\<close>

lemma bmap_hit:
  assumes "fs_ready k s" "lockd s = (\<lambda>_. None)" "i_dev (inodes s ip) = 1" "x = i_d (inodes s ip)"
    and "inode_ok (blk s) (fs_sb s) (metab s) x" "bn < 140" "faddr (blk s) x bn \<noteq> 0"
  shows "\<exists>t. bmap ip (of_nat bn) s = Ret (faddr (blk s) x bn) t \<and> txn 0 s t \<and> blk t = blk s \<and> fs_ready k t"
proof (cases "bn < 12")
  case True
  then show ?thesis using assms(1,4,7) txn_refl [of s]
    by (auto simp: bmap_def unat_of_nat_u32 bmap_slot_def addr_at_def faddr_def fs_ready_def ready_def)
next
  case False
  define j where "j = bn - 12"
  have j: "bn = 12 + j" "j < 128" using False assms(6) by (auto simp: j_def)
  define n where "n = d_addrs x ! 12"
  have n: "n \<noteq> 0" "get32 (blk s n) (4 * j) \<noteq> 0" "faddr (blk s) x bn = get32 (blk s n) (4 * j)"
    using assms(7) by (auto simp: faddr_def j n_def split: if_splits)
  then have "n \<in> iblocks (blk s) x" by (auto simp: iblocks_def n_def)
  then have "n < sb_size (fs_sb s)" "used (blk s) (fs_sb s) n" "n \<notin> metab s" using assms(5) by (auto simp: inode_ok_def)
  from bmap_entry_hit [OF assms(1-3) this n(2)] n j assms(4) show ?thesis
    by (auto simp: bmap_def unat_of_nat_u32 bmap_slot_def addr_at_def n_def simp del: of_nat_add)
qed

end
