(* ===== verification/FileData.thy ===== *)
theory FileData
  imports Bmap
begin

text \<open>
  The content of files as byte sequences, and \<^verbatim>\<open>readi\<close> followed through \<^verbatim>\<open>bmap\<close> and the buffer cache to memory:
  it delivers the part of the content that is asked for and changes no block.
\<close>

subsection \<open>Copying to memory\<close>

primrec umem :: "u32 \<Rightarrow> u8 list \<Rightarrow> u32 \<Rightarrow> memory \<Rightarrow> memory option" where
  "umem va [] c m = Some m"
| "umem va (x # xs) c m =
     (let e = pt_entry m (P2V c) va
      in if present e then umem (va + 1) xs c (m(P2V (PTE_ADDR e) + (va AND 0xFFF) := x)) else None)"

lemma umem_va: "umem va (xs @ ys) c m = Option.bind (umem va xs c m) (umem (va + of_nat (length xs)) ys c)"
  by (induction xs arbitrary: va m) (simp_all add: Let_def add.assoc)

lemma uwrite_umem: "uwrite va xs s = map_option (\<lambda>m. s\<lparr>mem := m\<rparr>) (umem va xs (cr3 s) (mem s))"
  by (induction xs arbitrary: va s) (simp_all add: uwrite1_def umap_def Let_def fun_upd_def)

definition copy_mem :: "dest \<Rightarrow> nat \<Rightarrow> u8 list \<Rightarrow> u32 \<Rightarrow> memory \<Rightarrow> memory option" where
  "copy_mem dst off bs c m =
     (case dst of Local \<Rightarrow> Some m | User a \<Rightarrow> umem (a + of_nat off) bs c m | Kern a \<Rightarrow> Some (store_bytes (a + of_nat off) bs m))"

lemma copy_out_mem: "copy_out dst off bs s = map_option (\<lambda>m. s\<lparr>mem := m\<rparr>) (copy_mem dst off bs (cr3 s) (mem s))"
  by (cases dst) (simp_all add: copy_out_def copy_mem_def uwrite_umem)

lemma store_bytes_append:
  assumes "length xs + length ys < 2 ^ 32"
  shows "store_bytes a (xs @ ys) m = store_bytes (a + of_nat (length xs)) ys (store_bytes a xs m)"
  using assms
proof (induction xs arbitrary: a m)
  case (Cons x xs)
  have "store_bytes a ((x # xs) @ ys) m = store_bytes (a + 1) (xs @ ys) (m(a := x))"
    using Cons.prems by (simp add: store_bytes_Cons)
  also have "\<dots> = store_bytes (a + 1 + of_nat (length xs)) ys (store_bytes (a + 1) xs (m(a := x)))" using Cons by simp
  also have "store_bytes (a + 1) xs (m(a := x)) = store_bytes a (x # xs) m" using Cons.prems by (simp add: store_bytes_Cons)
  finally show ?case by (simp add: add.assoc)
qed simp

lemma copy_mem_append:
  assumes "length xs + length ys < 2 ^ 32"
  shows "copy_mem dst off (xs @ ys) c m = Option.bind (copy_mem dst off xs c m) (copy_mem dst (off + length xs) ys c)"
proof -
  have "copy_mem (User a) off ys c = umem (a + of_nat off) ys c" for a off by (rule ext) (simp add: copy_mem_def)
  then show ?thesis using assms by (cases dst) (simp_all add: copy_mem_def umem_va store_bytes_append add.assoc)
qed

lemma bio_upd_mem [simp]:
  fixes s :: "'a bstate_scheme"
  shows "blk (s\<lparr>mem := m\<rparr>) = blk s" "dirtyb (s\<lparr>mem := m\<rparr>) = dirtyb s" "lockd (s\<lparr>mem := m\<rparr>) = lockd s"
    "bio_inv (s\<lparr>mem := m\<rparr>) = bio_inv s" "idle (s\<lparr>mem := m\<rparr>) = idle s"
  by (rule bio_same; simp add: kern_ok_def cpu_ok_def)+

lemma logreg_upd_mem [simp]: "logreg (s\<lparr>mem := m\<rparr>) = logreg s"
  by (simp add: logreg_def)

lemma log_ok_upd_mem [simp]: "log_ok (s\<lparr>mem := m\<rparr>) = log_ok s"
  by (simp add: log_ok_def layout_def)

lemma metab_upd_mem [simp]: "metab (s\<lparr>mem := m\<rparr>) = metab s"
  by (simp add: metab_def)

lemma fs_ready_upd_mem [simp]: "fs_ready k (s\<lparr>mem := m\<rparr>) = fs_ready k s"
  by (simp add: fs_ready_def ready_def fsmap_ok_def locked_ok_def)

text \<open>Steps that write no block but may write to memory.\<close>

definition rtxn :: "'a fstate_scheme \<Rightarrow> 'a fstate_scheme \<Rightarrow> bool" where
  "rtxn s t \<longleftrightarrow> txn 0 (s\<lparr>mem := mem t\<rparr>) t \<and> blk t = blk s"

lemma lenv_mem: "lenv s t \<Longrightarrow> lenv (s\<lparr>mem := f\<rparr>) (t\<lparr>mem := f\<rparr>)"
proof -
  assume "lenv s t"
  then obtain n bl ps sl bf dk h where
    t: "t = s\<lparr>lh_n := n, lh_block := bl, procs := ps, sleeplocks := sl, bufs := bf, disk := dk, dhist := h\<rparr>"
    "map (\<lambda>p. p\<lparr>p_state := UNUSED\<rparr>) ps = map (\<lambda>p. p\<lparr>p_state := UNUSED\<rparr>) (procs s)"
    "\<And>i. sl (InodeLock i) = sleeplocks s (InodeLock i)"
    by (auto simp: lenv_def benv_def)
  have "benv (s\<lparr>mem := f, lh_n := n, lh_block := bl\<rparr>) (t\<lparr>mem := f\<rparr>)"
    by (rule benvI [where ps = ps and sl = sl and bf = bf and dk = dk and h = h]) (use t in simp_all)
  then show ?thesis unfolding lenv_def by (metis lstate.surjective)
qed

lemma txn_mem: "txn m s t \<Longrightarrow> txn m (s\<lparr>mem := f\<rparr>) (t\<lparr>mem := f\<rparr>)"
  by (simp add: txn_def lenv_mem)

lemma txn_rtxn: "txn 0 s t \<Longrightarrow> blk t = blk s \<Longrightarrow> rtxn s t"
  using lenv_fs(5) [of s t] by (simp add: rtxn_def txn_def)

lemma rtxn_upd: "log_ok s \<Longrightarrow> rtxn s (s\<lparr>mem := m\<rparr>)"
  using txn_refl [of "s\<lparr>mem := m\<rparr>"] by (simp add: rtxn_def)

lemma rtxn_trans: "rtxn s t \<Longrightarrow> rtxn t u \<Longrightarrow> rtxn s u"
  using txn_mem [of 0 "s\<lparr>mem := mem t\<rparr>" t "mem u"] txn_trans [of 0 "s\<lparr>mem := mem u\<rparr>" "t\<lparr>mem := mem u\<rparr>" 0 u]
  by (simp add: rtxn_def)

lemma rtxn_env:
  assumes "rtxn s t"
  shows "fs_sb t = fs_sb s" "inodes t = inodes s" "cr3 t = cr3 s" "metab t = metab s" "lockd t = lockd s" "log_ok t" "blk t = blk s"
    "curproc t = curproc s" "locks t = locks s" "sleeplocks t (InodeLock i) = sleeplocks s (InodeLock i)" "devsw t = devsw s"
proof -
  have l: "lenv (s\<lparr>mem := mem t\<rparr>) t" using assms by (simp add: rtxn_def txn_def)
  show "fs_sb t = fs_sb s" "inodes t = inodes s" "cr3 t = cr3 s" "metab t = metab s" "lockd t = lockd s" "log_ok t" "blk t = blk s"
    "curproc t = curproc s" "locks t = locks s" "sleeplocks t (InodeLock i) = sleeplocks s (InodeLock i)" "devsw t = devsw s"
    using lenv_fs [OF l] assms by (simp_all add: rtxn_def txn_def)
qed

lemma rtxn_fs_ready: "rtxn s t \<Longrightarrow> fs_ready k s \<Longrightarrow> fs_ready k t"
  using fs_ready_same [of 0 "s\<lparr>mem := mem t\<rparr>" t k] by (simp add: rtxn_def)

subsection \<open>The bytes of a file\<close>

definition fbyte :: "(u32 \<Rightarrow> u8 list) \<Rightarrow> dinode \<Rightarrow> nat \<Rightarrow> u8" where
  "fbyte V x i = V (faddr V x (i div 512)) ! (i mod 512)"

definition content :: "(u32 \<Rightarrow> u8 list) \<Rightarrow> dinode \<Rightarrow> u8 list" where
  "content V x = map (fbyte V x) [0..<unat (d_size x)]"

text \<open>A well-formed file: its inode is, and every block up to its size is there.\<close>

definition file_ok :: "(u32 \<Rightarrow> u8 list) \<Rightarrow> superblock \<Rightarrow> u32 set \<Rightarrow> dinode \<Rightarrow> bool" where
  "file_ok V sb M x \<longleftrightarrow> inode_ok V sb M x \<and> unat (d_size x) \<le> 71680 \<and>
     (\<forall>bn < 140. bn * 512 < unat (d_size x) \<longrightarrow> faddr V x bn \<noteq> 0)"

lemma length_content [simp]: "length (content V x) = unat (d_size x)"
  by (simp add: content_def)

lemma chunk_div: "j < 512 - off mod 512 \<Longrightarrow> (off + j) div 512 = off div 512 \<and> (off + j) mod 512 = off mod 512 + (j :: nat)"
proof -
  assume j: "j < 512 - off mod 512"
  have "off + j = (off mod 512 + j) + 512 * (off div 512)" by (simp add: mult_div_mod_eq [symmetric])
  moreover have "off mod 512 + j < 512" using j by linarith
  ultimately show ?thesis by (metis div_less div_mult_self2 mod_less mod_mult_self2 add.commute add_0 zero_neq_numeral)
qed

lemma content_chunk:
  assumes "off + m \<le> unat (d_size x)" "m \<le> 512 - off mod 512" "length (V (faddr V x (off div 512))) = 512"
  shows "take m (drop (off mod 512) (V (faddr V x (off div 512)))) = take m (drop off (content V x))"
proof (rule nth_equalityI)
  show "length (take m (drop (off mod 512) (V (faddr V x (off div 512))))) = length (take m (drop off (content V x)))"
    using assms by simp
  fix i assume "i < length (take m (drop (off mod 512) (V (faddr V x (off div 512)))))"
  then have i: "i < m" by simp
  then have "fbyte V x (off + i) = V (faddr V x (off div 512)) ! (off mod 512 + i)"
    using chunk_div [of i off] assms(2) by (simp add: fbyte_def)
  then show "take m (drop (off mod 512) (V (faddr V x (off div 512)))) ! i = take m (drop off (content V x)) ! i"
    using i assms by (simp add: content_def add.commute)
qed

subsection \<open>Reading\<close>

text \<open>One iteration of the loop of \<^verbatim>\<open>readi\<close>.\<close>

lemma read_chunk:
  assumes "fs_ready k s" "lockd s = (\<lambda>_. None)" "i_dev (inodes s ip) = 1" "x = i_d (inodes s ip)"
    and "inode_ok (blk s) (fs_sb s) (metab s) x" "bn < 140" "faddr (blk s) x bn \<noteq> 0"
    and "copy_mem dst tot (f (blk s (faddr (blk s) x bn))) (cr3 s) (mem s) = Some m"
  shows "\<exists>u bp v w. bmap ip (of_nat bn) s = Ret (faddr (blk s) x bn) u \<and> bread (i_dev (inodes u ip)) (faddr (blk s) x bn) u = Ret bp v \<and>
    b_data (bufs v bp) = blk s (faddr (blk s) x bn) \<and> copy_out dst tot (f (b_data (bufs v bp))) v = Some (v\<lparr>mem := m\<rparr>) \<and>
    brelse bp (v\<lparr>mem := m\<rparr>) = Ret () w \<and> rtxn s w \<and> mem w = m"
proof -
  let ?a = "faddr (blk s) x bn"
  from bmap_hit [OF assms(1-7)] obtain u where u: "bmap ip (of_nat bn) s = Ret ?a u" "txn 0 s u" "blk u = blk s" "fs_ready k u" by blast
  have su: "lenv s u" "lockd u = lockd s" using u(2) by (auto simp: txn_def)
  note e = lenv_fs [OF su(1)]
  have "?a \<in> iblocks (blk s) x" by (rule faddr_iblocks [OF assms(6,7)])
  then have a: "?a < sb_size (fs_sb u)" "used (blk u) (fs_sb u) ?a" "?a \<notin> metab u" using assms(5) by (auto simp: inode_ok_def e u(3))
  from bread_data [OF u(4) _ a] assms(2) su(2) obtain bp v where v: "bread 1 ?a u = Ret bp v" "fs_ready k v" "b_data (bufs v bp) = blk s ?a"
    "lockd v = (\<lambda>_. None)(bp \<mapsto> (?a, blk s ?a))" "blk v = blk s" "dirtyb v = dirtyb u" "disk v = disk u" "benv u v" by (auto simp: u(3))
  note e' = lenv_fs [OF benv_lenv [OF v(8)]]
  define v' where "v' = v\<lparr>mem := m\<rparr>"
  have lv: "log_ok v'" "log_ok u" using v(2) u(4) by (auto simp: fs_ready_def ready_def v'_def)
  have "lockd v' bp = Some (?a, blk s ?a)" "?a \<in> dirtyb v' \<or> disk v' ?a = blk s ?a"
    using v blk_disk [OF lv(2), of ?a] su(2) assms(2) u(3) by (auto simp: v'_def ran_none)
  from ready_brelse [OF lv(1) this] obtain w where w: "brelse bp v' = Ret () w" "log_ok w" "lockd w = (lockd v')(bp := None)"
    "blk w = blk v'" "dirtyb w = dirtyb v'" "disk w = disk v'" "benv v' w" by blast
  have mw: "mem w = m" using lenv_fs(5) [OF benv_lenv [OF w(7)]] by (simp add: v'_def)
  have "lenv (u\<lparr>mem := m\<rparr>) v'" unfolding v'_def by (rule lenv_mem [OF benv_lenv [OF v(8)]])
  then have uw: "lenv (u\<lparr>mem := m\<rparr>) w" using lenv_trans [OF _ benv_lenv [OF w(7)]] by blast
  have "lh_n w = lh_n u" using benv_log(3) [OF w(7)] benv_log(3) [OF v(8)] by (simp add: v'_def)
  then have "txn 0 (u\<lparr>mem := m\<rparr>) w" using w v uw su(2) assms(2) by (auto simp: txn_def v'_def)
  then have "rtxn u w" using w(4) v(5) u(3) mw by (simp add: rtxn_def v'_def)
  then have "rtxn s w" by (rule rtxn_trans [OF txn_rtxn [OF u(2,3)]])
  moreover have "copy_out dst tot (f (b_data (bufs v bp))) v = Some v'"
    using assms(8) by (simp add: copy_out_mem v'_def v(3) e e')
  ultimately show ?thesis using u(1) v(1,3) w(1) mw assms(3) unfolding v'_def by (auto simp: e)
qed

lemma readi_loop_law:
  assumes "fs_ready k s" "lockd s = (\<lambda>_. None)" "i_dev (inodes s ip) = 1" "x = i_d (inodes s ip)"
    and "file_ok (blk s) (fs_sb s) (metab s) x" "off + (n - tot) \<le> unat (d_size x)"
    and "copy_mem dst tot (take (n - tot) (drop off (content (blk s) x))) (cr3 s) (mem s) = Some m"
  shows "\<exists>t. readi_loop ip dst off tot n s = Ret (take (n - tot) (drop off (content (blk s) x))) t \<and> rtxn s t \<and> mem t = m"
  using assms
proof (induction "n - tot" arbitrary: off tot s rule: less_induct)
  case less
  show ?case
  proof (cases "tot < n")
    case False
    have "txn 0 s s" using less.prems(1) by (intro txn_refl) (simp add: fs_ready_def ready_def)
    with False less.prems(7) show ?thesis
      by (subst readi_loop.simps) (cases dst; simp add: copy_mem_def txn_rtxn)
  next
    case True
    define mm where "mm = min (n - tot) (512 - off mod 512)"
    define bs where "bs = take mm (drop off (content (blk s) x))"
    define rest where "rest = take (n - (tot + mm)) (drop (off + mm) (content (blk s) x))"
    have mm: "0 < mm" "mm \<le> n - tot" "mm \<le> 512 - off mod 512" using True by (auto simp: mm_def)
    have size: "unat (d_size x) \<le> 71680" "inode_ok (blk s) (fs_sb s) (metab s) x" using less.prems(5) by (auto simp: file_ok_def)
    have bn: "off div 512 < 140" "off div 512 * 512 < unat (d_size x)" using less.prems(6) True size(1) mm
      by (auto simp: div_less_iff_less_mult)
    then have fa: "faddr (blk s) x (off div 512) \<noteq> 0" using less.prems(5) by (simp add: file_ok_def)
    then have "faddr (blk s) x (off div 512) < sb_size (fs_sb s)"
      using faddr_iblocks [OF bn(1) fa] size(2) by (auto simp: inode_ok_def)
    then have "faddr (blk s) x (off div 512) < disksize s" using less.prems(1) by (force simp: fs_ready_def fsmap_ok_def)
    then have len: "length (blk s (faddr (blk s) x (off div 512))) = 512"
      using bcache.size_law [OF log_okD(1)] less.prems(1) by (auto simp: fs_ready_def ready_def)
    have ch: "take mm (drop (off mod 512) (blk s (faddr (blk s) x (off div 512)))) = bs"
      unfolding bs_def by (rule content_chunk [of off mm x "blk s"]) (use less.prems(6) mm len in simp_all)
    have sp: "take (n - tot) (drop off (content (blk s) x)) = bs @ rest"
    proof -
      have "n - tot = mm + (n - (tot + mm))" using mm(2) by simp
      then show ?thesis by (metis bs_def rest_def take_add drop_drop add.commute)
    qed
    have lens: "length bs = mm" "length bs + length rest < 2 ^ 32" using less.prems(6) mm(2) size(1) by (auto simp: bs_def rest_def)
    from less.prems(7) obtain m1 where m1: "copy_mem dst tot bs (cr3 s) (mem s) = Some m1" "copy_mem dst (tot + mm) rest (cr3 s) m1 = Some m"
      unfolding sp copy_mem_append [OF lens(2)] lens(1) by (auto simp: bind_eq_Some_conv)
    from read_chunk [OF less.prems(1-4) size(2) bn(1) fa, of dst tot "\<lambda>d. take mm (drop (off mod 512) d)" m1] m1(1) ch
    obtain u bp v w where w: "bmap ip (of_nat (off div 512)) s = Ret (faddr (blk s) x (off div 512)) u"
      "bread (i_dev (inodes u ip)) (faddr (blk s) x (off div 512)) u = Ret bp v" "b_data (bufs v bp) = blk s (faddr (blk s) x (off div 512))"
      "copy_out dst tot (take mm (drop (off mod 512) (b_data (bufs v bp)))) v = Some (v\<lparr>mem := m1\<rparr>)" "brelse bp (v\<lparr>mem := m1\<rparr>) = Ret () w"
      "rtxn s w" "mem w = m1" by auto
    note e = rtxn_env [OF w(6)]
    have "n - (tot + mm) < n - tot" using mm True by simp
    moreover have "off + mm + (n - (tot + mm)) \<le> unat (d_size x)" using less.prems(6) mm by simp
    moreover have "copy_mem dst (tot + mm) rest (cr3 w) (mem w) = Some m" using m1(2) w(7) by (simp add: e)
    ultimately obtain t where t: "readi_loop ip dst (off + mm) (tot + mm) n w = Ret rest t" "rtxn w t" "mem t = m"
      using less.hyps [of "tot + mm" w "off + mm"] rtxn_fs_ready [OF w(6) less.prems(1)] less.prems(2-5) by (auto simp: e rest_def)
    have "(of_nat off :: u32) div 512 = of_nat (off div 512)"
      using less.prems(6) size(1) by (simp add: word_unat_eq_iff unat_div_distrib unat_of_nat_u32)
    then have "readi_loop ip dst off tot n s = Ret (bs @ rest) t"
      using True w t(1) ch by (subst readi_loop.simps) (simp add: Let_def mm_def [symmetric])
    then show ?thesis using rtxn_trans [OF w(6) t(2)] t(3) sp by auto
  qed
qed

lemma readi_law:
  assumes "fs_ready k s" "lockd s = (\<lambda>_. None)" "i_dev (inodes s ip) = 1" "x = i_d (inodes s ip)" "d_type x \<noteq> T_DEV"
    and "file_ok (blk s) (fs_sb s) (metab s) x" "off \<le> d_size x" "off \<le> off + n"
    and bs: "bs = take (unat n) (drop (unat off) (content (blk s) x))" "copy_mem dst 0 bs (cr3 s) (mem s) = Some m"
  shows "\<exists>t. readi ip dst off n s = Ret (int (length bs), bs) t \<and> rtxn s t \<and> mem t = m"
proof -
  define n' where "n' = (if off + n > d_size x then d_size x - off else n)"
  have sz: "unat (d_size x) \<le> 71680" using assms(6) by (simp add: file_ok_def)
  have un: "unat (off + n) = unat off + unat n" using assms(8) by (simp add: unat_plus_simple)
  have n': "unat n' = min (unat n) (unat (d_size x) - unat off)"
    using assms(7) un by (auto simp: n'_def word_less_nat_alt word_le_nat_alt unat_sub min_def)
  have l: "length bs = unat n'" by (simp add: bs(1) n' min.commute)
  have b': "bs = take (unat n' - 0) (drop (unat off) (content (blk s) x))"
    using l by (simp add: bs(1) n') (metis length_content length_drop take_all min.commute min_def nle_le order_refl take_all_iff)
  have "unat off + (unat n' - 0) \<le> unat (d_size x)" using assms(7) by (simp add: n' word_le_nat_alt)
  from readi_loop_law [OF assms(1-4,6) this, of dst m] bs(2) b' obtain t where
    t: "readi_loop ip dst (unat off) 0 (unat n') s = Ret bs t" "rtxn s t" "mem t = m" by auto
  have "sint n' = int (length bs)" using sint_eq_unat [of n'] sz l n' by simp
  then have "readi ip dst off n s = Ret (int (length bs), bs) t"
    using t(1) assms(4,5,7,8) by (auto simp: readi_def Let_def n'_def not_less split: if_splits)
  then show ?thesis using t by blast
qed

end
