(* ===== verification/FileWrite.thy ===== *)
theory FileWrite
  imports FileData
begin

text \<open>
  Writing files: \<^verbatim>\<open>writei\<close> followed through \<^verbatim>\<open>bmap\<close>, the block allocator, the buffer cache and the log. It replaces
  or appends bytes of the file, keeps the inode well formed and touches no block of another file.
\<close>

text \<open>
  The effect of writing \<open>bs\<close> at \<open>off\<close> on a file, apart from its size: the bytes in the range are the new ones,
  all others are as before, and the only blocks touched are the file's own, free ones and the free map.
\<close>

definition wrote :: "superblock \<Rightarrow> u32 set \<Rightarrow> (u32 \<Rightarrow> u8 list) \<Rightarrow> dinode \<Rightarrow> nat \<Rightarrow> u8 list \<Rightarrow> nat \<Rightarrow> (u32 \<Rightarrow> u8 list) \<Rightarrow> dinode \<Rightarrow> bool" where
  "wrote sb M V x off bs c V' x' \<longleftrightarrow> x' = x\<lparr>d_addrs := d_addrs x'\<rparr> \<and> inode_ok V' sb M x' \<and>
     ((\<forall>i < 71680. off \<le> i \<and> i < off + length bs \<longrightarrow> faddr V x (i div 512) \<noteq> 0) \<longrightarrow> x' = x) \<and>
     (\<forall>bn < 140. faddr V x bn \<noteq> 0 \<longrightarrow> faddr V' x' bn = faddr V x bn) \<and>
     (\<forall>i < 71680. off \<le> i \<and> i < off + length bs \<longrightarrow> faddr V' x' (i div 512) \<noteq> 0 \<and> fbyte V' x' i = bs ! (i - off)) \<and>
     (\<forall>i < 71680. \<not> (off \<le> i \<and> i < off + length bs) \<and> faddr V x (i div 512) \<noteq> 0 \<longrightarrow> fbyte V' x' i = fbyte V x i) \<and>
     keep V V' sb M (iblocks V x) \<and> iblocks V' x' \<subseteq> iblocks V x \<union> {b. b < sb_size sb \<and> \<not> used V sb b} \<and>
     nfree V sb \<le> nfree V' sb + 2 * c"

lemma wrote_none: "inode_ok V sb M x \<Longrightarrow> wrote sb M V x off [] 0 V x"
  by (auto simp: wrote_def)

lemma wrote_trans:
  assumes "wrote sb M V x off bs c V1 x1" "wrote sb M V1 x1 (off + length bs) cs c' V2 x2"
  shows "wrote sb M V x off (bs @ cs) (c + c') V2 x2"
proof -
  note a = assms(1) [unfolded wrote_def] and b = assms(2) [unfolded wrote_def]
  have k: "keep V V1 sb M (iblocks V x)" "keep V1 V2 sb M (iblocks V1 x1)" using a b by auto
  have ib: "iblocks V1 x1 \<subseteq> iblocks V x \<union> {b. b < sb_size sb \<and> \<not> used V sb b}" using a by blast
  then have "keep V V2 sb M (iblocks V x)" by (rule keep_trans_free [OF k])
  moreover have "iblocks V2 x2 \<subseteq> iblocks V x \<union> {b. b < sb_size sb \<and> \<not> used V sb b}"
    using ib keep_free [OF k(1)] b by blast
  moreover have "x2 = x\<lparr>d_addrs := d_addrs x2\<rparr>" using a b by (metis dinode.surjective dinode.update_convs(6))
  moreover have "x2 = x" if r: "\<forall>i < 71680. off \<le> i \<and> i < off + length (bs @ cs) \<longrightarrow> faddr V x (i div 512) \<noteq> 0"
  proof -
    have "\<forall>i < 71680. off \<le> i \<and> i < off + length bs \<longrightarrow> faddr V x (i div 512) \<noteq> 0" using r by auto
    then have x1: "x1 = x" using a by blast
    have "faddr V1 x1 (i div 512) \<noteq> 0" if "i < 71680" "off + length bs \<le> i \<and> i < off + length bs + length cs" for i
    proof -
      have "i div 512 < 140" using that(1) by (simp add: div_less_iff_less_mult)
      moreover have "faddr V x (i div 512) \<noteq> 0" using r that by auto
      ultimately show ?thesis using a by auto
    qed
    then show ?thesis using b x1 by blast
  qed
  moreover have "\<forall>bn < 140. faddr V x bn \<noteq> 0 \<longrightarrow> faddr V2 x2 bn = faddr V x bn" using a b by metis
  moreover have "nfree V sb \<le> nfree V1 sb + 2 * c" "nfree V1 sb \<le> nfree V2 sb + 2 * c'" using a b by blast+
  then have "nfree V sb \<le> nfree V2 sb + 2 * (c + c')" by simp
  moreover have "faddr V2 x2 (i div 512) \<noteq> 0 \<and> fbyte V2 x2 i = (bs @ cs) ! (i - off)"
    if i: "i < 71680" "off \<le> i" "i < off + length (bs @ cs)" for i
  proof (cases "i < off + length bs")
    case True
    then have "faddr V1 x1 (i div 512) \<noteq> 0 \<and> fbyte V1 x1 i = bs ! (i - off)" using a i by blast
    moreover have "i div 512 < 140" using i(1) by auto
    ultimately show ?thesis using b i True by (auto simp: nth_append)
  next
    case False
    then have "faddr V2 x2 (i div 512) \<noteq> 0 \<and> fbyte V2 x2 i = cs ! (i - (off + length bs))" using b i by auto
    moreover have "(bs @ cs) ! (i - off) = cs ! (i - off - length bs)" using False i(2) by (intro nth_append_right) linarith
    ultimately show ?thesis by (simp add: diff_diff_left)
  qed
  moreover have "fbyte V2 x2 i = fbyte V x i"
    if i: "i < 71680" "\<not> (off \<le> i \<and> i < off + length (bs @ cs))" "faddr V x (i div 512) \<noteq> 0" for i
  proof -
    have d: "i div 512 < 140" using i(1) by auto
    have "fbyte V1 x1 i = fbyte V x i" "faddr V1 x1 (i div 512) \<noteq> 0" using a i d by auto
    then show ?thesis using b i by auto
  qed
  ultimately show ?thesis using b unfolding wrote_def by blast
qed

lemma mapped_fbyte:
  assumes "inode_ok V sb M x" "mapped sb M V x bn V' x'" "i < 71680" "faddr V x (i div 512) \<noteq> 0"
  shows "faddr V' x' (i div 512) = faddr V x (i div 512)" "V' (faddr V x (i div 512)) = V (faddr V x (i div 512))"
proof -
  let ?a = "faddr V x (i div 512)"
  have d: "i div 512 < 140" using assms(3) by auto
  show "faddr V' x' (i div 512) = ?a" using assms(2,4) d by (cases "i div 512 = bn") (auto simp: mapped_def)
  have "?a \<in> iblocks V x" by (rule faddr_iblocks [OF d assms(4)])
  then have "?a < sb_size sb" "used V sb ?a" "?a \<notin> M" "?a \<noteq> d_addrs x ! 12"
    using assms(1,4) d by (auto simp: inode_ok_def)
  then show "V' ?a = V ?a" using assms(2) by (auto simp: mapped_def keep_def)
qed

text \<open>The content after \<^verbatim>\<open>bmap\<close> and after putting the bytes into the block it delivered.\<close>

lemma wrote_chunk:
  fixes s :: "'a fstate_scheme"
  assumes "inode_ok V (fs_sb s) (metab s) x" "mapped (fs_sb s) (metab s) V x bn V1 x'" "bn = off div 512" "off < 71680"
    and ne: "bs \<noteq> []" and a: "a = faddr V1 x' bn" and len: "length (V1 a) = 512" "off mod 512 + length bs \<le> 512"
    and d: "d = take (off mod 512) (V1 a) @ bs @ drop (off mod 512 + length bs) (V1 a)" and V2: "V2 = V1(a := d)"
  shows "wrote (fs_sb s) (metab s) V x off bs 1 V2 x'"
proof -
  let ?sb = "fs_sb s" and ?M = "metab s"
  have bn: "bn < 140" using assms(3,4) by auto
  have m: "inode_ok V1 ?sb ?M x'" "a \<noteq> 0" "x' = x\<lparr>d_addrs := d_addrs x'\<rparr>" using assms(2) by (auto simp: mapped_def a)
  have aib: "a \<in> iblocks V1 x'" unfolding a using m(2) by (intro faddr_iblocks [OF bn]) (simp add: a)
  then have aM: "a \<notin> ?M" using m(1) by (auto simp: inode_ok_def)
  have a12: "d_addrs x' ! 12 \<noteq> a" using m(1,2) bn unfolding inode_ok_def a by metis
  have fa: "faddr V2 x' = faddr V1 x'" by (rule faddr_same) (use a12 in \<open>simp add: V2\<close>)
  then have fb: "fbyte V2 x' i = (if faddr V1 x' (i div 512) = a then d else V1 (faddr V1 x' (i div 512))) ! (i mod 512)" for i
    unfolding fbyte_def fa by (simp add: V2)
  have ib: "iblocks V2 x' = iblocks V1 x'" by (simp add: iblocks_def fa)
  have io: "inode_ok V2 ?sb ?M x'" using m(1) used_data [OF aM, of _ V1 d, folded V2] unfolding inode_ok_def ib fa by blast
  have inj: "bm = bn" if "bm < 140" "faddr V1 x' bm = a" for bm using m(1,2) that bn unfolding inode_ok_def a by metis
  have old: "fbyte V2 x' i = fbyte V x i"
    if i: "i < 71680" "\<not> (off \<le> i \<and> i < off + length bs)" "faddr V x (i div 512) \<noteq> 0" for i
  proof -
    note mf = mapped_fbyte [OF assms(1,2) i(1,3)]
    show ?thesis
    proof (cases "i div 512 = bn")
      case False
      moreover have "i div 512 < 140" using i(1) by (simp add: div_less_iff_less_mult)
      ultimately have "faddr V x (i div 512) \<noteq> a" using inj [of "i div 512"] mf(1) by auto
      then show ?thesis using mf unfolding fb by (simp add: fbyte_def)
    next
      case True
      then have aeq: "faddr V x (i div 512) = a" using mf(1) by (simp add: a)
      have "bn * 512 + i mod 512 = i" "bn * 512 + off mod 512 = off"
        using div_mult_mod_eq [of i 512] div_mult_mod_eq [of off 512] True unfolding assms(3) by metis+
      then have "i mod 512 < off mod 512 \<or> off mod 512 + length bs \<le> i mod 512" using i(2) by linarith
      moreover have "i mod 512 < 512" by simp
      ultimately have "d ! (i mod 512) = V1 a ! (i mod 512)" using len by (auto simp: d nth_append)
      then show ?thesis using mf aeq unfolding fb by (simp add: fbyte_def)
    qed
  qed
  have new: "faddr V2 x' (i div 512) \<noteq> 0 \<and> fbyte V2 x' i = bs ! (i - off)" if i: "off \<le> i" "i < off + length bs" for i
  proof -
    obtain j where j: "i = off + j" "j < length bs" using i by (metis le_Suc_ex nat_add_left_cancel_less)
    then have "j < 512 - off mod 512" using len(2) by linarith
    from chunk_div [OF this] j have "i div 512 = bn" "i mod 512 = off mod 512 + j" by (auto simp: assms(3))
    moreover have "d ! (off mod 512 + j) = bs ! j" using j(2) len by (simp add: d nth_append)
    ultimately show ?thesis using m(2) j(1) unfolding fb fa by (simp add: a)
  qed
  have f: "{a} \<subseteq> iblocks V x \<union> {b. b < sb_size ?sb \<and> \<not> used V ?sb b}" using aib assms(2) by (auto simp: mapped_def)
  have "keep V V1 ?sb ?M ({d_addrs x ! 12} - {0})" "{d_addrs x ! 12} - {0} \<subseteq> iblocks V x"
    using assms(2) by (auto simp: mapped_def iblocks_def)
  then have "keep V V1 ?sb ?M (iblocks V x)" by (rule keep_mono)
  then have "keep V V2 ?sb ?M (iblocks V x)" unfolding V2 using keep_data [OF aM] f by (rule keep_trans_free)
  moreover have same: "x' = x" if "\<forall>i < 71680. off \<le> i \<and> i < off + length bs \<longrightarrow> faddr V x (i div 512) \<noteq> 0"
  proof -
    have "faddr V x bn \<noteq> 0" using that [rule_format, of off] ne assms(3,4) by simp
    then show ?thesis using assms(2) by (simp add: mapped_def)
  qed
  ultimately show ?thesis
    using m(3) io old new ib fa nfree_data [OF aM, of V1 d] assms(2) same unfolding wrote_def mapped_def by (auto simp: V2)
qed

lemma write_chunk:
  assumes "fs_ready (6 + k) s" "lockd s = (\<lambda>_. None)" "i_dev (inodes s ip) = 1" "x = i_d (inodes s ip)"
    and "inode_ok (blk s) (fs_sb s) (metab s) x" "off < 71680" "2 \<le> nfree (blk s) (fs_sb s) \<or> faddr (blk s) x (off div 512) \<noteq> 0"
    and "off mod 512 + length bs \<le> 512" "bs \<noteq> []"
  defines "put \<equiv> \<lambda>d. take (off mod 512) d @ bs @ drop (off mod 512 + length bs) d"
  shows "\<exists>a u bp v w t x'. bmap ip (of_nat (off div 512)) s = Ret a u \<and> bread (i_dev (inodes u ip)) a u = Ret bp v \<and> mem v = mem s \<and> cr3 v = cr3 s \<and>
    log_write bp (set_data bp (put (b_data (bufs v bp))) v) = Ret () w \<and> brelse bp w = Ret () t \<and> ftxn 6 s t \<and> fs_ready k t \<and>
    inodes t = set_d ip x' s \<and> wrote (fs_sb s) (metab s) (blk s) x off bs 1 (blk t) x'"
proof -
  define bn where "bn = off div 512"
  have bn: "bn < 140" using assms(6) by (auto simp: bn_def)
  have "fs_ready (5 + Suc k) s" using assms(1) by simp
  from bmap_law [OF this assms(2-5) bn] assms(7) obtain u x' where
    u: "bmap ip (of_nat bn) s = Ret (faddr (blk u) x' bn) u" "ftxn 5 s u" "fs_ready (Suc k) u" "inodes u = set_d ip x' s"
      "mapped (fs_sb s) (metab s) (blk s) x bn (blk u) x'" unfolding bn_def by blast
  note e = ftxn_env [OF u(2)]
  define a where "a = faddr (blk u) x' bn"
  have m: "inode_ok (blk u) (fs_sb s) (metab s) x'" "a \<noteq> 0" using u(5) by (auto simp: mapped_def a_def)
  have "a \<in> iblocks (blk u) x'" unfolding a_def using m(2) by (intro faddr_iblocks [OF bn]) (simp add: a_def)
  then have aa: "a < sb_size (fs_sb u)" "used (blk u) (fs_sb u) a" "a \<notin> metab u" using m(1) by (auto simp: inode_ok_def e)
  from bread_data [OF u(3) _ aa] assms(2) obtain bp v where v: "bread 1 a u = Ret bp v" "fs_ready (Suc k) v" "b_data (bufs v bp) = blk u a"
    "lockd v = (\<lambda>_. None)(bp \<mapsto> (a, blk u a))" "blk v = blk u" "dirtyb v = dirtyb u" "disk v = disk u" "benv u v" by (auto simp: e)
  note e' = lenv_fs [OF benv_lenv [OF v(8)]] lenv_log [OF benv_lenv [OF v(8)]]
  have lv: "log_ok v" "lockd v bp = Some (a, blk u a)" using v(2,4) by (auto simp: fs_ready_def ready_def)
  have len: "length (blk u a) = 512" by (rule lockd_props(8) [OF log_okD(1) [OF lv(1)] lv(2)])
  have ld: "length (put (blk u a)) = 512" using len assms(8) by (simp add: put_def)
  have "a \<notin> logreg v" "lh_n v < 29" "0 < log_outstanding v" using aa(3) v(2) by (auto simp: metab_def fs_ready_def ready_def e')
  from write_locked [OF lv this ld] obtain w t where t: "log_write bp (set_data bp (put (blk u a)) v) = Ret () w" "brelse bp w = Ret () t" "log_ok t"
    "lockd t = (lockd v)(bp := None)" "blk t = (blk u)(a := put (blk u a))" "disk t = disk u" "dirtyb t = insert a (dirtyb u)"
    "lh_n t \<le> lh_n u + 1" "lenv v t" using v(5-7) benv_log(3) [OF v(8)] by auto
  have ut: "lenv u t" by (rule lenv_trans [OF benv_lenv [OF v(8)] t(9)])
  have "txn 1 u t" using t v(4) ut assms(2) by (auto simp: txn_def e)
  then have "ftxn 6 s t" using ftxn_trans [OF u(2) txn_ftxn, of 1 t] by simp
  moreover have "fs_ready k t"
    using fsmap_ok_data [OF _ ut t(5) aa(3)] u(3) t(3,4,8) v(4) lenv_log(4) [OF ut] assms(2)
    by (auto simp: fs_ready_def ready_def locked_ok_def ran_def)
  moreover have "inodes t = set_d ip x' s" using lenv_fs(2) [OF ut] u(4) by simp
  moreover have "wrote (fs_sb s) (metab s) (blk s) x off bs 1 (blk t) x'"
    by (rule wrote_chunk [OF assms(5) u(5) bn_def assms(6,9) a_def len assms(8)]) (simp_all add: t(5) put_def)
  moreover have "i_dev (inodes u ip) = 1" using assms(3) by (simp add: u(4) set_d_def)
  moreover have "mem v = mem s" "cr3 v = cr3 s" using e e' by simp_all
  ultimately show ?thesis using u(1) v(1,3) t(1,2) unfolding bn_def [symmetric] a_def [symmetric] by metis
qed

subsection \<open>The loop of writei\<close>

text \<open>The number of blocks that \<open>r\<close> bytes at \<open>off\<close> touch.\<close>

definition nblk :: "nat \<Rightarrow> nat \<Rightarrow> nat" where
  "nblk off r = (if r = 0 then 0 else Suc ((off + r - 1) div 512 - off div 512))"

lemma nblk_step:
  assumes "0 < r" "m = min r (512 - off mod 512)"
  shows "nblk off r = Suc (nblk (off + m) (r - m))"
proof (cases "r \<le> 512 - off mod 512")
  case True
  then have "r - 1 < 512 - off mod 512" using assms(1) by linarith
  from chunk_div [OF this] assms True show ?thesis by (simp add: nblk_def)
next
  case False
  then have m: "m = 512 - off mod 512" "m < r" using assms by auto
  have o: "off + m = 512 * Suc (off div 512)"
  proof -
    have "off mod 512 < 512" "512 * (off div 512) + off mod 512 = off" by simp_all
    then show ?thesis using m(1) unfolding mult_Suc_right by linarith
  qed
  then have d: "(off + m) div 512 = Suc (off div 512)" by simp
  have "Suc (off div 512) \<le> (off + r - 1) div 512" unfolding less_eq_div_iff_mult_less_eq [of 512, simplified] using o m(2) by simp
  moreover have "off + m + (r - m) - 1 = off + r - 1" using m(2) by simp
  ultimately show ?thesis using m(2) d assms(1) by (simp add: nblk_def Suc_diff_Suc Suc_le_lessD)
qed

lemma uread_drop: "uread n va s = Some bs \<Longrightarrow> i \<le> n \<Longrightarrow> uread (n - i) (va + of_nat i) s = Some (drop i bs)"
proof (induction i arbitrary: n va bs)
  case (Suc i)
  then obtain n' where n: "n = Suc n'" by (cases n) auto
  with Suc.prems obtain b cs where "uread n' (va + 1) s = Some cs" "bs = b # cs" by (auto split: option.splits)
  with Suc.IH [of n' "va + 1" cs] Suc.prems n show ?case by (simp add: add.assoc)
qed simp

lemma copy_in_part:
  assumes "copy_in src 0 n s = Some bs" "tot + m \<le> n" "mem t = mem s" "cr3 t = cr3 s"
  shows "copy_in src tot m t = Some (take m (drop tot bs))"
proof (cases src)
  case (Bytes cs)
  then have "bs = take n cs" using assms(1) by (simp add: copy_in_def)
  then show ?thesis using Bytes assms(2) by (simp add: copy_in_def drop_take min_absorb1)
next
  case (FromUser a)
  then have "uread n a s = Some bs" using assms(1) by (simp add: copy_in_def)
  then have "uread (n - tot) (a + of_nat tot) s = Some (drop tot bs)" using uread_drop assms(2) by (metis add_leD1)
  then have "uread m (a + of_nat tot) s = Some (take m (drop tot bs))" using uread_take assms(2) by (metis add_le_imp_le_diff add.commute)
  then show ?thesis using FromUser uread_cong [OF assms(3,4)] by (simp add: copy_in_def)
qed

lemma writei_loop_law:
  assumes "fs_ready (6 * nblk off (n - tot) + k) s" "lockd s = (\<lambda>_. None)" "i_dev (inodes s ip) = 1" "x = i_d (inodes s ip)"
    and "inode_ok (blk s) (fs_sb s) (metab s) x" "off + (n - tot) \<le> 71680" "2 * nblk off (n - tot) \<le> nfree (blk s) (fs_sb s)"
    and "copy_in src 0 n s = Some bs" "length bs = n" "tot \<le> n"
  shows "\<exists>t x'. writei_loop ip src off tot n s = Ret () t \<and> ftxn (6 * nblk off (n - tot)) s t \<and> fs_ready k t \<and> inodes t = set_d ip x' s \<and>
    wrote (fs_sb s) (metab s) (blk s) x off (drop tot bs) (nblk off (n - tot)) (blk t) x'"
  using assms
proof (induction "n - tot" arbitrary: off tot s x k rule: less_induct)
  case less
  show ?case
  proof (cases "tot < n")
    case False
    then have "txn 0 s s" "log_ok s" using less.prems(1) by (auto intro: txn_refl simp: fs_ready_def ready_def)
    moreover have "inodes s = set_d ip x s" using less.prems(4) by (simp add: set_d_def)
    moreover have "wrote (fs_sb s) (metab s) (blk s) x off [] 0 (blk s) x" using wrote_none less.prems(5) by blast
    ultimately show ?thesis
      using False less.prems by (subst writei_loop.simps) (auto simp: nblk_def txn_ftxn)
  next
    case True
    define mm where "mm = min (n - tot) (512 - off mod 512)"
    define c where "c = take mm (drop tot bs)"
    have mm: "0 < mm" "mm \<le> n - tot" "mm \<le> 512 - off mod 512" using True by (auto simp: mm_def)
    have nb: "nblk off (n - tot) = Suc (nblk (off + mm) (n - (tot + mm)))"
      using nblk_step [OF _ mm_def] True by simp
    have lc: "length c = mm" "drop tot bs = c @ drop (tot + mm) bs"
      using mm(2) less.prems(9) by (simp_all add: c_def) (metis append_take_drop_id drop_drop add.commute)
    have "fs_ready (6 + (6 * nblk (off + mm) (n - (tot + mm)) + k)) s" using less.prems(1) by (simp add: nb algebra_simps)
    moreover have "off mod 512 + length c \<le> 512" "c \<noteq> []" "off < 71680" "2 \<le> nfree (blk s) (fs_sb s)"
      using mm lc(1) less.prems(6,7) True nb by auto
    ultimately obtain a u bp v w t x' where
      t: "bmap ip (of_nat (off div 512)) s = Ret a u" "bread (i_dev (inodes u ip)) a u = Ret bp v" "mem v = mem s" "cr3 v = cr3 s"
        "log_write bp (set_data bp (take (off mod 512) (b_data (bufs v bp)) @ c @ drop (off mod 512 + length c) (b_data (bufs v bp))) v) = Ret () w"
        "brelse bp w = Ret () t" "ftxn 6 s t" "fs_ready (6 * nblk (off + mm) (n - (tot + mm)) + k) t" "inodes t = set_d ip x' s"
        "wrote (fs_sb s) (metab s) (blk s) x off c 1 (blk t) x'"
      using write_chunk [OF _ less.prems(2-5)] by blast
    note e = ftxn_env [OF t(7)]
    have x': "i_d (inodes t ip) = x'" "i_dev (inodes t ip) = 1" "inode_ok (blk t) (fs_sb s) (metab s) x'"
      "nfree (blk s) (fs_sb s) \<le> nfree (blk t) (fs_sb s) + 2"
      using t(9,10) less.prems(3) by (auto simp: set_d_def wrote_def)
    have "copy_in src 0 n t = Some bs" using copy_in_part [OF less.prems(8), of 0 n t] less.prems(9) by (simp add: e)
    moreover have "n - (tot + mm) < n - tot" "off + mm + (n - (tot + mm)) \<le> 71680" "tot + mm \<le> n" using mm True less.prems(6) by auto
    moreover have "2 * nblk (off + mm) (n - (tot + mm)) \<le> nfree (blk t) (fs_sb t)" using less.prems(7) x'(4) nb by (simp add: e)
    ultimately obtain r y where r: "writei_loop ip src (off + mm) (tot + mm) n t = Ret () r"
        "ftxn (6 * nblk (off + mm) (n - (tot + mm))) t r" "fs_ready k r" "inodes r = set_d ip y t"
        "wrote (fs_sb s) (metab s) (blk t) x' (off + mm) (drop (tot + mm) bs) (nblk (off + mm) (n - (tot + mm))) (blk r) y"
      using less.hyps [of "tot + mm" "off + mm" k t x'] t(8) less.prems(2,9) x' by (auto simp: e)
    have "(of_nat off :: u32) div 512 = of_nat (off div 512)"
      using less.prems(6) by (simp add: word_unat_eq_iff unat_div_distrib unat_of_nat_u32)
    moreover have "copy_in src tot mm v = Some c" unfolding c_def using copy_in_part [OF less.prems(8) _ t(3,4)] mm(2) True by simp
    ultimately have "writei_loop ip src off tot n s = Ret () r"
      using True t(1,2,5,6) r(1) lc(1) by (subst writei_loop.simps) (simp add: Let_def mm_def [symmetric])
    moreover have "ftxn (6 * nblk off (n - tot)) s r" using ftxn_trans [OF t(7) r(2)] by (simp add: nb)
    moreover have "inodes r = set_d ip y s" using r(4) t(9) by (simp add: set_d_def)
    moreover have "wrote (fs_sb s) (metab s) (blk s) x off (drop tot bs) (nblk off (n - tot)) (blk r) y"
      using wrote_trans [OF t(10), unfolded lc(1), OF r(5)] by (simp add: lc(2) nb)
    ultimately show ?thesis using r(3) by blast
  qed
qed

end
