(* ===== verification/FileSys.thy ===== *)
theory FileSys
  imports FileWrite
begin

text \<open>
  The file system as a map from inode numbers to byte strings. The invariant on the disk: every allocated
  inode is well formed and no two of them share a block. \<^verbatim>\<open>writei\<close> keeps it and acts on the
  map as replacing or appending bytes of one file; \<^verbatim>\<open>readi\<close> reads from the map.
\<close>

definition dinode_at :: "(u32 \<Rightarrow> u8 list) \<Rightarrow> superblock \<Rightarrow> u32 \<Rightarrow> dinode" where
  "dinode_at V sb i = get_dinode (V (IBLOCK i sb)) (ioff i)"

definition allocated :: "'a fstate_scheme \<Rightarrow> u32 \<Rightarrow> bool" where
  "allocated s i \<longleftrightarrow> i < sb_ninodes (fs_sb s) \<and> d_type (dinode_at (blk s) (fs_sb s) i) \<noteq> 0"

definition blocks_of :: "'a fstate_scheme \<Rightarrow> u32 \<Rightarrow> u32 set" where
  "blocks_of s i = iblocks (blk s) (dinode_at (blk s) (fs_sb s) i)"

definition fs_ok :: "'a fstate_scheme \<Rightarrow> bool" where
  "fs_ok s \<longleftrightarrow> (\<forall>i. allocated s i \<longrightarrow> file_ok (blk s) (fs_sb s) (metab s) (dinode_at (blk s) (fs_sb s) i)) \<and>
     (\<forall>i j. allocated s i \<and> allocated s j \<and> i \<noteq> j \<longrightarrow> blocks_of s i \<inter> blocks_of s j = {})"

text \<open>The bytes of file \<open>i\<close>, and that entry \<open>ip\<close> of the inode cache holds a valid copy of inode \<open>i\<close>.\<close>

definition fdata :: "'a fstate_scheme \<Rightarrow> u32 \<Rightarrow> u8 list" where
  "fdata s i = content (blk s) (dinode_at (blk s) (fs_sb s) i)"

definition holds :: "nat \<Rightarrow> u32 \<Rightarrow> 'a fstate_scheme \<Rightarrow> bool" where
  "holds ip i s \<longleftrightarrow> i_dev (inodes s ip) = 1 \<and> i_inum (inodes s ip) = i \<and> i_d (inodes s ip) = dinode_at (blk s) (fs_sb s) i \<and> allocated s i"

subsection \<open>Writing an inode back\<close>

lemma inode_block:
  assumes "fs_ready k s" "i < sb_ninodes (fs_sb s)"
  defines "n \<equiv> IBLOCK i (fs_sb s)"
  shows "n < sb_size (fs_sb s)" "n < disksize s" "n \<in> metab s" "n \<notin> bmblocks (fs_sb s)" "n \<notin> logreg s" "n \<noteq> 1"
    "used (blk s) (fs_sb s) n" "length (blk s n) = 512"
proof -
  have f: "fsmap_ok s" "log_ok s" using assms(1) by (auto simp: fs_ready_def ready_def)
  show m: "n \<in> metab s" using assms(2) by (auto simp: metab_def n_def)
  then show s: "n < sb_size (fs_sb s)" "used (blk s) (fs_sb s) n" using f(1) by (auto simp: fsmap_ok_def)
  then show d: "n < disksize s" using f(1) by (auto simp: fsmap_ok_def intro: less_le_trans)
  show "n \<notin> bmblocks (fs_sb s)" "n \<notin> logreg s" "n \<noteq> 1" using f(1) assms(2) by (auto simp: fsmap_ok_def bmblocks_def n_def)
  show "length (blk s n) = 512" by (rule blk_length [OF log_okD(1) [OF f(2)] d])
qed

lemma used_other: "n \<notin> bmblocks sb \<Longrightarrow> b < sb_size sb \<Longrightarrow> used (V(n := d)) sb b = used V sb b"
  by (auto simp: used_def bmblocks_def)

lemma iupdate_law:
  assumes "fs_ready (Suc k) s" "lockd s = (\<lambda>_. None)" "i_dev (inodes s ip) = 1" "i = i_inum (inodes s ip)" "i < sb_ninodes (fs_sb s)"
  shows "\<exists>t. iupdate ip s = Ret () t \<and> txn 1 s t \<and> fs_ready k t \<and>
    blk t = (blk s)(IBLOCK i (fs_sb s) := put_dinode (ioff i) (i_d (inodes s ip)) (blk s (IBLOCK i (fs_sb s))))"
proof -
  define n where "n = IBLOCK i (fs_sb s)"
  define d where "d = put_dinode (ioff i) (i_d (inodes s ip)) (blk s n)"
  note ib = inode_block [OF assms(1,5), folded n_def]
  have r: "ready (Suc k) s" "fsmap_ok s" using assms(1) by (auto simp: fs_ready_def)
  have "length d = 512" using ib(8) by (simp add: d_def)
  moreover have "n \<notin> fst ` ran (lockd s)" using assms(2) by (simp add: ran_def)
  ultimately obtain b u v t where t: "bread 1 n s = Ret b u" "b_data (bufs u b) = blk s n" "benv s u"
    "log_write b (set_data b d u) = Ret () v" "brelse b v = Ret () t" "txn 1 s t" "blk t = (blk s)(n := d)"
    using update_block [OF r(1) ib(2) _ ib(5)] by blast
  have st: "lenv s t" using t(6) by (simp add: txn_def)
  note e = lenv_fs [OF st] lenv_log [OF st]
  have "fsmap_ok t" using r(2) used_other [OF ib(4)] ib(6) by (auto simp: fsmap_ok_def e t(7))
  moreover have "locked_ok t" using t(6) assms(2) by (simp add: locked_ok_def txn_def ran_def)
  ultimately have "fs_ready k t" using txn_ready [OF t(6), of k] r(1) by (simp add: fs_ready_def)
  moreover have "iupdate ip s = Ret () t"
    using t(1,2,4,5) assms(3,4) lenv_fs(2) [OF benv_lenv [OF t(3)]] by (simp add: iupdate_def Let_def n_def d_def)
  ultimately show ?thesis using t(6,7) unfolding n_def d_def by blast
qed

subsection \<open>Files that are not written\<close>

lemma content_cong: "\<forall>a \<in> iblocks V x. V' a = V a \<Longrightarrow> file_ok V sb M x \<Longrightarrow> content V' x = content V x"
proof -
  assume a: "\<forall>a \<in> iblocks V x. V' a = V a" and f: "file_ok V sb M x"
  have "fbyte V' x i = fbyte V x i" if "i < unat (d_size x)" for i
  proof -
    have "i div 512 < 140" using that f by (simp add: file_ok_def div_less_iff_less_mult)
    moreover have "i div 512 * 512 < unat (d_size x)" using that div_times_less_eq_dividend [of i 512] by (simp add: mult.commute)
    ultimately have "faddr V x (i div 512) \<in> iblocks V x" using f faddr_iblocks by (auto simp: file_ok_def)
    then show ?thesis using a faddr_cong [OF a] by (simp add: fbyte_def)
  qed
  then show ?thesis by (simp add: content_def)
qed

lemma file_ok_cong: "\<forall>a \<in> iblocks V x. V' a = V a \<and> used V' sb a \<Longrightarrow> file_ok V sb M x \<Longrightarrow> file_ok V' sb M x"
  using inode_ok_cong [of V sb M x V'] faddr_cong [of V x V'] by (auto simp: file_ok_def)

lemma put_other_inode:
  assumes "i \<noteq> j"
  shows "dinode_at (V(IBLOCK i sb := put_dinode (ioff i) x (V (IBLOCK i sb)))) sb j = dinode_at V sb j"
proof (cases "IBLOCK i sb = IBLOCK j sb")
  case True
  then have "i mod IPB \<noteq> j mod IPB" using IBLOCK_ioff_inj assms by blast
  from ioff_other [OF this] have "get_dinode (put_dinode (ioff i) x (V (IBLOCK i sb))) (ioff j) = get_dinode (V (IBLOCK i sb)) (ioff j)"
    by (intro get_put_dinode_other) auto
  with True show ?thesis by (simp add: dinode_at_def)
qed (simp add: dinode_at_def)

lemma put_same_inode: "length (V (IBLOCK i sb)) = 512 \<Longrightarrow> length (d_addrs x) = 13 \<Longrightarrow>
    dinode_at (V(IBLOCK i sb := put_dinode (ioff i) x (V (IBLOCK i sb)))) sb i = x"
  using ioff_bound [of i] by (simp add: dinode_at_def get_put_dinode)

subsection \<open>The file that is written\<close>

lemma d_size_irrelevant [simp]:
  "faddr V (x\<lparr>d_size := z\<rparr>) = faddr V x" "iblocks V (x\<lparr>d_size := z\<rparr>) = iblocks V x" "fbyte V (x\<lparr>d_size := z\<rparr>) = fbyte V x"
  "inode_ok V sb M (x\<lparr>d_size := z\<rparr>) = inode_ok V sb M x"
proof -
  show f: "faddr V (x\<lparr>d_size := z\<rparr>) = faddr V x" by (simp add: faddr_def fun_eq_iff)
  show i: "iblocks V (x\<lparr>d_size := z\<rparr>) = iblocks V x" by (simp add: iblocks_def f)
  show "fbyte V (x\<lparr>d_size := z\<rparr>) = fbyte V x" by (simp add: fbyte_def fun_eq_iff f)
  show "inode_ok V sb M (x\<lparr>d_size := z\<rparr>) = inode_ok V sb M x" by (simp add: inode_ok_def f i)
qed

lemma file_ok_mapped: "file_ok V sb M x \<Longrightarrow> i < unat (d_size x) \<Longrightarrow> faddr V x (i div 512) \<noteq> 0"
proof -
  assume f: "file_ok V sb M x" "i < unat (d_size x)"
  have "i div 512 < 140" using f by (simp add: file_ok_def div_less_iff_less_mult)
  moreover have "i div 512 * 512 < unat (d_size x)" using f(2) div_times_less_eq_dividend [of i 512] by (simp add: mult.commute)
  ultimately show ?thesis using f(1) by (simp add: file_ok_def)
qed

lemma wrote_content:
  assumes "file_ok V sb M x" "wrote sb M V x off bs c V' x'" "off \<le> unat (d_size x)" "off + length bs \<le> 71680"
  defines "y \<equiv> x'\<lparr>d_size := of_nat (max (unat (d_size x)) (off + length bs))\<rparr>"
  shows "file_ok V' sb M y" "content V' y = take off (content V x) @ bs @ drop (off + length bs) (content V x)"
proof -
  let ?n = "max (unat (d_size x)) (off + length bs)"
  have sz: "unat (d_size x) \<le> 71680" using assms(1) by (simp add: file_ok_def)
  then have n: "unat (d_size y) = ?n" "?n \<le> 71680" using assms(4) by (auto simp: y_def unat_of_nat_u32)
  have old: "faddr V' x' (i div 512) \<noteq> 0 \<and> fbyte V' x' i = fbyte V x i" if "i < unat (d_size x)" "\<not> (off \<le> i \<and> i < off + length bs)" for i
  proof -
    have "faddr V x (i div 512) \<noteq> 0" "i < 71680" using file_ok_mapped [OF assms(1) that(1)] that sz by auto
    moreover from this have "i div 512 < 140" by (simp add: div_less_iff_less_mult)
    ultimately show ?thesis using assms(2) that(2) unfolding wrote_def by auto
  qed
  have new: "faddr V' x' (i div 512) \<noteq> 0 \<and> fbyte V' x' i = bs ! (i - off)" if "off \<le> i" "i < off + length bs" for i
    using assms(2,4) that unfolding wrote_def by auto
  have "faddr V' x' bn \<noteq> 0" if "bn * 512 < ?n" for bn
  proof (cases "bn * 512 < unat (d_size x) \<and> \<not> (off \<le> bn * 512 \<and> bn * 512 < off + length bs)")
    case True
    then show ?thesis using old [of "bn * 512"] by simp
  next
    case False
    then have "off \<le> bn * 512" "bn * 512 < off + length bs" using that assms(3) by auto
    then show ?thesis using new [of "bn * 512"] by simp
  qed
  moreover have "inode_ok V' sb M x'" using assms(2) by (simp add: wrote_def)
  ultimately show "file_ok V' sb M y" using n by (simp add: file_ok_def) (simp add: y_def)
  show "content V' y = take off (content V x) @ bs @ drop (off + length bs) (content V x)"
  proof (rule nth_equalityI)
    show "length (content V' y) = length (take off (content V x) @ bs @ drop (off + length bs) (content V x))"
      using n assms(3) by auto
    fix i assume i: "i < length (content V' y)"
    then have l: "content V' y ! i = fbyte V' x' i" "i < ?n" using n by (simp_all add: content_def) (simp add: y_def)
    consider "i < off" | "off \<le> i" "i < off + length bs" | "off + length bs \<le> i" by linarith
    then show "content V' y ! i = (take off (content V x) @ bs @ drop (off + length bs) (content V x)) ! i"
    proof cases
      case 1
      with old [of i] l assms(3) show ?thesis by (simp add: nth_append content_def)
    next
      case 2
      then have "i - off < length bs" by linarith
      with 2 new [of i] l assms(3) show ?thesis by (simp add: nth_append)
    next
      case 3
      then have "\<not> i - off < length bs" by linarith
      with 3 old [of i] l assms(3) show ?thesis by (simp add: nth_append content_def)
    qed
  qed
qed

lemma wrote_same_inode:
  assumes "file_ok V sb M x" "wrote sb M V x off bs c V' x'" "off + length bs \<le> unat (d_size x)"
  shows "x' = x"
  using assms(2) file_ok_mapped [OF assms(1)] assms(3) unfolding wrote_def by auto

text \<open>The blocks of an allocated file that is not written, and the inode blocks, survive.\<close>

lemma wrote_keeps:
  assumes "wrote sb M V x off bs c V' x'" "file_ok V sb M y" "iblocks V y \<inter> iblocks V x = {}"
  shows "\<forall>a \<in> iblocks V y. V' a = V a \<and> used V' sb a" "iblocks V y \<inter> iblocks V' x' = {}"
proof -
  have w: "keep V V' sb M (iblocks V x)" "iblocks V' x' \<subseteq> iblocks V x \<union> {b. b < sb_size sb \<and> \<not> used V sb b}"
    using assms(1) unfolding wrote_def by blast+
  have y: "a < sb_size sb" "used V sb a" "a \<notin> M" "a \<notin> iblocks V x" if "a \<in> iblocks V y" for a
    using assms(2,3) that by (auto simp: file_ok_def inode_ok_def)
  show "\<forall>a \<in> iblocks V y. V' a = V a \<and> used V' sb a" using w(1) y unfolding keep_def by blast
  show "iblocks V y \<inter> iblocks V' x' = {}" using w(2) y by blast
qed

subsection \<open>writei\<close>

lemma writei_law:
  assumes "fs_ready (Suc (6 * nblk (unat off) (unat n) + k)) s" "lockd s = (\<lambda>_. None)" "i_dev (inodes s ip) = 1" "x = i_d (inodes s ip)" "d_type x \<noteq> T_DEV"
    and "i = i_inum (inodes s ip)" "i < sb_ninodes (fs_sb s)" "file_ok (blk s) (fs_sb s) (metab s) x" "off \<le> d_size x"
    and "unat off + unat n \<le> 71680" "2 * nblk (unat off) (unat n) \<le> nfree (blk s) (fs_sb s)" "copy_in src 0 (unat n) s = Some bs" "length bs = unat n"
  shows "\<exists>t V1 x1 x'. writei ip src off n s = Ret (int (unat n)) t \<and> ftxn (Suc (6 * nblk (unat off) (unat n))) s t \<and> fs_ready k t \<and> inodes t = set_d ip x' s \<and>
    wrote (fs_sb s) (metab s) (blk s) x (unat off) bs (nblk (unat off) (unat n)) V1 x1 \<and> x' = x1\<lparr>d_size := of_nat (max (unat (d_size x)) (unat off + unat n))\<rparr> \<and>
    blk t = (if unat off + unat n > unat (d_size x) then V1(IBLOCK i (fs_sb s) := put_dinode (ioff i) x' (V1 (IBLOCK i (fs_sb s)))) else V1)"
proof -
  let ?c = "nblk (unat off) (unat n)"
  have "inode_ok (blk s) (fs_sb s) (metab s) x" "fs_ready (6 * nblk (unat off) (unat n - 0) + Suc k) s"
    using assms(1,8) by (simp_all add: file_ok_def)
  from writei_loop_law [OF this(2) assms(2-4) this(1) _ _ assms(12,13)] assms(10,11) obtain u x1 where
    u: "writei_loop ip src (unat off) 0 (unat n) s = Ret () u" "ftxn (6 * ?c) s u" "fs_ready (Suc k) u" "inodes u = set_d ip x1 s"
      "wrote (fs_sb s) (metab s) (blk s) x (unat off) bs ?c (blk u) x1" by auto
  note e = ftxn_env [OF u(2)]
  have x1: "d_size x1 = d_size x" using u(5) unfolding wrote_def by (metis dinode.select_convs(5) dinode.surjective dinode.update_convs(6))
  have wn: "unat (off + n) = unat off + unat n" "\<not> off + n < off" "\<not> off + n > of_nat MAXFILE * BSIZE"
    using assms(10) by (simp_all add: unat_add_u32 word_less_nat_alt)
  have sn: "sint n = int (unat n)" using assms(10) by (intro sint_eq_unat) simp
  show ?thesis
  proof (cases "unat off + unat n > unat (d_size x)")
    case False
    then have "max (unat (d_size x)) (unat off + unat n) = unat (d_size x)" by simp
    then have "x1 = x1\<lparr>d_size := of_nat (max (unat (d_size x)) (unat off + unat n))\<rparr>" by (simp add: x1)
    moreover have "writei ip src off n s = Ret (int (unat n)) u"
      using False assms(4,5,9) u(1,4) x1 wn sn by (simp add: writei_def set_d_def word_less_nat_alt)
    ultimately show ?thesis using False u fs_ready_mono [OF u(3), of k] ftxn_mono [OF u(2), of "Suc (6 * ?c)"] by (intro exI [of _ u] exI [of _ "blk u"] exI [of _ x1] exI [of _ x1] conjI) simp_all
  next
    case True
    define x' where "x' = x1\<lparr>d_size := off + n\<rparr>"
    define v where "v = upd_d ip (\<lambda>x. x\<lparr>d_size := off + n\<rparr>) u"
    have v: "v = u\<lparr>inodes := set_d ip x' s\<rparr>" by (simp add: v_def upd_d_def upd_inode_def u(4) set_d_def x'_def)
    have "max (unat (d_size x)) (unat off + unat n) = unat (off + n)" using True wn(1) by simp
    then have sz: "off + n = of_nat (max (unat (d_size x)) (unat off + unat n))" by simp
    have "fs_ready (Suc k) v" "lockd v = (\<lambda>_. None)" "i_dev (inodes v ip) = 1" "i = i_inum (inodes v ip)" "i < sb_ninodes (fs_sb v)"
      using u(3) assms(2,3,6,7) by (simp_all add: v e set_d_def)
    from iupdate_law [OF this] obtain t where t: "iupdate ip v = Ret () t" "txn 1 v t" "fs_ready k t"
      "blk t = (blk u)(IBLOCK i (fs_sb s) := put_dinode (ioff i) x' (blk u (IBLOCK i (fs_sb s))))"
      by (auto simp: v e set_d_def)
    have "ftxn 0 u v" unfolding v using e(12) by (rule ftxn_upd)
    from ftxn_trans [OF ftxn_trans [OF u(2) this] txn_ftxn [OF t(2)]] have "ftxn (Suc (6 * ?c)) s t" by simp
    moreover have "inodes t = set_d ip x' s" using lenv_fs(2) [of v t] t(2) by (simp add: txn_def v)
    moreover have "0 < n" using True assms(9) by (cases "n = 0") (simp_all add: word_le_nat_alt word_gt_0)
    then have "writei ip src off n s = Ret (int (unat n)) t"
      using True assms(4,5,9) u(1,4) x1 wn sn t(1) by (simp add: writei_def set_d_def word_less_nat_alt word_le_nat_alt v_def [symmetric])
    moreover have "x' = x1\<lparr>d_size := of_nat (max (unat (d_size x)) (unat off + unat n))\<rparr>" unfolding x'_def by (subst sz) (rule refl)
    ultimately show ?thesis using True u(5) t(3,4) by (intro exI [of _ t] exI [of _ "blk u"] exI [of _ x1] exI [of _ x'] conjI) simp_all
  qed
qed

lemma writei_frame:
  assumes "fs_ready m s" "fs_ok s" "holds ip i s" "x = i_d (inodes s ip)" "wrote (fs_sb s) (metab s) (blk s) x off bs c V1 x1"
    and "off \<le> unat (d_size x)" "off + length bs \<le> 71680" "x' = x1\<lparr>d_size := of_nat (max (unat (d_size x)) (off + length bs))\<rparr>"
    and "fs_sb t = fs_sb s" "metab t = metab s" "inodes t = set_d ip x' s"
    and V: "blk t = (if off + length bs > unat (d_size x) then V1(IBLOCK i (fs_sb s) := put_dinode (ioff i) x' (V1 (IBLOCK i (fs_sb s)))) else V1)"
  shows "dinode_at (blk t) (fs_sb s) i = x'" "\<forall>j < sb_ninodes (fs_sb s). j \<noteq> i \<longrightarrow> dinode_at (blk t) (fs_sb s) j = dinode_at (blk s) (fs_sb s) j"
proof -
  have x: "x = dinode_at (blk s) (fs_sb s) i" "allocated s i" using assms(3,4) by (auto simp: holds_def)
  have f: "file_ok (blk s) (fs_sb s) (metab s) x" using assms(2) x by (simp add: fs_ok_def)
  have k: "keep (blk s) V1 (fs_sb s) (metab s) (iblocks (blk s) x)" and io: "inode_ok V1 (fs_sb s) (metab s) x1"
    using assms(5) unfolding wrote_def by blast+
  have ib: "V1 (IBLOCK j (fs_sb s)) = blk s (IBLOCK j (fs_sb s))" if "j < sb_ninodes (fs_sb s)" for j
  proof -
    note b = inode_block [OF assms(1) that]
    have "IBLOCK j (fs_sb s) \<notin> iblocks (blk s) x" using f b(3) by (auto simp: file_ok_def inode_ok_def)
    then show ?thesis using k b(1,4,7) unfolding keep_def by blast
  qed
  have same: "dinode_at V1 (fs_sb s) j = dinode_at (blk s) (fs_sb s) j" if "j < sb_ninodes (fs_sb s)" for j
    using ib [OF that] by (simp add: dinode_at_def)
  have i: "i < sb_ninodes (fs_sb s)" using x(2) by (simp add: allocated_def)
  have len: "length (V1 (IBLOCK i (fs_sb s))) = 512" using ib [OF i] inode_block(8) [OF assms(1) i] by simp
  have "length (d_addrs x') = 13" using io by (simp add: inode_ok_def assms(8))
  then show "dinode_at (blk t) (fs_sb s) i = x'"
  proof (cases "off + length bs > unat (d_size x)")
    case True
    then show ?thesis using put_same_inode [where V = V1, OF len] \<open>length (d_addrs x') = 13\<close> by (simp add: V)
  next
    case False
    then have "x1 = x" using wrote_same_inode [OF f assms(5)] by simp
    then have "x' = x" using False by (simp add: assms(8))
    then show ?thesis using False same [OF i] x(1) by (simp add: V)
  qed
  show "\<forall>j < sb_ninodes (fs_sb s). j \<noteq> i \<longrightarrow> dinode_at (blk t) (fs_sb s) j = dinode_at (blk s) (fs_sb s) j"
    using same put_other_inode [where V = V1] by (auto simp: V)
qed

text \<open>What all this makes of the file system as a whole; \<open>W\<close> may differ from \<open>V1\<close> in an inode block.\<close>

lemma write_order:
  fixes s t :: "'a fstate_scheme"
  assumes "fs_ok s" "allocated s i" "x = dinode_at (blk s) (fs_sb s) i" "wrote (fs_sb s) (metab s) (blk s) x off bs c V1 x1"
    and "off \<le> unat (d_size x)" "off + length bs \<le> 71680" "x' = x1\<lparr>d_size := of_nat (max (unat (d_size x)) (off + length bs))\<rparr>"
    and e: "fs_sb t = fs_sb s" "metab t = metab s" and x': "dinode_at (blk t) (fs_sb s) i = x'"
    and o: "\<forall>j < sb_ninodes (fs_sb s). j \<noteq> i \<longrightarrow> dinode_at (blk t) (fs_sb s) j = dinode_at (blk s) (fs_sb s) j"
    and W: "\<And>a. a < sb_size (fs_sb s) \<Longrightarrow> a \<notin> metab s \<Longrightarrow> blk t a = V1 a \<and> used (blk t) (fs_sb s) a = used V1 (fs_sb s) a"
  shows "fs_ok t" "\<forall>j. allocated t j \<longleftrightarrow> allocated s j" "fdata t i = take off (fdata s i) @ bs @ drop (off + length bs) (fdata s i)"
    "\<forall>j. allocated s j \<and> j \<noteq> i \<longrightarrow> fdata t j = fdata s j" "d_type x' = d_type x"
proof -
  have f: "file_ok (blk s) (fs_sb s) (metab s) x" using assms(1-3) by (simp add: fs_ok_def)
  note w = wrote_content [OF f assms(4-6), folded assms(7)]
  have c: "\<forall>a \<in> iblocks V1 x'. blk t a = V1 a \<and> used (blk t) (fs_sb s) a" using w(1) W by (auto simp: file_ok_def inode_ok_def)
  then have ib: "iblocks (blk t) x' = iblocks V1 x1" using faddr_cong [of V1 x' "blk t"] by (simp add: assms(7))
  have fx: "file_ok (blk t) (fs_sb s) (metab s) x'" by (rule file_ok_cong [OF c w(1)])
  show "fdata t i = take off (fdata s i) @ bs @ drop (off + length bs) (fdata s i)"
    using content_cong [of V1 x' "blk t", OF _ w(1)] c w(2) by (simp add: fdata_def e x' assms(3))
  have y: "file_ok (blk t) (fs_sb s) (metab s) y \<and> content (blk t) y = content (blk s) y \<and> iblocks (blk t) y = iblocks (blk s) y \<and> iblocks (blk t) y \<inter> iblocks (blk t) x' = {}"
    if j: "allocated s j" "j \<noteq> i" "y = dinode_at (blk s) (fs_sb s) j" for j y
  proof -
    have fy: "file_ok (blk s) (fs_sb s) (metab s) y" using assms(1) j by (simp add: fs_ok_def)
    have "iblocks (blk s) y \<inter> iblocks (blk s) x = {}" using assms(1-3) j by (auto simp: fs_ok_def blocks_of_def)
    note k = wrote_keeps [OF assms(4) fy this]
    have cy: "\<forall>a \<in> iblocks (blk s) y. blk t a = blk s a \<and> used (blk t) (fs_sb s) a" using k(1) W fy by (auto simp: file_ok_def inode_ok_def)
    then have c': "\<forall>a \<in> iblocks (blk s) y. blk t a = blk s a" by blast
    then have iy: "iblocks (blk t) y = iblocks (blk s) y" using faddr_cong by blast
    then have "iblocks (blk t) y \<inter> iblocks (blk t) x' = {}" unfolding ib using k(2) by simp
    then show ?thesis using file_ok_cong [OF cy fy] content_cong [OF c' fy] iy by blast
  qed
  have dj: "dinode_at (blk t) (fs_sb s) j = (if j = i then x' else dinode_at (blk s) (fs_sb s) j)" if "j < sb_ninodes (fs_sb s)" for j
    using o x' that by simp
  show "d_type x' = d_type x" using assms(4) unfolding wrote_def assms(7) by (metis dinode.select_convs(1) dinode.surjective dinode.update_convs(5,6))
  then have al: "allocated t j \<longleftrightarrow> allocated s j" for j
    using dj assms(2,3) by (cases "j = i") (auto simp: allocated_def e)
  then show "\<forall>j. allocated t j \<longleftrightarrow> allocated s j" by simp
  have d: "dinode_at (blk t) (fs_sb s) j = dinode_at (blk s) (fs_sb s) j" if "allocated s j" "j \<noteq> i" for j
    using dj that by (simp add: allocated_def)
  show "\<forall>j. allocated s j \<and> j \<noteq> i \<longrightarrow> fdata t j = fdata s j" using d y by (simp add: fdata_def e)
  have "blocks_of t j \<inter> blocks_of t l = {}" if "allocated s j" "allocated s l" "j \<noteq> l" for j l
    using that y [OF that(1) _ refl] y [OF that(2) _ refl] d [OF that(1)] d [OF that(2)] x' assms(1)
    by (cases "j = i"; cases "l = i") (auto simp: blocks_of_def e fs_ok_def)
  moreover have "file_ok (blk t) (fs_sb s) (metab s) (dinode_at (blk t) (fs_sb s) j)" if "allocated s j" for j
    using that d y fx x' by (cases "j = i") auto
  ultimately show "fs_ok t" by (simp add: fs_ok_def al e)
qed

lemma writei_file:
  assumes "fs_ready (Suc (6 * nblk (unat off) (unat n) + k)) s" "lockd s = (\<lambda>_. None)" "fs_ok s" "holds ip i s" "d_type (i_d (inodes s ip)) \<noteq> T_DEV"
    and "unat off \<le> length (fdata s i)" "unat off + unat n \<le> 71680" "2 * nblk (unat off) (unat n) \<le> nfree (blk s) (fs_sb s)"
    and "copy_in src 0 (unat n) s = Some bs" "length bs = unat n"
  shows "\<exists>t u. writei ip src off n s = Ret (int (unat n)) t \<and> fs_ready k t \<and> fs_ok t \<and> holds ip i t \<and> (\<forall>j. allocated t j \<longleftrightarrow> allocated s j) \<and>
    fdata t i = take (unat off) (fdata s i) @ bs @ drop (unat off + unat n) (fdata s i) \<and>
    (\<forall>j. allocated s j \<and> j \<noteq> i \<longrightarrow> fdata t j = fdata s j) \<and> readi ip Local off n t = Ret (int (unat n), bs) u \<and>
    lockd t = (\<lambda>_. None) \<and> (\<exists>x'. inodes t = set_d ip x' s \<and> d_type x' = d_type (i_d (inodes s ip)))"
proof -
  define x where "x = i_d (inodes s ip)"
  have x: "x = dinode_at (blk s) (fs_sb s) i" "allocated s i" "i_dev (inodes s ip) = 1" "i = i_inum (inodes s ip)"
    using assms(4) by (auto simp: holds_def x_def)
  then have i: "i < sb_ninodes (fs_sb s)" and f: "file_ok (blk s) (fs_sb s) (metab s) x" using assms(3) by (auto simp: allocated_def fs_ok_def)
  have o: "unat off \<le> unat (d_size x)" "off \<le> d_size x" using assms(6) x(1) by (simp_all add: fdata_def word_le_nat_alt)
  obtain t V1 x1 x' where t: "writei ip src off n s = Ret (int (unat n)) t" "ftxn (Suc (6 * nblk (unat off) (unat n))) s t" "fs_ready k t" "inodes t = set_d ip x' s"
    "wrote (fs_sb s) (metab s) (blk s) x (unat off) bs (nblk (unat off) (unat n)) V1 x1" "x' = x1\<lparr>d_size := of_nat (max (unat (d_size x)) (unat off + length bs))\<rparr>"
    "blk t = (if unat off + length bs > unat (d_size x) then V1(IBLOCK i (fs_sb s) := put_dinode (ioff i) x' (V1 (IBLOCK i (fs_sb s)))) else V1)"
    using writei_law [OF assms(1,2) x(3) x_def _ x(4) i f o(2) assms(7-10)] assms(5) unfolding assms(10) x_def by blast
  note e = ftxn_env [OF t(2)]
  have len: "unat off + length bs \<le> 71680" using assms(7,10) by simp
  note d = writei_frame [OF assms(1,3,4) x_def t(5) o(1) len t(6) e(1,5) t(4,7)]
  have "IBLOCK i (fs_sb s) \<in> metab s" "IBLOCK i (fs_sb s) \<notin> bmblocks (fs_sb s)" using inode_block [OF assms(1) i] by simp_all
  then have W: "blk t a = V1 a \<and> used (blk t) (fs_sb s) a = used V1 (fs_sb s) a" if "a < sb_size (fs_sb s)" "a \<notin> metab s" for a
    using that used_other by (auto simp: t(7))
  note r = write_order [OF assms(3) x(2,1) t(5) o(1) len t(6) e(1,5) d W]
  have h: "holds ip i t" using d(1) r(2) x t(4) by (simp add: holds_def set_d_def e)
  have ft: "file_ok (blk t) (fs_sb t) (metab t) x'" "content (blk t) x' = fdata t i"
    using r(1,2) x(2) d(1) by (auto simp: fs_ok_def fdata_def e)
  have b: "bs = take (unat n) (drop (unat off) (content (blk t) x'))" using assms(6) r(3) by (simp add: ft(2) assms(10) [symmetric])
  have "length (fdata t i) = max (unat (d_size x)) (unat off + unat n)" using r(3) assms(6,10) x(1) by (simp add: fdata_def)
  then have le: "off \<le> d_size x'" "off \<le> off + n"
    using o(1) length_content [of "blk t" x', unfolded ft(2)] assms(7) by (auto simp: word_le_nat_alt unat_add_u32)
  have l: "lockd t = (\<lambda>_. None)" "i_dev (inodes t ip) = 1" "x' = i_d (inodes t ip)" "d_type x' \<noteq> T_DEV"
    using assms(2,5) h t(4) r(5) by (simp_all add: e holds_def set_d_def x_def)
  from readi_law [OF t(3) l ft(1) le b, of Local "mem t"] obtain u where "readi ip Local off n t = Ret (int (unat n), bs) u"
    unfolding assms(10) by (auto simp: copy_mem_def)
  then show ?thesis using t(1,3,4) r(1-5) h l(1) unfolding assms(10) x_def by blast
qed

text \<open>
  C1: on a file system in which no two files share a block, \<^verbatim>\<open>writei\<close> to a regular file replaces the bytes in its
  range, extends the file when the range reaches past its end, leaves every other file as it was and keeps
  the file system in order; \<^verbatim>\<open>readi\<close> of the range then returns what was written.
\<close>

theorem writei_refines:
  assumes "fs_ready (Suc (6 * nblk (unat off) (unat n) + k)) s" "lockd s = (\<lambda>_. None)" "fs_ok s" "holds ip i s" "d_type (i_d (inodes s ip)) \<noteq> T_DEV"
    and "unat off \<le> length (fdata s i)" "unat off + unat n \<le> 71680" "2 * nblk (unat off) (unat n) \<le> nfree (blk s) (fs_sb s)"
    and "copy_in src 0 (unat n) s = Some bs" "length bs = unat n"
  shows "\<exists>t u. writei ip src off n s = Ret (int (unat n)) t \<and> fs_ready k t \<and> fs_ok t \<and> holds ip i t \<and> (\<forall>j. allocated t j \<longleftrightarrow> allocated s j) \<and>
    fdata t i = take (unat off) (fdata s i) @ bs @ drop (unat off + unat n) (fdata s i) \<and>
    (\<forall>j. allocated s j \<and> j \<noteq> i \<longrightarrow> fdata t j = fdata s j) \<and> readi ip Local off n t = Ret (int (unat n), bs) u"
  using writei_file [OF assms] by blast

subsection \<open>The small file system\<close>

definition open_fstate :: fstate where
  "open_fstate = boot_fstate\<lparr>inodes := (\<lambda>_. bss_inode)(0 := \<lparr>i_dev = 1, i_inum = 2, i_ref = 1, i_valid = True, i_d = small_file\<rparr>)\<rparr>"

lemma small_dinode:
  assumes "i < 200"
  shows "if i = 1 then dinode_at small_image small_sb i = small_root else if i = 2 then dinode_at small_image small_sb i = small_file
    else d_type (dinode_at small_image small_sb i) = 0"
proof (cases "i div 8 = 0")
  case True
  then have "unat (i div 8) = 0" by simp
  then have "unat i div 8 = 0" by (simp add: unat_div_distrib)
  then have i: "unat (i mod 8) = unat i" "unat i < 8" by (simp_all add: unat_mod_distrib)
  have b: "IBLOCK i small_sb = 32" "ioff i = unat i * 64" using True i by (simp_all add: IBLOCK_def small_sb_def ioff_def)
  have d: "dinode_at small_image small_sb i = get_dinode (put_dinode 64 small_root (put_dinode 128 small_file zero_block)) (unat i * 64)"
    by (simp add: dinode_at_def b small_image_def)
  have l: "length zero_block = 512" "length (d_addrs small_root) = 13" "length (d_addrs small_file) = 13"
    by (simp_all add: zero_block_def small_root_def small_file_def)
  consider "i = 1" | "i = 2" | "unat i = 0 \<or> 3 \<le> unat i"
    by (cases "unat i = 0"; cases "unat i = 1"; cases "unat i = 2") (auto simp: word_unat_eq_iff)
  then show ?thesis
  proof cases
    case 1
    with d show ?thesis by (simp add: get_put_dinode l)
  next
    case 2
    with d show ?thesis by (simp add: get_put_dinode get_put_dinode_other l)
  next
    case 3
    then have "d_type (get_dinode (put_dinode 64 small_root (put_dinode 128 small_file zero_block)) (unat i * 64)) = d_type (get_dinode zero_block (unat i * 64))"
      by (subst get_put_dinode_other, auto)+
    moreover have "d_type (get_dinode zero_block (unat i * 64)) = 0" using i(2) by (simp add: get_dinode_def get16_def zero_block_def)
    moreover have "i \<noteq> 1" "i \<noteq> 2" using 3 by auto
    ultimately show ?thesis by (simp add: d)
  qed
next
  case False
  have "unat (i div 8) < 25" using assms by (simp add: unat_div_distrib word_less_nat_alt)
  moreover have "0 < unat (i div 8)" using False unfolding unat_gt_0 .
  ultimately have "32 < unat (IBLOCK i small_sb)" "unat (IBLOCK i small_sb) < 57" by (simp_all add: IBLOCK_def small_sb_def unat_word_ariths)
  then have "IBLOCK i small_sb \<noteq> x" if "x \<in> {1, 32, 58, 59, 60}" for x using that by auto
  then have "dinode_at small_image small_sb i = get_dinode zero_block (ioff i)" by (simp add: dinode_at_def small_image_def)
  moreover have "i \<noteq> 1" "i \<noteq> 2" using False by (auto simp: word_unat_eq_iff unat_div_distrib)
  moreover have "ioff i + 64 \<le> 512" by (rule ioff_bound)
  ultimately show ?thesis by (simp add: get_dinode_def get16_def zero_block_def)
qed

lemma small_inode:
  assumes "x = small_root \<and> a = 59 \<or> x = small_file \<and> a = 60"
  shows "file_ok small_image small_sb (metab boot_fstate) x" "iblocks small_image x = {a}"
proof -
  have f: "faddr small_image x bn = (if bn = 0 then a else 0)" for bn
    using assms by (cases "bn < 12") (auto simp: faddr_def small_root_def small_file_def nth_Cons')
  have z: "d_addrs x ! 12 = 0" "length (d_addrs x) = 13" using assms by (auto simp: small_root_def small_file_def)
  have a: "a \<noteq> 0" "a < 1000" "unat a = 59 \<or> unat a = 60" using assms by auto
  show ib: "iblocks small_image x = {a}" using a(1) by (auto simp: iblocks_def z f)
  have "used small_image small_sb a" using small_used [OF a(2)] a(3) by auto
  moreover have "a \<notin> metab boot_fstate" using small_metab [of a] a(3) by auto
  ultimately have "inode_ok small_image small_sb (metab boot_fstate) x"
    using a z f by (simp add: inode_ok_def ib small_sb_def)
  then show "file_ok small_image small_sb (metab boot_fstate) x"
    using assms a(1) by (auto simp: file_ok_def f small_root_def small_file_def)
qed

lemma open_fstate_ok: "fs_ok open_fstate" "holds 0 2 open_fstate" "fdata open_fstate 2 = str ''hello''" "2 \<le> nfree (blk open_fstate) (fs_sb open_fstate)"
proof -
  have e: "blk open_fstate = small_image" "fs_sb open_fstate = small_sb" "metab open_fstate = metab boot_fstate" "sb_ninodes small_sb = 200"
    by (simp_all add: open_fstate_def boot_fstate_ok small_sb_def)
  have al: "allocated open_fstate i \<longleftrightarrow> i = 1 \<or> i = 2" for i
    using small_dinode [of i] by (cases "i < 200") (auto simp: allocated_def e small_root_def small_file_def split: if_splits)
  have d: "dinode_at small_image small_sb 1 = small_root" "dinode_at small_image small_sb 2 = small_file"
    using small_dinode [of 1] small_dinode [of 2] by simp_all
  note r = small_inode [of small_root 59, simplified] and f = small_inode [of small_file 60, simplified]
  show "fs_ok open_fstate" using r f by (auto simp: fs_ok_def al e d blocks_of_def)
  show "holds 0 2 open_fstate" by (simp add: holds_def al e d) (simp add: open_fstate_def)
  have "fbyte small_image small_file i = str ''hello'' ! i" if "i < 5" for i
    using that by (simp add: fbyte_def faddr_def small_file_def small_image_def nth_Cons')
  then show "fdata open_fstate 2 = str ''hello''"
    by (intro nth_equalityI) (simp_all add: fdata_def e d content_def, simp_all add: small_file_def)
  have "{61, 62} \<subseteq> {b. b < sb_size small_sb \<and> \<not> used small_image small_sb b}"
    using small_used [of 61] small_used [of 62] by (simp add: small_sb_def)
  from card_mono [OF _ this] show "2 \<le> nfree (blk open_fstate) (fs_sb open_fstate)" by (simp add: nfree_def e)
qed

lemma writei_refines_witness:
  "\<exists>t u. writei 0 (Bytes (str ''p!'')) 4 2 open_fstate = Ret 2 t \<and> fdata t 2 = str ''hellp!'' \<and> readi 0 Local 4 2 t = Ret (2, str ''p!'') u"
proof -
  have n: "nblk (unat (4 :: u32)) (unat (2 :: u32)) = 1" by (simp add: nblk_def)
  have "fs_ready (Suc (6 * nblk (unat (4 :: u32)) (unat (2 :: u32)) + 0)) open_fstate" "lockd open_fstate = (\<lambda>_. None)"
    unfolding n by (simp_all add: open_fstate_def boot_fs_ready boot_fstate_ok)
  moreover have "d_type (i_d (inodes open_fstate 0)) \<noteq> T_DEV" by (simp add: open_fstate_def small_file_def)
  moreover have "copy_in (Bytes (str ''p!'')) 0 (unat (2 :: u32)) open_fstate = Some (str ''p!'')" by (simp add: copy_in_def)
  ultimately obtain t u where "writei 0 (Bytes (str ''p!'')) 4 2 open_fstate = Ret (int (unat (2 :: u32))) t"
    "fdata t 2 = take (unat (4 :: u32)) (fdata open_fstate 2) @ str ''p!'' @ drop (unat (4 :: u32) + unat (2 :: u32)) (fdata open_fstate 2)"
    "readi 0 Local 4 2 t = Ret (int (unat (2 :: u32)), str ''p!'') u"
    using writei_refines [where ip = 0 and i = 2 and off = 4 and n = 2 and k = 0 and s = open_fstate and src = "Bytes (str ''p!'')" and bs = "str ''p!''"]
      open_fstate_ok unfolding n by auto
  then show ?thesis using open_fstate_ok(3) by simp
qed

end
