(* ===== verification/File.thy ===== *)
theory File
  imports FileSys
begin

text \<open>
  Open files (\<^verbatim>\<open>file.c\<close>, \<^verbatim>\<open>pipealloc\<close> of \<^verbatim>\<open>pipe.c\<close>): the table of open files with its reference counts, and the
  operations on an open file, which go to a pipe or to an inode. File pointers are indices into the
  table. A call that has to wait, for an inode lock or for room in the log, ends in \<open>Sleep\<close>.
\<close>

subsection \<open>State (file.h, file.c)\<close>

datatype ftype = FD_NONE | FD_PIPE | FD_INODE

record openfile =
  f_type :: ftype
  f_ref :: int
  f_readable :: bool
  f_writable :: bool
  f_pipe :: u32
  f_ip :: nat
  f_off :: u32

record ftstate = fstate +
  ftable :: "nat \<Rightarrow> openfile"

definition upd_file :: "nat \<Rightarrow> (openfile \<Rightarrow> openfile) \<Rightarrow> 'a ftstate_scheme \<Rightarrow> 'a ftstate_scheme" where
  "upd_file i f s = s\<lparr>ftable := (ftable s)(i := f (ftable s i))\<rparr>"

subsection \<open>The table\<close>

definition fileinit :: "'a ftstate_scheme \<Rightarrow> 'a ftstate_scheme" where
  "fileinit s = initlock FTABLE ''ftable'' s"

definition filealloc :: "'a ftstate_scheme \<Rightarrow> ('a ftstate_scheme, nat option) outcome" where
  "filealloc s =
     obind (acquire FTABLE s) (\<lambda>_ s.
     case find (\<lambda>i. f_ref (ftable s i) = 0) [0..<NFILE] of
       Some f \<Rightarrow> obind (release FTABLE (upd_file f (\<lambda>x. x\<lparr>f_ref := 1\<rparr>) s)) (\<lambda>_. Ret (Some f))
     | None \<Rightarrow> obind (release FTABLE s) (\<lambda>_. Ret None))"

definition filedup :: "nat \<Rightarrow> 'a ftstate_scheme \<Rightarrow> ('a ftstate_scheme, nat) outcome" where
  "filedup f s =
     obind (acquire FTABLE s) (\<lambda>_ s.
     if f_ref (ftable s f) < 1 then Panic ''filedup''
     else obind (release FTABLE (upd_file f (\<lambda>x. x\<lparr>f_ref := f_ref x + 1\<rparr>) s)) (\<lambda>_. Ret f))"

definition fileclose :: "nat \<Rightarrow> 'a ftstate_scheme \<Rightarrow> ('a ftstate_scheme, unit) outcome" where
  "fileclose f s =
     obind (acquire FTABLE s) (\<lambda>_ s.
     if f_ref (ftable s f) < 1 then Panic ''fileclose''
     else
       let s = upd_file f (\<lambda>x. x\<lparr>f_ref := f_ref x - 1\<rparr>) s
       in if f_ref (ftable s f) > 0 then release FTABLE s
          else
            let ff = ftable s f
            in obind (release FTABLE (upd_file f (\<lambda>x. x\<lparr>f_ref := 0, f_type := FD_NONE\<rparr>) s)) (\<lambda>_ s.
               if f_type ff = FD_PIPE then pipeclose (f_pipe ff) (f_writable ff) s
               else if f_type ff = FD_INODE
               then obind (begin_op s) (\<lambda>_ s. obind (iput (f_ip ff) s) (\<lambda>_. end_op))
               else Ret () s))"

subsection \<open>Operations on an open file\<close>

text \<open>\<^verbatim>\<open>sizeof(struct stat)\<close> is 20: the fields \<^verbatim>\<open>type\<close> and \<^verbatim>\<open>nlink\<close> are followed by two bytes that stay as they are.\<close>

definition bytes16 :: "u16 \<Rightarrow> u8 list" where
  "bytes16 v = [ucast v, ucast (drop_bit 8 v)]"

definition put_stat :: "u32 \<Rightarrow> stat \<Rightarrow> 'a kstate_scheme \<Rightarrow> 'a kstate_scheme option" where
  "put_stat a st s =
     Option.bind (uwrite a (bytes16 (st_type st)) s) (\<lambda>s.
     Option.bind (uwrite (a + 4) (bytes32 (st_dev st)) s) (\<lambda>s.
     Option.bind (uwrite (a + 8) (bytes32 (st_ino st)) s) (\<lambda>s.
     Option.bind (uwrite (a + 12) (bytes16 (st_nlink st)) s) (\<lambda>s.
     uwrite (a + 16) (bytes32 (st_size st)) s))))"

definition filestat :: "nat \<Rightarrow> u32 \<Rightarrow> 'a ftstate_scheme \<Rightarrow> ('a ftstate_scheme, int) outcome" where
  "filestat f st s =
     (if f_type (ftable s f) = FD_INODE
      then
        obind (ilock (f_ip (ftable s f)) s) (\<lambda>_ s.
        case put_stat st (stati (f_ip (ftable s f)) s) s of
          None \<Rightarrow> Panic ''trap''
        | Some s \<Rightarrow> obind (iunlock (f_ip (ftable s f)) s) (\<lambda>_. Ret 0))
      else Ret (- 1) s)"

definition fileread :: "nat \<Rightarrow> u32 \<Rightarrow> int \<Rightarrow> 'a ftstate_scheme \<Rightarrow> ('a ftstate_scheme, int) outcome" where
  "fileread f addr n s =
     (if \<not> f_readable (ftable s f) then Ret (- 1) s
      else case f_type (ftable s f) of
          FD_PIPE \<Rightarrow> piperead (f_pipe (ftable s f)) addr n s
        | FD_INODE \<Rightarrow>
            obind (ilock (f_ip (ftable s f)) s) (\<lambda>_ s.
            obind (readi (f_ip (ftable s f)) (User addr) (f_off (ftable s f)) (of_int n) s) (\<lambda>(r, _) s.
            let s = (if r > 0 then upd_file f (\<lambda>x. x\<lparr>f_off := f_off x + of_int r\<rparr>) s else s)
            in obind (iunlock (f_ip (ftable s f)) s) (\<lambda>_. Ret r)))
        | FD_NONE \<Rightarrow> Panic ''fileread'')"

text \<open>
  The loop of \<^verbatim>\<open>filewrite\<close>: pieces of at most 13 blocks, each in a transaction of its own. A piece is either
  written completely, or the call panics or ends.
\<close>

definition filewrite_max :: int where
  "filewrite_max = ((int LOGSIZE - 1 - 1 - 2) div 2) * 512"

function filewrite_loop :: "nat \<Rightarrow> u32 \<Rightarrow> int \<Rightarrow> int \<Rightarrow> 'a ftstate_scheme \<Rightarrow> ('a ftstate_scheme, int) outcome" where
  "filewrite_loop f addr n i s =
     (if i < n
      then
        let n1 = min (n - i) filewrite_max
        in obind (begin_op s) (\<lambda>_ s.
           obind (ilock (f_ip (ftable s f)) s) (\<lambda>_ s.
           obind (writei (f_ip (ftable s f)) (FromUser (addr + of_int i)) (f_off (ftable s f)) (of_int n1) s) (\<lambda>r s.
           let s = (if r > 0 then upd_file f (\<lambda>x. x\<lparr>f_off := f_off x + of_int r\<rparr>) s else s)
           in obind (iunlock (f_ip (ftable s f)) s) (\<lambda>_ s.
              obind (end_op s) (\<lambda>_ s.
              if r < 0 then Ret (- 1) s
              else if r \<noteq> n1 then Panic ''short filewrite''
              else filewrite_loop f addr n (i + r) s)))))
      else Ret (if i = n then n else - 1) s)"
  by pat_completeness auto
termination
  by (relation "measure (\<lambda>(f, addr, n, i, s). nat (n - i))") (auto simp: filewrite_max_def)

declare filewrite_loop.simps [simp del]

definition filewrite :: "nat \<Rightarrow> u32 \<Rightarrow> int \<Rightarrow> 'a ftstate_scheme \<Rightarrow> ('a ftstate_scheme, int) outcome" where
  "filewrite f addr n s =
     (if \<not> f_writable (ftable s f) then Ret (- 1) s
      else case f_type (ftable s f) of
          FD_PIPE \<Rightarrow> pipewrite (f_pipe (ftable s f)) addr n s
        | FD_INODE \<Rightarrow> filewrite_loop f addr n 0 s
        | FD_NONE \<Rightarrow> Panic ''filewrite'')"

subsection \<open>New pipes\<close>

text \<open>The clean-up at the label \<^verbatim>\<open>bad\<close>; there is never a page to free, because its allocation is the last step that can fail.\<close>

definition pipealloc_bad :: "nat option \<Rightarrow> nat option \<Rightarrow> 'a ftstate_scheme \<Rightarrow> ('a ftstate_scheme, (nat \<times> nat) option) outcome" where
  "pipealloc_bad f0 f1 s =
     obind (case f0 of None \<Rightarrow> Ret () s | Some f \<Rightarrow> fileclose f s) (\<lambda>_ s.
     obind (case f1 of None \<Rightarrow> Ret () s | Some f \<Rightarrow> fileclose f s) (\<lambda>_. Ret None))"

definition pipealloc :: "'a ftstate_scheme \<Rightarrow> ('a ftstate_scheme, (nat \<times> nat) option) outcome" where
  "pipealloc s =
     obind (filealloc s) (\<lambda>f0 s.
     case f0 of None \<Rightarrow> pipealloc_bad None None s
     | Some g0 \<Rightarrow>
         obind (filealloc s) (\<lambda>f1 s.
         case f1 of None \<Rightarrow> pipealloc_bad f0 None s
         | Some g1 \<Rightarrow>
             obind (kalloc s) (\<lambda>p s.
             if p = 0 then pipealloc_bad f0 f1 s
             else
               let s = upd_pipe p (\<lambda>q. q\<lparr>pi_readopen := True, pi_writeopen := True, pi_nwrite := 0, pi_nread := 0\<rparr>) s;
                   s = initlock (PIPELOCK p) ''pipe'' s;
                   s = upd_file g0 (\<lambda>x. x\<lparr>f_type := FD_PIPE, f_readable := True, f_writable := False, f_pipe := p\<rparr>) s;
                   s = upd_file g1 (\<lambda>x. x\<lparr>f_type := FD_PIPE, f_readable := False, f_writable := True, f_pipe := p\<rparr>) s
               in Ret (Some (g0, g1)) s)))"

end
