(* ===== verification/Process.thy ===== *)
theory Process
  imports File
begin

text \<open>
  The life of a process (\<^verbatim>\<open>proc.c\<close>): allocation of a process slot and its kernel stack, the first process,
  \<^verbatim>\<open>fork\<close>, \<^verbatim>\<open>exit\<close>, \<^verbatim>\<open>wait\<close> and \<^verbatim>\<open>wait_stat\<close>, and growing the memory of a process. Process pointers are indices
  into the table. The state gains what the linker provides: the addresses that go into a new kernel
  stack, the embedded first program, and the text that \<^verbatim>\<open>exec\<close> copies behind every program.
\<close>

subsection \<open>State\<close>

record kernel = ftstate +
  forkret_first :: bool     \<comment> \<open>the static variable \<^verbatim>\<open>first\<close> of \<^verbatim>\<open>forkret\<close>\<close>
  kbd_shift :: u8           \<comment> \<open>the static variable \<^verbatim>\<open>shift\<close> of \<^verbatim>\<open>kbdgetc\<close>\<close>
  lk_forkret :: u32         \<comment> \<open>the address of \<^verbatim>\<open>forkret\<close>\<close>
  lk_trapret :: u32         \<comment> \<open>the address of \<^verbatim>\<open>trapret\<close>\<close>
  lk_initcode :: u32        \<comment> \<open>\<^verbatim>\<open>_binary_initcode_start\<close>\<close>
  lk_initcode_size :: u32   \<comment> \<open>\<^verbatim>\<open>_binary_initcode_size\<close>\<close>
  lk_pseudo_main :: "u8 list"  \<comment> \<open>the text from \<^verbatim>\<open>pseudo_main\<close> to \<^verbatim>\<open>exec\<close>\<close>

definition get_ticks :: "'a pstate_scheme \<Rightarrow> int" where
  "get_ticks s = sint (ticks s)"

text \<open>\<^verbatim>\<open>safestrcpy\<close> into an array of 16 bytes; the source is given without its terminating 0.\<close>

definition safestrcpy_arr :: "u8 list \<Rightarrow> u8 list \<Rightarrow> u8 list" where
  "safestrcpy_arr dst src = (let t = take 15 src in t @ [0] @ drop (length t + 1) dst)"

definition cname :: "u8 list \<Rightarrow> u8 list" where
  "cname a = takeWhile (\<lambda>c. c \<noteq> 0) a"

subsection \<open>Allocation\<close>

definition zero_ctxt :: ctxt where
  "zero_ctxt = \<lparr>cx_edi = 0, cx_esi = 0, cx_ebx = 0, cx_ebp = 0, cx_eip = 0\<rparr>"

text \<open>
  The second half of \<^verbatim>\<open>allocproc\<close>, for the slot \<open>i\<close> found. From the top of the kernel stack down there are the
  trap frame (76 bytes), the word \<^verbatim>\<open>trapret\<close> and the context.
\<close>

definition allocproc_found :: "nat \<Rightarrow> 'a kernel_scheme \<Rightarrow> ('a kernel_scheme, nat option) outcome" where
  "allocproc_found i s =
     obind (kalloc s) (\<lambda>k s.
     let s = upd_proc i (\<lambda>p. p\<lparr>p_kstack := k\<rparr>) s
     in if k = 0 then Ret None (upd_proc i (\<lambda>p. p\<lparr>p_state := UNUSED\<rparr>) s)
        else
          let s = s\<lparr>mem := store32 (k + KSTACKSIZE - 76 - 4) (lk_trapret s) (mem s)\<rparr>;
              s = upd_proc i (\<lambda>p. p\<lparr>p_context := zero_ctxt\<lparr>cx_eip := lk_forkret s\<rparr>\<rparr>) s;
              s = upd_proc i (\<lambda>p. p\<lparr>p_ctime := get_ticks s, p_stime := 0, p_retime := 0, p_rutime := 0\<rparr>) s
          in Ret (Some i) s)"

definition allocproc :: "'a kernel_scheme \<Rightarrow> ('a kernel_scheme, nat option) outcome" where
  "allocproc s =
     obind (acquire PTABLE s) (\<lambda>_ s.
     case find_idx (\<lambda>p. p_state p = UNUSED) (procs s) of
       None \<Rightarrow> obind (release PTABLE s) (\<lambda>_. Ret None)
     | Some i \<Rightarrow>
         let s = upd_proc i (\<lambda>p. p\<lparr>p_state := EMBRYO, p_pid := nextpid s\<rparr>) s;
             s = s\<lparr>nextpid := nextpid s + 1\<rparr>
         in obind (release PTABLE s) (\<lambda>_. allocproc_found i))"

definition zero_tf :: trapframe where
  "zero_tf = \<lparr>tf_edi = 0, tf_esi = 0, tf_ebp = 0, tf_oesp = 0, tf_ebx = 0, tf_edx = 0, tf_ecx = 0, tf_eax = 0, tf_gs = 0, tf_fs = 0,
     tf_es = 0, tf_ds = 0, tf_trapno = 0, tf_err = 0, tf_eip = 0, tf_cs = 0, tf_eflags = 0, tf_esp = 0, tf_ss = 0\<rparr>"

definition set_runnable :: "nat \<Rightarrow> 'a pstate_scheme \<Rightarrow> ('a pstate_scheme, unit) outcome" where
  "set_runnable i s = obind (acquire PTABLE s) (\<lambda>_ s. release PTABLE (upd_proc i (\<lambda>p. p\<lparr>p_state := RUNNABLE\<rparr>) s))"

text \<open>The selectors are \<^verbatim>\<open>(SEG_UCODE << 3) | DPL_USER\<close> and \<^verbatim>\<open>(SEG_UDATA << 3) | DPL_USER\<close>. A null result of \<^verbatim>\<open>allocproc\<close> is dereferenced.\<close>

definition userinit :: "'a kernel_scheme \<Rightarrow> ('a kernel_scheme, unit) outcome" where
  "userinit s =
     obind (allocproc s) (\<lambda>r s.
     case r of None \<Rightarrow> Undef
     | Some i \<Rightarrow>
         obind (setupkvm (s\<lparr>initproc := Some i\<rparr>)) (\<lambda>d s.
         let s = upd_proc i (\<lambda>p. p\<lparr>p_pgdir := d\<rparr>) s
         in if d = 0 then Panic ''userinit: out of memory?''
            else
              obind (inituvm d (lk_initcode s) (lk_initcode_size s) s) (\<lambda>_ s.
              let s = upd_proc i (\<lambda>p. p\<lparr>p_sz := PGSIZE, p_tf := zero_tf\<lparr>tf_cs := 35, tf_ds := 43, tf_es := 43, tf_ss := 43,
                        tf_eflags := 0x200, tf_esp := PGSIZE, tf_eip := 0\<rparr>, p_name := safestrcpy_arr (p_name p) (str ''initcode'')\<rparr>) s
              in obind (namei (str ''/'') s) (\<lambda>ip s.
                 set_runnable i (upd_proc i (\<lambda>p. p\<lparr>p_cwd := ip\<rparr>) s)))))"

definition cur :: "'a pstate_scheme \<Rightarrow> proc" where
  "cur s = procs s ! the (curproc s)"

definition upd_cur :: "(proc \<Rightarrow> proc) \<Rightarrow> 'a pstate_scheme \<Rightarrow> 'a pstate_scheme" where
  "upd_cur f s = upd_proc (the (curproc s)) f s"

definition growproc :: "int \<Rightarrow> 'a kernel_scheme \<Rightarrow> ('a kernel_scheme, int) outcome" where
  "growproc n s =
     (let sz = p_sz (cur s)
      in obind (if n > 0 then allocuvm (p_pgdir (cur s)) sz (sz + of_int n) s
                else if n < 0 then deallocuvm (p_pgdir (cur s)) sz (sz + of_int n) s
                else Ret sz s) (\<lambda>sz s.
         if n \<noteq> 0 \<and> sz = 0 then Ret (- 1) s
         else obind (switchuvm (the (curproc s)) (upd_cur (\<lambda>p. p\<lparr>p_sz := sz\<rparr>) s)) (\<lambda>_. Ret 0)))"

subsection \<open>fork\<close>

primrec fork_files :: "nat \<Rightarrow> nat list \<Rightarrow> 'a kernel_scheme \<Rightarrow> ('a kernel_scheme, unit) outcome" where
  "fork_files np [] s = Ret () s"
| "fork_files np (i # is) s =
     (case p_ofile (cur s) ! i of
        None \<Rightarrow> fork_files np is s
      | Some f \<Rightarrow> obind (filedup f s) (\<lambda>g s. fork_files np is (upd_proc np (\<lambda>p. p\<lparr>p_ofile := (p_ofile p)[i := Some g]\<rparr>) s)))"

definition fork :: "'a kernel_scheme \<Rightarrow> ('a kernel_scheme, int) outcome" where
  "fork s =
     obind (allocproc s) (\<lambda>r s.
     case r of None \<Rightarrow> Ret (- 1) s
     | Some np \<Rightarrow>
         obind (copyuvm (p_pgdir (cur s)) (p_sz (cur s)) s) (\<lambda>d s.
         let s = upd_proc np (\<lambda>p. p\<lparr>p_pgdir := d\<rparr>) s
         in if d = 0
            then obind (kfree (p_kstack (procs s ! np)) s) (\<lambda>_ s.
                 Ret (- 1) (upd_proc np (\<lambda>p. p\<lparr>p_kstack := 0, p_state := UNUSED\<rparr>) s))
            else
              let s = upd_proc np (\<lambda>p. p\<lparr>p_sz := p_sz (cur s), p_parent := curproc s, p_tf := (p_tf (cur s))\<lparr>tf_eax := 0\<rparr>\<rparr>) s
              in obind (fork_files np [0..<NOFILE] s) (\<lambda>_ s.
                 obind (idup (the (p_cwd (cur s))) s) (\<lambda>c s.
                 let s = upd_proc np (\<lambda>p. p\<lparr>p_cwd := Some c, p_name := safestrcpy_arr (p_name p) (cname (p_name (cur s)))\<rparr>) s;
                     pid = p_pid (procs s ! np)
                 in obind (set_runnable np s) (\<lambda>_. Ret pid)))))"

subsection \<open>exit\<close>

primrec exit_files :: "nat list \<Rightarrow> 'a kernel_scheme \<Rightarrow> ('a kernel_scheme, unit) outcome" where
  "exit_files [] s = Ret () s"
| "exit_files (fd # fds) s =
     (case p_ofile (cur s) ! fd of
        None \<Rightarrow> exit_files fds s
      | Some f \<Rightarrow> obind (fileclose f s) (\<lambda>_ s. exit_files fds (upd_cur (\<lambda>p. p\<lparr>p_ofile := (p_ofile p)[fd := None]\<rparr>) s)))"

definition proc_chan :: "nat option \<Rightarrow> chan" where
  "proc_chan p = (case p of None \<Rightarrow> NoChan | Some i \<Rightarrow> ChProc i)"

text \<open>The loop that passes the children of the exiting process to \<^verbatim>\<open>init\<close>.\<close>

primrec exit_children :: "nat list \<Rightarrow> 'a pstate_scheme \<Rightarrow> 'a pstate_scheme" where
  "exit_children [] s = s"
| "exit_children (i # is) s =
     (if p_parent (procs s ! i) = curproc s
      then let s = upd_proc i (\<lambda>p. p\<lparr>p_parent := initproc s\<rparr>) s
           in exit_children is (if p_state (procs s ! i) = ZOMBIE then wakeup1 (proc_chan (initproc s)) s else s)
      else exit_children is s)"

definition exit :: "int \<Rightarrow> 'a kernel_scheme \<Rightarrow> ('a kernel_scheme, int) outcome" where
  "exit status s =
     (if curproc s = initproc s then Panic ''init exiting''
      else
        obind (exit_files [0..<NOFILE] s) (\<lambda>_ s.
        obind (begin_op s) (\<lambda>_ s.
        obind (iput (the (p_cwd (cur s))) s) (\<lambda>_ s.
        obind (end_op s) (\<lambda>_ s.
        let s = upd_cur (\<lambda>p. p\<lparr>p_cwd := None\<rparr>) s
        in obind (acquire PTABLE s) (\<lambda>_ s.
           let s = wakeup1 (proc_chan (p_parent (cur s))) s;
               s = exit_children [0..<length (procs s)] s;
               s = upd_cur (\<lambda>p. p\<lparr>p_state := ZOMBIE, p_exit_status := status, p_ttime := get_ticks s\<rparr>) s
           in obind (sched s) (\<lambda>_ _. Panic ''zombie exit'')))))))"

subsection \<open>wait\<close>

text \<open>Freeing the slot \<open>i\<close> of a zombie child and delivering its status to the user pointer \<open>status\<close>.\<close>

definition reap :: "nat \<Rightarrow> u32 \<Rightarrow> 'a kernel_scheme \<Rightarrow> ('a kernel_scheme, int) outcome" where
  "reap i status s =
     (let pid = p_pid (procs s ! i)
      in obind (kfree (p_kstack (procs s ! i)) s) (\<lambda>_ s.
         let s = upd_proc i (\<lambda>p. p\<lparr>p_kstack := 0\<rparr>) s
         in obind (freevm (p_pgdir (procs s ! i)) s) (\<lambda>_ s.
            let s = upd_proc i (\<lambda>p. p\<lparr>p_pid := 0, p_parent := None, p_name := (p_name p)[0 := 0], p_killed := False, p_state := UNUSED\<rparr>) s
            in case (if status \<noteq> 0 then uwrite status (bytes32 (of_int (p_exit_status (procs s ! i)))) s else Some s) of
                 None \<Rightarrow> Panic ''trap''
               | Some s \<Rightarrow> obind (release PTABLE s) (\<lambda>_. Ret pid))))"

definition wait_scan :: "(nat \<Rightarrow> 'a kernel_scheme \<Rightarrow> ('a kernel_scheme, int) outcome) \<Rightarrow> 'a kernel_scheme \<Rightarrow> ('a kernel_scheme, int) outcome" where
  "wait_scan found s =
     (case find_idx (\<lambda>p. p_parent p = curproc s \<and> p_state p = ZOMBIE) (procs s) of
        Some i \<Rightarrow> found i s
      | None \<Rightarrow>
          if (\<forall>p \<in> set (procs s). p_parent p \<noteq> curproc s) \<or> p_killed (cur s)
          then obind (release PTABLE s) (\<lambda>_. Ret (- 1))
          else obind (sleep (proc_chan (curproc s)) PTABLE s) (\<lambda>_ _. Undef))"

definition wait :: "u32 \<Rightarrow> 'a kernel_scheme \<Rightarrow> ('a kernel_scheme, int) outcome" where
  "wait status s = obind (acquire PTABLE s) (\<lambda>_. wait_scan (\<lambda>i. reap i status))"

definition wait_resume :: "u32 \<Rightarrow> 'a kernel_scheme \<Rightarrow> ('a kernel_scheme, int) outcome" where
  "wait_resume status s = obind (sleep_resume PTABLE s) (\<lambda>_. wait_scan (\<lambda>i. reap i status))"

text \<open>\<^verbatim>\<open>wait_stat\<close> first writes the five times of the child through the user pointer \<open>perf\<close>.\<close>

definition perf_bytes :: "proc \<Rightarrow> u8 list" where
  "perf_bytes p = concat (map (\<lambda>v. bytes32 (of_int v)) [p_ctime p, p_ttime p, p_stime p, p_retime p, p_rutime p])"

definition reap_stat :: "nat \<Rightarrow> u32 \<Rightarrow> u32 \<Rightarrow> 'a kernel_scheme \<Rightarrow> ('a kernel_scheme, int) outcome" where
  "reap_stat i status perf s =
     (case uwrite perf (perf_bytes (procs s ! i)) s of None \<Rightarrow> Panic ''trap'' | Some s \<Rightarrow> reap i status s)"

definition wait_stat :: "u32 \<Rightarrow> u32 \<Rightarrow> 'a kernel_scheme \<Rightarrow> ('a kernel_scheme, int) outcome" where
  "wait_stat status perf s = obind (acquire PTABLE s) (\<lambda>_. wait_scan (\<lambda>i. reap_stat i status perf))"

definition wait_stat_resume :: "u32 \<Rightarrow> u32 \<Rightarrow> 'a kernel_scheme \<Rightarrow> ('a kernel_scheme, int) outcome" where
  "wait_stat_resume status perf s = obind (sleep_resume PTABLE s) (\<lambda>_. wait_scan (\<lambda>i. reap_stat i status perf))"

subsection \<open>forkret\<close>

definition forkret :: "'a kernel_scheme \<Rightarrow> ('a kernel_scheme, unit) outcome" where
  "forkret s =
     obind (release PTABLE s) (\<lambda>_ s.
     if forkret_first s
     then obind (iinit ROOTDEV (s\<lparr>forkret_first := False\<rparr>)) (\<lambda>_. initlog ROOTDEV)
     else Ret () s)"

end
