(* ===== verification/Exec.thy ===== *)
theory Exec
  imports Process
begin

text \<open>
  \<^verbatim>\<open>exec\<close> (\<^verbatim>\<open>exec.c\<close>, \<^verbatim>\<open>loaduvm\<close> of \<^verbatim>\<open>vm.c\<close>): the program file in its bytes, the new page table, the stack with the
  arguments and the call of \<^verbatim>\<open>pseudo_main\<close>. The argument strings are given by their bytes; the array \<^verbatim>\<open>ustack\<close> is
  a list of its declared length, and a store behind its end is undefined.
\<close>

subsection \<open>The program file (elf.h)\<close>

record elfhdr =
  e_magic :: u32
  e_entry :: u32
  e_phoff :: u32
  e_phnum :: u16

record proghdr =
  ph_type :: u32
  ph_off :: u32
  ph_vaddr :: u32
  ph_filesz :: u32
  ph_memsz :: u32

definition get_elf :: "u8 list \<Rightarrow> elfhdr" where
  "get_elf d = \<lparr>e_magic = get32 d 0, e_entry = get32 d 24, e_phoff = get32 d 28, e_phnum = get16 d 44\<rparr>"

definition get_ph :: "u8 list \<Rightarrow> proghdr" where
  "get_ph d = \<lparr>ph_type = get32 d 0, ph_off = get32 d 4, ph_vaddr = get32 d 8, ph_filesz = get32 d 16, ph_memsz = get32 d 20\<rparr>"

text \<open>
  A structure of \<open>n\<close> bytes read from the file into a local variable; \<open>None\<close> when fewer bytes came. Bytes that
  a device delivers into a kernel variable are not followed.
\<close>

definition read_struct :: "nat \<Rightarrow> u32 \<Rightarrow> nat \<Rightarrow> 'a fstate_scheme \<Rightarrow> ('a fstate_scheme, u8 list option) outcome" where
  "read_struct ip off n s =
     obind (readi ip Local off (of_nat n) s) (\<lambda>(r, bs) s.
     if r \<noteq> int n then Ret None s else if length bs \<noteq> n then Undef else Ret (Some bs) s)"

subsection \<open>Loading (vm.c)\<close>

function loaduvm_loop :: "u32 \<Rightarrow> u32 \<Rightarrow> nat \<Rightarrow> u32 \<Rightarrow> u32 \<Rightarrow> u32 \<Rightarrow> 'a fstate_scheme \<Rightarrow> ('a fstate_scheme, int) outcome" where
  "loaduvm_loop pgdir addr ip offset i sz s =
     (if i < sz
      then
        obind (walkpgdir pgdir (addr + i) False s) (\<lambda>pte s.
        if pte = 0 then Panic ''loaduvm: address should exist''
        else
          let pa = PTE_ADDR (load32 (mem s) pte);
              n = (if sz - i < PGSIZE then sz - i else PGSIZE)
          in obind (readi ip (Kern (P2V pa)) (offset + i) n s) (\<lambda>(r, _) s.
             if r \<noteq> int (unat n) then Ret (- 1) s
             else if i + PGSIZE \<le> i then Undef
             else loaduvm_loop pgdir addr ip offset (i + PGSIZE) sz s))
      else Ret 0 s)"
  by pat_completeness auto
termination
  by (relation "measure (\<lambda>(pgdir, addr, ip, offset, i, sz, s). 4294967296 - unat i)")
    (auto simp: word_le_nat_alt not_le intro!: diff_less_mono2)

declare loaduvm_loop.simps [simp del]

definition loaduvm :: "u32 \<Rightarrow> u32 \<Rightarrow> nat \<Rightarrow> u32 \<Rightarrow> u32 \<Rightarrow> 'a fstate_scheme \<Rightarrow> ('a fstate_scheme, int) outcome" where
  "loaduvm pgdir addr ip offset sz s =
     (if addr mod PGSIZE \<noteq> 0 then Panic ''loaduvm: addr must be page aligned'' else loaduvm_loop pgdir addr ip offset 0 sz s)"

text \<open>The loop over the program headers with \<open>k\<close> headers left; \<open>None\<close> is the \<^verbatim>\<open>goto bad\<close>.\<close>

primrec exec_load :: "nat \<Rightarrow> nat \<Rightarrow> u32 \<Rightarrow> u32 \<Rightarrow> u32 \<Rightarrow> 'a fstate_scheme \<Rightarrow> ('a fstate_scheme, u32 option) outcome" where
  "exec_load 0 ip pgdir off sz s = Ret (Some sz) s"
| "exec_load (Suc k) ip pgdir off sz s =
     obind (read_struct ip off 32 s) (\<lambda>r s.
     case r of None \<Rightarrow> Ret None s
     | Some bs \<Rightarrow>
         let ph = get_ph bs
         in if ph_type ph \<noteq> 1 then exec_load k ip pgdir (off + 32) sz s
            else if ph_memsz ph < ph_filesz ph then Ret None s
            else if ph_vaddr ph + ph_memsz ph < ph_vaddr ph then Ret None s
            else obind (allocuvm pgdir sz (ph_vaddr ph + ph_memsz ph) s) (\<lambda>sz s.
              if sz = 0 then Ret None s
              else if ph_vaddr ph mod PGSIZE \<noteq> 0 then Ret None s
              else obind (loaduvm pgdir (ph_vaddr ph) ip (ph_off ph) (ph_filesz ph) s) (\<lambda>r s.
                if r < 0 then Ret None s else exec_load k ip pgdir (off + 32) sz s)))"

subsection \<open>The stack\<close>

text \<open>\<^verbatim>\<open>copyout\<close> of a source given by its bytes.\<close>

function copyout_bytes :: "u32 \<Rightarrow> u32 \<Rightarrow> u8 list \<Rightarrow> 'a kstate_scheme \<Rightarrow> ('a kstate_scheme, int) outcome" where
  "copyout_bytes pgdir va bs s =
     (if bs = [] then Ret 0 s
      else
        let va0 = PGROUNDDOWN va
        in obind (uva2ka pgdir va0 s) (\<lambda>pa0 s.
           if pa0 = 0 then Ret (- 1) s
           else
             let n = min (4096 - unat (va - va0)) (length bs);
                 s = s\<lparr>mem := store_bytes (pa0 + (va - va0)) (take n bs) (mem s)\<rparr>
             in copyout_bytes pgdir (va0 + PGSIZE) (drop n bs) s))"
  by pat_completeness auto
termination
proof (relation "measure (\<lambda>(pgdir, va, bs, s). length bs)", goal_cases)
  case (2 pgdir va bs s va0 pa0 t n u)
  have "unat va mod 4096 < 4096" by simp
  with 2 show ?case by (simp add: unat_sub_PGROUNDDOWN)
qed simp

declare copyout_bytes.simps [simp del]

text \<open>
  Pushing the argument strings: \<^verbatim>\<open>argc\<close> counts them, the rest of the arguments is the list. The result is the
  stack pointer and the array, or \<open>None\<close> for \<^verbatim>\<open>goto bad\<close>.
\<close>

primrec exec_args :: "u8 list list \<Rightarrow> nat \<Rightarrow> u32 \<Rightarrow> u32 \<Rightarrow> u32 list \<Rightarrow> 'a kstate_scheme \<Rightarrow> ('a kstate_scheme, (nat \<times> u32 \<times> u32 list) option) outcome" where
  "exec_args [] argc pgdir sp ustack s = Ret (Some (argc, sp, ustack)) s"
| "exec_args (a # as) argc pgdir sp ustack s =
     (if argc \<ge> MAXARG then Ret None s
      else
        let sp = (sp - of_nat (length a + 1)) AND NOT 3
        in obind (copyout_bytes pgdir sp (a @ [0]) s) (\<lambda>r s.
           if r < 0 then Ret None s
           else if length ustack \<le> 4 + argc then Undef
           else exec_args as (argc + 1) pgdir sp (ustack[4 + argc := sp]) s))"

text \<open>The array \<^verbatim>\<open>ustack\<close> once all of it is filled in.\<close>

definition exec_frame :: "u32 \<Rightarrow> nat \<Rightarrow> u32 \<Rightarrow> u32 list \<Rightarrow> u32 list" where
  "exec_frame entry argc sp ustack =
     ustack[4 + argc := 0, 0 := 0xffffffff, 1 := entry, 2 := of_nat argc, 3 := sp - of_nat ((argc + 1) * 4)]"

definition words_bytes :: "u32 list \<Rightarrow> u8 list" where
  "words_bytes ws = concat (map bytes32 ws)"

subsection \<open>exec\<close>

definition exec_bad :: "u32 \<Rightarrow> nat option \<Rightarrow> 'a kernel_scheme \<Rightarrow> ('a kernel_scheme, int) outcome" where
  "exec_bad pgdir ip s =
     obind (if pgdir \<noteq> 0 then freevm pgdir s else Ret () s) (\<lambda>_ s.
     obind (case ip of None \<Rightarrow> Ret () s | Some i \<Rightarrow> obind (iunlockput i s) (\<lambda>_. end_op)) (\<lambda>_. Ret (- 1)))"

definition last_elem :: "u8 list \<Rightarrow> u8 list" where
  "last_elem path = rev (takeWhile (\<lambda>c. c \<noteq> 47) (rev path))"

text \<open>From the loaded program of size \<open>sz0\<close> on: stack, arguments and the commitment to the new image.\<close>

definition exec_commit :: "u8 list \<Rightarrow> u32 \<Rightarrow> u32 \<Rightarrow> u32 \<Rightarrow> u32 \<Rightarrow> 'a kernel_scheme \<Rightarrow> ('a kernel_scheme, int) outcome" where
  "exec_commit path pgdir sz main sp s =
     (let s = upd_cur (\<lambda>p. p\<lparr>p_name := safestrcpy_arr (p_name p) (last_elem path)\<rparr>) s;
          oldpgdir = p_pgdir (cur s);
          s = upd_cur (\<lambda>p. p\<lparr>p_pgdir := pgdir, p_sz := sz, p_tf := (p_tf p)\<lparr>tf_eip := main, tf_esp := sp\<rparr>\<rparr>) s
      in obind (switchuvm (the (curproc s)) s) (\<lambda>_ s. obind (freevm oldpgdir s) (\<lambda>_. Ret 0)))"

definition exec_stack :: "u8 list \<Rightarrow> u8 list list \<Rightarrow> u32 \<Rightarrow> u32 \<Rightarrow> u32 \<Rightarrow> 'a kernel_scheme \<Rightarrow> ('a kernel_scheme, int) outcome" where
  "exec_stack path argv entry pgdir sz0 s =
     obind (allocuvm pgdir (PGROUNDUP sz0) (PGROUNDUP sz0 + 3 * PGSIZE) s) (\<lambda>sz s.
     if sz = 0 then exec_bad pgdir None s
     else
       obind (clearpteu pgdir (sz - 2 * PGSIZE) s) (\<lambda>_ s.
       obind (copyout_bytes pgdir sz0 (lk_pseudo_main s) s) (\<lambda>r s.
       if r < 0 then exec_bad pgdir None s
       else
         obind (exec_args argv 0 pgdir sz (replicate (3 + MAXARG + 1) 0) s) (\<lambda>a s.
         case a of None \<Rightarrow> exec_bad pgdir None s
         | Some (argc, sp, ustack) \<Rightarrow>
             if length ustack \<le> 4 + argc then Undef
             else
               let ustack = exec_frame entry argc sp ustack;
                   sp = sp - of_nat ((4 + argc + 1) * 4)
               in obind (copyout_bytes pgdir sp (words_bytes (take (4 + argc + 1) ustack)) s) (\<lambda>r s.
                  if r < 0 then exec_bad pgdir None s else exec_commit path pgdir sz sz0 sp s)))))"

definition exec :: "u8 list \<Rightarrow> u8 list list \<Rightarrow> 'a kernel_scheme \<Rightarrow> ('a kernel_scheme, int) outcome" where
  "exec path argv s =
     obind (begin_op s) (\<lambda>_ s.
     obind (namei path s) (\<lambda>r s.
     case r of None \<Rightarrow> obind (end_op s) (\<lambda>_. Ret (- 1))
     | Some ip \<Rightarrow>
         obind (ilock ip s) (\<lambda>_ s.
         obind (read_struct ip 0 52 s) (\<lambda>e s.
         case e of None \<Rightarrow> exec_bad 0 (Some ip) s
         | Some bs \<Rightarrow>
             let elf = get_elf bs
             in if e_magic elf \<noteq> 0x464C457F then exec_bad 0 (Some ip) s
                else
                  obind (setupkvm s) (\<lambda>pgdir s.
                  if pgdir = 0 then exec_bad 0 (Some ip) s
                  else
                    obind (exec_load (unat (e_phnum elf)) ip pgdir (e_phoff elf) 0 s) (\<lambda>l s.
                    case l of None \<Rightarrow> exec_bad pgdir (Some ip) s
                    | Some sz \<Rightarrow>
                        obind (iunlockput ip s) (\<lambda>_ s.
                        obind (end_op s) (\<lambda>_. exec_stack path argv (e_entry elf) pgdir sz))))))))"

end
