(* ===== verification/Syscall.thy ===== *)
theory Syscall
  imports Exec
begin

text \<open>
  System calls (\<^verbatim>\<open>syscall.c\<close>, \<^verbatim>\<open>sysproc.c\<close>): fetching the arguments from the user stack, the calls on
  processes, and the checks that keep a user process from handing the kernel an address outside
  its memory. User memory is read through the page table; an address without a page is a trap in
  the kernel.
\<close>

subsection \<open>Arguments (syscall.c)\<close>

definition fetchint :: "u32 \<Rightarrow> 'a kernel_scheme \<Rightarrow> ('a kernel_scheme, int option) outcome" where
  "fetchint addr s =
     (if addr \<ge> p_sz (cur s) \<or> addr + 4 > p_sz (cur s) then Ret None s
      else case uread 4 addr s of None \<Rightarrow> Panic ''trap'' | Some bs \<Rightarrow> Ret (Some (sint (get32 bs 0))) s)"

text \<open>The scan of \<^verbatim>\<open>fetchstr\<close> with \<open>k\<close> bytes up to the end of the process; the result is the string without its 0.\<close>

primrec fetchstr_loop :: "nat \<Rightarrow> u32 \<Rightarrow> 'a kernel_scheme \<Rightarrow> ('a kernel_scheme, u8 list option) outcome" where
  "fetchstr_loop 0 a s = Ret None s"
| "fetchstr_loop (Suc k) a s =
     (case umap s a of
        None \<Rightarrow> Panic ''trap''
      | Some p \<Rightarrow>
          if mem s p = 0 then Ret (Some []) s
          else obind (fetchstr_loop k (a + 1) s) (\<lambda>r. Ret (map_option ((#) (mem s p)) r)))"

definition fetchstr :: "u32 \<Rightarrow> 'a kernel_scheme \<Rightarrow> ('a kernel_scheme, u8 list option) outcome" where
  "fetchstr addr s =
     (if addr \<ge> p_sz (cur s) then Ret None s else fetchstr_loop (unat (p_sz (cur s) - addr)) addr s)"

definition argint :: "nat \<Rightarrow> 'a kernel_scheme \<Rightarrow> ('a kernel_scheme, int option) outcome" where
  "argint n s = fetchint (tf_esp (p_tf (cur s)) + 4 + 4 * of_nat n) s"

definition argptr :: "nat \<Rightarrow> int \<Rightarrow> 'a kernel_scheme \<Rightarrow> ('a kernel_scheme, u32 option) outcome" where
  "argptr n siz s =
     obind (argint n s) (\<lambda>r s.
     case r of None \<Rightarrow> Ret None s
     | Some i \<Rightarrow>
         if siz < 0 \<or> of_int i \<ge> p_sz (cur s) \<or> of_int i + of_int siz > p_sz (cur s) then Ret None s
         else Ret (Some (of_int i)) s)"

definition argstr :: "nat \<Rightarrow> 'a kernel_scheme \<Rightarrow> ('a kernel_scheme, u8 list option) outcome" where
  "argstr n s =
     obind (argint n s) (\<lambda>r s. case r of None \<Rightarrow> Ret None s | Some a \<Rightarrow> fetchstr (of_int a) s)"

text \<open>The idiom \<^verbatim>\<open>if(arg...(...) < 0) return -1;\<close>\<close>

definition need :: "('a kernel_scheme, 'b option) outcome \<Rightarrow> ('b \<Rightarrow> 'a kernel_scheme \<Rightarrow> ('a kernel_scheme, int) outcome) \<Rightarrow> ('a kernel_scheme, int) outcome" where
  "need m f = obind m (\<lambda>r s. case r of None \<Rightarrow> Ret (- 1) s | Some x \<Rightarrow> f x s)"

subsection \<open>Processes (sysproc.c)\<close>

definition sys_fork :: "'a kernel_scheme \<Rightarrow> ('a kernel_scheme, int) outcome" where
  "sys_fork s = fork s"

definition sys_exit :: "'a kernel_scheme \<Rightarrow> ('a kernel_scheme, int) outcome" where
  "sys_exit s = need (argint 0 s) (\<lambda>status s. exit status s)"

definition sys_wait :: "'a kernel_scheme \<Rightarrow> ('a kernel_scheme, int) outcome" where
  "sys_wait s = need (argint 0 s) (\<lambda>status s. wait (of_int status) s)"

definition sys_kill :: "'a kernel_scheme \<Rightarrow> ('a kernel_scheme, int) outcome" where
  "sys_kill s = need (argint 0 s) (\<lambda>pid s. kill pid s)"

definition sys_getpid :: "'a kernel_scheme \<Rightarrow> ('a kernel_scheme, int) outcome" where
  "sys_getpid s = Ret (p_pid (cur s)) s"

definition sys_sbrk :: "'a kernel_scheme \<Rightarrow> ('a kernel_scheme, int) outcome" where
  "sys_sbrk s =
     need (argint 0 s) (\<lambda>n s.
     let addr = sint (p_sz (cur s))
     in obind (growproc n s) (\<lambda>r s. if r < 0 then Ret (- 1) s else Ret addr s))"

text \<open>The loop of \<^verbatim>\<open>sys_sleep\<close>; the comparison \<^verbatim>\<open>ticks - ticks0 < n\<close> is one of unsigned numbers.\<close>

definition sys_sleep_loop :: "int \<Rightarrow> u32 \<Rightarrow> 'a kernel_scheme \<Rightarrow> ('a kernel_scheme, int) outcome" where
  "sys_sleep_loop n ticks0 s =
     (if ticks s - ticks0 < of_int n
      then if p_killed (cur s) then obind (release TICKSLOCK s) (\<lambda>_. Ret (- 1))
           else obind (sleep ChTicks TICKSLOCK (save_locals [n, uint ticks0] s)) (\<lambda>_ _. Undef)
      else obind (release TICKSLOCK s) (\<lambda>_. Ret 0))"

definition sys_sleep :: "'a kernel_scheme \<Rightarrow> ('a kernel_scheme, int) outcome" where
  "sys_sleep s = need (argint 0 s) (\<lambda>n s. obind (acquire TICKSLOCK s) (\<lambda>_ s. sys_sleep_loop n (ticks s) s))"

definition sys_sleep_resume :: "'a kernel_scheme \<Rightarrow> ('a kernel_scheme, int) outcome" where
  "sys_sleep_resume s =
     obind (sleep_resume TICKSLOCK s) (\<lambda>_ s.
     case saved_locals s of [n, t] \<Rightarrow> sys_sleep_loop n (of_int t) s | _ \<Rightarrow> Undef)"

definition sys_uptime :: "'a kernel_scheme \<Rightarrow> ('a kernel_scheme, int) outcome" where
  "sys_uptime s =
     obind (acquire TICKSLOCK s) (\<lambda>_ s.
     let xticks = ticks s in obind (release TICKSLOCK s) (\<lambda>_. Ret (sint xticks)))"

definition sys_priority :: "'a kernel_scheme \<Rightarrow> ('a kernel_scheme, int) outcome" where
  "sys_priority s = need (argint 0 s) (\<lambda>pr s. obind (set_priority pr s) (\<lambda>_. Ret 0))"

definition sys_policy :: "'a kernel_scheme \<Rightarrow> ('a kernel_scheme, int) outcome" where
  "sys_policy s = need (argint 0 s) (\<lambda>pl s. obind (policy pl s) (\<lambda>_. Ret 0))"

definition sys_wait_stat :: "'a kernel_scheme \<Rightarrow> ('a kernel_scheme, int) outcome" where
  "sys_wait_stat s = need (argint 0 s) (\<lambda>st s. need (argint 1 s) (\<lambda>perf s. wait_stat (of_int st) (of_int perf) s))"

end
