(* ===== verification/Kbd.thy ===== *)
theory Kbd
  imports Console
begin

text \<open>
  The keyboard driver (\<^verbatim>\<open>kbd.c\<close>, \<^verbatim>\<open>kbd.h\<close>): the translation of scan codes to characters with the static variable
  \<^verbatim>\<open>shift\<close> of \<^verbatim>\<open>kbdgetc\<close> as argument and result. The port readings of one interrupt are a list of status and
  data bytes; the serial driver's \<^verbatim>\<open>uartgetc\<close> is here too, since both feed \<^verbatim>\<open>consoleintr\<close>.
\<close>

abbreviation (input) SHIFT :: u8 where "SHIFT \<equiv> 1"
abbreviation (input) CTL :: u8 where "CTL \<equiv> 2"
abbreviation (input) ALT :: u8 where "ALT \<equiv> 4"
abbreviation (input) CAPSLOCK :: u8 where "CAPSLOCK \<equiv> 8"
abbreviation (input) NUMLOCK :: u8 where "NUMLOCK \<equiv> 16"
abbreviation (input) SCROLLLOCK :: u8 where "SCROLLLOCK \<equiv> 32"
abbreviation (input) E0ESC :: u8 where "E0ESC \<equiv> 64"

subsection \<open>The tables\<close>

text \<open>An array of 256 bytes given by its first entries and by those that are set by index; all others are 0.\<close>

definition table :: "u8 list \<Rightarrow> (u8 \<times> u8) list \<Rightarrow> u8 \<Rightarrow> u8" where
  "table xs ys d = (case map_of ys d of Some c \<Rightarrow> c | None \<Rightarrow> if unat d < length xs then xs ! unat d else 0)"

definition shiftcode :: "u8 \<Rightarrow> u8" where
  "shiftcode = table [] [(0x1D, CTL), (0x2A, SHIFT), (0x36, SHIFT), (0x38, ALT), (0x9D, CTL), (0xB8, ALT)]"

definition togglecode :: "u8 \<Rightarrow> u8" where
  "togglecode = table [] [(0x3A, CAPSLOCK), (0x45, NUMLOCK), (0x46, SCROLLLOCK)]"

definition keypad :: "u8 \<Rightarrow> u8 \<Rightarrow> (u8 \<times> u8) list" where
  "keypad ent dv = [(0x9C, ent), (0xB5, dv), (0xC8, 0xE2), (0xD0, 0xE3), (0xC9, 0xE6), (0xD1, 0xE7), (0xCB, 0xE4), (0xCD, 0xE5),
     (0x97, 0xE0), (0xCF, 0xE1), (0xD2, 0xE8), (0xD3, 0xE9)]"

definition normalmap :: "u8 \<Rightarrow> u8" where
  "normalmap = table ([0, 0x1B] @ str ''1234567890-='' @ [8, 9] @ str ''qwertyuiop[]'' @ [10, 0] @ str ''asdfghjkl;'' @ [39, 96, 0, 92] @
     str ''zxcvbnm,./'' @ [0, 42, 0, 32] @ replicate 13 0 @ str ''789-456+1230.'' @ [0, 0, 0, 0]) (keypad 10 47)"

definition shiftmap :: "u8 \<Rightarrow> u8" where
  "shiftmap = table ([0, 0x1B] @ str ''!@#$%^&*()_+'' @ [8, 9] @ str ''QWERTYUIOP{}'' @ [10, 0] @ str ''ASDFGHJKL:'' @ [34, 126, 0, 124] @
     str ''ZXCVBNM<>?'' @ [0, 42, 0, 32] @ replicate 13 0 @ str ''789-456+1230.'' @ [0, 0, 0, 0]) (keypad 10 47)"

text \<open>The macro \<^verbatim>\<open>C(x)\<close> is \<open>x - 64\<close> in a byte.\<close>

definition ctl :: "string \<Rightarrow> u8 list" where
  "ctl xs = map (\<lambda>c. c - 64) (str xs)"

definition ctlmap :: "u8 \<Rightarrow> u8" where
  "ctlmap = table (replicate 16 0 @ ctl ''QWERTYUIOP'' @ [0, 0, 13, 0] @ ctl ''ASDFGHJKL'' @ [0, 0, 0, 0] @ [92 - 64] @
     ctl ''ZXCVBNM'' @ [0, 0] @ ctl ''/'' @ [0, 0]) (keypad 13 (47 - 64))"

subsection \<open>Scan codes to characters\<close>

definition charcode :: "u8 \<Rightarrow> u8 \<Rightarrow> u8" where
  "charcode sel = (if sel = 0 then normalmap else if sel = 1 then shiftmap else ctlmap)"

definition swap_case :: "u8 \<Rightarrow> u8" where
  "swap_case c = (if 97 \<le> c \<and> c \<le> 122 then c - 32 else if 65 \<le> c \<and> c \<le> 90 then c + 32 else c)"

definition kbdgetc :: "u8 \<Rightarrow> u8 \<Rightarrow> u8 \<Rightarrow> int \<times> u8" where
  "kbdgetc st data shift =
     (if st AND 1 = 0 then (- 1, shift)
      else if data = 0xE0 then (0, shift OR E0ESC)
      else if data AND 0x80 \<noteq> 0
      then let data = (if shift AND E0ESC \<noteq> 0 then data else data AND 0x7F)
           in (0, shift AND NOT (shiftcode data OR E0ESC))
      else
        let esc = (shift AND E0ESC \<noteq> 0);
            data = (if esc then data OR 0x80 else data);
            shift = (if esc then shift AND NOT E0ESC else shift);
            shift = (shift OR shiftcode data) XOR togglecode data;
            c = charcode (shift AND (CTL OR SHIFT)) data
        in (uint (if shift AND CAPSLOCK \<noteq> 0 then swap_case c else c), shift))"

primrec kbd_chars :: "(u8 \<times> u8) list \<Rightarrow> u8 \<Rightarrow> int list \<times> u8" where
  "kbd_chars [] shift = ([], shift)"
| "kbd_chars (p # ps) shift =
     (case kbdgetc (fst p) (snd p) shift of (c, shift) \<Rightarrow>
        if c < 0 then ([c], shift) else case kbd_chars ps shift of (cs, shift) \<Rightarrow> (c # cs, shift))"

definition kbdintr :: "(proc \<Rightarrow> u32 list) \<Rightarrow> (u8 \<times> u8) list \<Rightarrow> u8 \<Rightarrow> 'a cstate_scheme \<Rightarrow> ('a cstate_scheme, u8) outcome" where
  "kbdintr pcs ports shift s =
     (case kbd_chars ports shift of (cs, shift) \<Rightarrow> obind (consoleintr pcs cs s) (\<lambda>_. Ret shift))"

definition uartgetc :: "u8 \<Rightarrow> u8 \<Rightarrow> 'a cstate_scheme \<Rightarrow> int" where
  "uartgetc st data s = (if \<not> uart s then - 1 else if st AND 1 = 0 then - 1 else uint data)"

definition uartintr :: "(proc \<Rightarrow> u32 list) \<Rightarrow> (u8 \<times> u8) list \<Rightarrow> 'a cstate_scheme \<Rightarrow> ('a cstate_scheme, unit) outcome" where
  "uartintr pcs ports s = consoleintr pcs (map (\<lambda>(st, d). uartgetc st d s) ports) s"

end
