(* ===== verification/Sysfile.thy ===== *)
theory Sysfile
  imports Syscall Kbd
begin

text \<open>
  The file system calls (\<^verbatim>\<open>sysfile.c\<close>), the table of system calls and its dispatcher (\<^verbatim>\<open>syscall.c\<close>), and the trap
  handler (\<^verbatim>\<open>trap.c\<close>) that everything enters through. A call that has to wait in the middle, for an inode
  lock or for room in the log, ends in \<open>Sleep\<close>.
\<close>

subsection \<open>Descriptors\<close>

definition argfd :: "nat \<Rightarrow> 'a kernel_scheme \<Rightarrow> ('a kernel_scheme, (nat \<times> nat) option) outcome" where
  "argfd n s =
     obind (argint n s) (\<lambda>r s.
     case r of None \<Rightarrow> Ret None s
     | Some fd \<Rightarrow>
         if fd < 0 \<or> fd \<ge> int NOFILE then Ret None s
         else case p_ofile (cur s) ! nat fd of None \<Rightarrow> Ret None s | Some f \<Rightarrow> Ret (Some (nat fd, f)) s)"

definition set_fd :: "nat \<Rightarrow> nat option \<Rightarrow> 'a pstate_scheme \<Rightarrow> 'a pstate_scheme" where
  "set_fd fd f s = upd_cur (\<lambda>p. p\<lparr>p_ofile := (p_ofile p)[fd := f]\<rparr>) s"

definition fdalloc :: "nat \<Rightarrow> 'a kernel_scheme \<Rightarrow> nat option \<times> 'a kernel_scheme" where
  "fdalloc f s =
     (case find (\<lambda>fd. p_ofile (cur s) ! fd = None) [0..<NOFILE] of
        Some fd \<Rightarrow> (Some fd, set_fd fd (Some f) s)
      | None \<Rightarrow> (None, s))"

definition sys_dup :: "'a kernel_scheme \<Rightarrow> ('a kernel_scheme, int) outcome" where
  "sys_dup s =
     need (argfd 0 s) (\<lambda>(_, f) s.
     case fdalloc f s of
       (None, s) \<Rightarrow> Ret (- 1) s
     | (Some fd, s) \<Rightarrow> obind (filedup f s) (\<lambda>_. Ret (int fd)))"

definition sys_read :: "'a kernel_scheme \<Rightarrow> ('a kernel_scheme, int) outcome" where
  "sys_read s =
     need (argfd 0 s) (\<lambda>(_, f) s. need (argint 2 s) (\<lambda>n s. need (argptr 1 n s) (\<lambda>p s. fileread f p n s)))"

definition sys_write :: "'a kernel_scheme \<Rightarrow> ('a kernel_scheme, int) outcome" where
  "sys_write s =
     need (argfd 0 s) (\<lambda>(_, f) s. need (argint 2 s) (\<lambda>n s. need (argptr 1 n s) (\<lambda>p s. filewrite f p n s)))"

definition sys_close :: "'a kernel_scheme \<Rightarrow> ('a kernel_scheme, int) outcome" where
  "sys_close s = need (argfd 0 s) (\<lambda>(fd, f) s. obind (fileclose f (set_fd fd None s)) (\<lambda>_. Ret 0))"

definition sys_fstat :: "'a kernel_scheme \<Rightarrow> ('a kernel_scheme, int) outcome" where
  "sys_fstat s = need (argfd 0 s) (\<lambda>(_, f) s. need (argptr 1 20 s) (\<lambda>st s. filestat f st s))"

subsection \<open>Links\<close>

definition sys_link_bad :: "nat \<Rightarrow> 'a kernel_scheme \<Rightarrow> ('a kernel_scheme, int) outcome" where
  "sys_link_bad ip s =
     obind (ilock ip s) (\<lambda>_ s.
     obind (iupdate ip (upd_d ip (\<lambda>x. x\<lparr>d_nlink := d_nlink x - 1\<rparr>) s)) (\<lambda>_ s.
     obind (iunlockput ip s) (\<lambda>_ s. obind (end_op s) (\<lambda>_. Ret (- 1)))))"

definition sys_link :: "'a kernel_scheme \<Rightarrow> ('a kernel_scheme, int) outcome" where
  "sys_link s =
     need (argstr 0 s) (\<lambda>old s. need (argstr 1 s) (\<lambda>new s.
     obind (begin_op s) (\<lambda>_ s.
     obind (namei old s) (\<lambda>r s.
     case r of None \<Rightarrow> obind (end_op s) (\<lambda>_. Ret (- 1))
     | Some ip \<Rightarrow>
         obind (ilock ip s) (\<lambda>_ s.
         if d_type (i_d (inodes s ip)) = T_DIR
         then obind (iunlockput ip s) (\<lambda>_ s. obind (end_op s) (\<lambda>_. Ret (- 1)))
         else
           obind (iupdate ip (upd_d ip (\<lambda>x. x\<lparr>d_nlink := d_nlink x + 1\<rparr>) s)) (\<lambda>_ s.
           obind (iunlock ip s) (\<lambda>_ s.
           obind (nameiparent new s) (\<lambda>r s.
           case r of None \<Rightarrow> sys_link_bad ip s
           | Some (dp, name) \<Rightarrow>
               obind (ilock dp s) (\<lambda>_ s.
               obind (if i_dev (inodes s dp) \<noteq> i_dev (inodes s ip) then Ret (- 1) s else dirlink dp name (i_inum (inodes s ip)) s) (\<lambda>r s.
               if r < 0 then obind (iunlockput dp s) (\<lambda>_. sys_link_bad ip)
               else obind (iunlockput dp s) (\<lambda>_ s.
                    obind (iput ip s) (\<lambda>_ s. obind (end_op s) (\<lambda>_. Ret 0)))))))))))))"

text \<open>The scan of \<^verbatim>\<open>isdirempty\<close> over the offsets behind the first two entries.\<close>

primrec isdirempty_loop :: "nat \<Rightarrow> nat list \<Rightarrow> 'a fstate_scheme \<Rightarrow> ('a fstate_scheme, bool) outcome" where
  "isdirempty_loop dp [] s = Ret True s"
| "isdirempty_loop dp (off # offs) s =
     obind (readi dp Local (of_nat off) 16 s) (\<lambda>(r, de) s.
     if r \<noteq> 16 then Panic ''isdirempty: readi''
     else if de_inum de \<noteq> 0 then Ret False s
     else isdirempty_loop dp offs s)"

definition isdirempty :: "nat \<Rightarrow> 'a fstate_scheme \<Rightarrow> ('a fstate_scheme, bool) outcome" where
  "isdirempty dp s = isdirempty_loop dp (drop 2 (dir_offs dp s)) s"

definition sys_unlink_bad :: "nat \<Rightarrow> 'a kernel_scheme \<Rightarrow> ('a kernel_scheme, int) outcome" where
  "sys_unlink_bad dp s = obind (iunlockput dp s) (\<lambda>_ s. obind (end_op s) (\<lambda>_. Ret (- 1)))"

text \<open>Erasing the entry at \<open>off\<close> of \<open>dp\<close> that names \<open>ip\<close>; both inodes are locked.\<close>

definition unlink_entry :: "nat \<Rightarrow> nat \<Rightarrow> u32 \<Rightarrow> 'a kernel_scheme \<Rightarrow> ('a kernel_scheme, int) outcome" where
  "unlink_entry dp ip off s =
     obind (writei dp (Bytes (replicate 16 0)) off 16 s) (\<lambda>r s.
     if r \<noteq> 16 then Panic ''unlink: writei''
     else
       obind (if d_type (i_d (inodes s ip)) = T_DIR
              then iupdate dp (upd_d dp (\<lambda>x. x\<lparr>d_nlink := d_nlink x - 1\<rparr>) s) else Ret () s) (\<lambda>_ s.
       obind (iunlockput dp s) (\<lambda>_ s.
       obind (iupdate ip (upd_d ip (\<lambda>x. x\<lparr>d_nlink := d_nlink x - 1\<rparr>) s)) (\<lambda>_ s.
       obind (iunlockput ip s) (\<lambda>_ s. obind (end_op s) (\<lambda>_. Ret 0))))))"

definition sys_unlink :: "'a kernel_scheme \<Rightarrow> ('a kernel_scheme, int) outcome" where
  "sys_unlink s =
     need (argstr 0 s) (\<lambda>path s.
     obind (begin_op s) (\<lambda>_ s.
     obind (nameiparent path s) (\<lambda>r s.
     case r of None \<Rightarrow> obind (end_op s) (\<lambda>_. Ret (- 1))
     | Some (dp, name) \<Rightarrow>
         obind (ilock dp s) (\<lambda>_ s.
         if namecmp name (str ''.'' @ [0]) = 0 \<or> namecmp name (str ''..'' @ [0]) = 0 then sys_unlink_bad dp s
         else
           obind (dirlookup dp name s) (\<lambda>r s.
           case r of None \<Rightarrow> sys_unlink_bad dp s
           | Some (ip, off) \<Rightarrow>
               obind (ilock ip s) (\<lambda>_ s.
               if sint (d_nlink (i_d (inodes s ip))) < 1 then Panic ''unlink: nlink < 1''
               else
                 obind (if d_type (i_d (inodes s ip)) = T_DIR then isdirempty ip s else Ret True s) (\<lambda>ok s.
                 if \<not> ok then obind (iunlockput ip s) (\<lambda>_. sys_unlink_bad dp)
                 else unlink_entry dp ip off s)))))))"

subsection \<open>Creating and opening\<close>

definition create_new :: "nat \<Rightarrow> u8 list \<Rightarrow> u16 \<Rightarrow> u16 \<Rightarrow> u16 \<Rightarrow> 'a kernel_scheme \<Rightarrow> ('a kernel_scheme, nat option) outcome" where
  "create_new dp name ty major minor s =
     obind (ialloc (i_dev (inodes s dp)) ty s) (\<lambda>ip s.
     obind (ilock ip s) (\<lambda>_ s.
     obind (iupdate ip (upd_d ip (\<lambda>x. x\<lparr>d_major := major, d_minor := minor, d_nlink := 1\<rparr>) s)) (\<lambda>_ s.
     obind (if ty = T_DIR
            then
              obind (iupdate dp (upd_d dp (\<lambda>x. x\<lparr>d_nlink := d_nlink x + 1\<rparr>) s)) (\<lambda>_ s.
              obind (dirlink ip (str ''.'' @ [0]) (i_inum (inodes s ip)) s) (\<lambda>r s.
              if r < 0 then Panic ''create dots''
              else obind (dirlink ip (str ''..'' @ [0]) (i_inum (inodes s dp)) s) (\<lambda>r s.
                   if r < 0 then Panic ''create dots'' else Ret () s)))
            else Ret () s) (\<lambda>_ s.
     obind (dirlink dp name (i_inum (inodes s ip)) s) (\<lambda>r s.
     if r < 0 then Panic ''create: dirlink''
     else obind (iunlockput dp s) (\<lambda>_. Ret (Some ip)))))))"

definition create :: "u8 list \<Rightarrow> u16 \<Rightarrow> u16 \<Rightarrow> u16 \<Rightarrow> 'a kernel_scheme \<Rightarrow> ('a kernel_scheme, nat option) outcome" where
  "create path ty major minor s =
     obind (nameiparent path s) (\<lambda>r s.
     case r of None \<Rightarrow> Ret None s
     | Some (dp, name) \<Rightarrow>
         obind (ilock dp s) (\<lambda>_ s.
         obind (dirlookup dp name s) (\<lambda>r s.
         case r of
           Some (ip, _) \<Rightarrow>
             obind (iunlockput dp s) (\<lambda>_ s.
             obind (ilock ip s) (\<lambda>_ s.
             if ty = T_FILE \<and> d_type (i_d (inodes s ip)) = T_FILE then Ret (Some ip) s
             else obind (iunlockput ip s) (\<lambda>_. Ret None)))
         | None \<Rightarrow> create_new dp name ty major minor s)))"

text \<open>The end of \<^verbatim>\<open>sys_open\<close>, for the locked inode \<open>ip\<close>.\<close>

definition open_inode :: "nat \<Rightarrow> u32 \<Rightarrow> 'a kernel_scheme \<Rightarrow> ('a kernel_scheme, int) outcome" where
  "open_inode ip omode s =
     obind (filealloc s) (\<lambda>r s.
     let bad = (\<lambda>f s. obind (case f of None \<Rightarrow> Ret () s | Some f \<Rightarrow> fileclose f s) (\<lambda>_ s.
                 obind (iunlockput ip s) (\<lambda>_ s. obind (end_op s) (\<lambda>_. Ret (- 1)))))
     in case r of None \<Rightarrow> bad None s
        | Some f \<Rightarrow>
            (case fdalloc f s of
               (None, s) \<Rightarrow> bad (Some f) s
             | (Some fd, s) \<Rightarrow>
                 obind (iunlock ip s) (\<lambda>_ s.
                 obind (end_op s) (\<lambda>_ s.
                 Ret (int fd) (upd_file f (\<lambda>x. x\<lparr>f_type := FD_INODE, f_ip := ip, f_off := 0, f_readable := (omode AND O_WRONLY = 0),
                   f_writable := (omode AND O_WRONLY \<noteq> 0 \<or> omode AND O_RDWR \<noteq> 0)\<rparr>) s)))))"

definition sys_open :: "'a kernel_scheme \<Rightarrow> ('a kernel_scheme, int) outcome" where
  "sys_open s =
     need (argstr 0 s) (\<lambda>path s. need (argint 1 s) (\<lambda>om s.
     let omode = of_int om
     in obind (begin_op s) (\<lambda>_ s.
        if omode AND O_CREATE \<noteq> 0
        then obind (create path T_FILE 0 0 s) (\<lambda>r s.
             case r of None \<Rightarrow> obind (end_op s) (\<lambda>_. Ret (- 1)) | Some ip \<Rightarrow> open_inode ip omode s)
        else
          obind (namei path s) (\<lambda>r s.
          case r of None \<Rightarrow> obind (end_op s) (\<lambda>_. Ret (- 1))
          | Some ip \<Rightarrow>
              obind (ilock ip s) (\<lambda>_ s.
              if d_type (i_d (inodes s ip)) = T_DIR \<and> omode \<noteq> O_RDONLY
              then obind (iunlockput ip s) (\<lambda>_ s. obind (end_op s) (\<lambda>_. Ret (- 1)))
              else open_inode ip omode s)))))"

text \<open>The common shape of \<^verbatim>\<open>sys_mkdir\<close>, \<^verbatim>\<open>sys_mknod\<close> and \<^verbatim>\<open>sys_chdir\<close>: inside the transaction, on failure end it and return -1.\<close>

definition in_op :: "('a kernel_scheme, 'b option) outcome \<Rightarrow> ('b \<Rightarrow> 'a kernel_scheme \<Rightarrow> ('a kernel_scheme, int) outcome) \<Rightarrow> ('a kernel_scheme, int) outcome" where
  "in_op m f = obind m (\<lambda>r s. case r of None \<Rightarrow> obind (end_op s) (\<lambda>_. Ret (- 1)) | Some x \<Rightarrow> f x s)"

definition sys_mkdir :: "'a kernel_scheme \<Rightarrow> ('a kernel_scheme, int) outcome" where
  "sys_mkdir s =
     obind (begin_op s) (\<lambda>_ s.
     in_op (argstr 0 s) (\<lambda>path s.
     in_op (create path T_DIR 0 0 s) (\<lambda>ip s.
     obind (iunlockput ip s) (\<lambda>_ s. obind (end_op s) (\<lambda>_. Ret 0)))))"

definition sys_mknod :: "'a kernel_scheme \<Rightarrow> ('a kernel_scheme, int) outcome" where
  "sys_mknod s =
     obind (begin_op s) (\<lambda>_ s.
     in_op (argstr 0 s) (\<lambda>path s.
     in_op (argint 1 s) (\<lambda>major s.
     in_op (argint 2 s) (\<lambda>minor s.
     in_op (create path T_DEV (of_int major) (of_int minor) s) (\<lambda>ip s.
     obind (iunlockput ip s) (\<lambda>_ s. obind (end_op s) (\<lambda>_. Ret 0)))))))"

definition sys_chdir :: "'a kernel_scheme \<Rightarrow> ('a kernel_scheme, int) outcome" where
  "sys_chdir s =
     obind (begin_op s) (\<lambda>_ s.
     in_op (argstr 0 s) (\<lambda>path s.
     in_op (namei path s) (\<lambda>ip s.
     obind (ilock ip s) (\<lambda>_ s.
     if d_type (i_d (inodes s ip)) \<noteq> T_DIR
     then obind (iunlockput ip s) (\<lambda>_ s. obind (end_op s) (\<lambda>_. Ret (- 1)))
     else
       obind (iunlock ip s) (\<lambda>_ s.
       obind (iput (the (p_cwd (cur s))) s) (\<lambda>_ s.
       obind (end_op s) (\<lambda>_ s.
       Ret 0 (upd_cur (\<lambda>p. p\<lparr>p_cwd := Some ip\<rparr>) s))))))))"

subsection \<open>exec and pipe\<close>

text \<open>Collecting the arguments of \<^verbatim>\<open>sys_exec\<close>: \<open>k\<close> places of the array are left, \<open>i\<close> is the index.\<close>

primrec sys_exec_args :: "nat \<Rightarrow> nat \<Rightarrow> u32 \<Rightarrow> 'a kernel_scheme \<Rightarrow> ('a kernel_scheme, u8 list list option) outcome" where
  "sys_exec_args 0 i uargv s = Ret None s"
| "sys_exec_args (Suc k) i uargv s =
     obind (fetchint (uargv + 4 * of_nat i) s) (\<lambda>r s.
     case r of None \<Rightarrow> Ret None s
     | Some uarg \<Rightarrow>
         if uarg = 0 then Ret (Some []) s
         else obind (fetchstr (of_int uarg) s) (\<lambda>r s.
           case r of None \<Rightarrow> Ret None s
           | Some a \<Rightarrow> obind (sys_exec_args k (i + 1) uargv s) (\<lambda>r. Ret (map_option ((#) a) r))))"

definition sys_exec :: "'a kernel_scheme \<Rightarrow> ('a kernel_scheme, int) outcome" where
  "sys_exec s =
     need (argstr 0 s) (\<lambda>path s. need (argint 1 s) (\<lambda>uargv s.
     need (sys_exec_args MAXARG 0 (of_int uargv) s) (\<lambda>argv s. exec path argv s)))"

definition sys_pipe :: "'a kernel_scheme \<Rightarrow> ('a kernel_scheme, int) outcome" where
  "sys_pipe s =
     need (argptr 0 8 s) (\<lambda>fd s.
     need (pipealloc s) (\<lambda>(rf, wf) s.
     let bad = (\<lambda>s. obind (fileclose rf s) (\<lambda>_ s. obind (fileclose wf s) (\<lambda>_. Ret (- 1))))
     in case fdalloc rf s of
          (None, s) \<Rightarrow> bad s
        | (Some fd0, s) \<Rightarrow>
            (case fdalloc wf s of
               (None, s) \<Rightarrow> bad (set_fd fd0 None s)
             | (Some fd1, s) \<Rightarrow>
                 (case uwrite fd (bytes32 (of_nat fd0) @ bytes32 (of_nat fd1)) s of
                    None \<Rightarrow> Panic ''trap'' | Some s \<Rightarrow> Ret 0 s))))"

subsection \<open>Dispatch (syscall.c)\<close>

definition syscalls :: "int \<Rightarrow> ('a kernel_scheme \<Rightarrow> ('a kernel_scheme, int) outcome) option" where
  "syscalls num =
     map_of [(1, sys_fork), (2, sys_exit), (3, sys_wait), (4, sys_pipe), (5, sys_read), (6, sys_kill), (7, sys_exec), (8, sys_fstat),
       (9, sys_chdir), (10, sys_dup), (11, sys_getpid), (12, sys_sbrk), (13, sys_sleep), (14, sys_uptime), (15, sys_open), (16, sys_write),
       (17, sys_mknod), (18, sys_unlink), (19, sys_link), (20, sys_mkdir), (21, sys_close), (22, sys_priority), (23, sys_policy),
       (24, sys_wait_stat)] num"

definition set_eax :: "int \<Rightarrow> 'a pstate_scheme \<Rightarrow> 'a pstate_scheme" where
  "set_eax r s = upd_cur (\<lambda>p. p\<lparr>p_tf := (p_tf p)\<lparr>tf_eax := of_int r\<rparr>\<rparr>) s"

definition syscall :: "'a kernel_scheme \<Rightarrow> ('a kernel_scheme, unit) outcome" where
  "syscall s =
     (let num = sint (tf_eax (p_tf (cur s)))
      in case syscalls num of
           Some f \<Rightarrow> obind (f s) (\<lambda>r s. Ret () (set_eax r s))
         | None \<Rightarrow>
             obind (cprintf (Some (str ''%d %s: unknown sys call %d'' @ [10]))
               [ANum (of_int (p_pid (cur s))), AStr (Some (cname (p_name (cur s)))), ANum (of_int num)] s) (\<lambda>_ s.
             Ret () (set_eax (- 1) s)))"

end
