(* ===== verification/Trap.thy ===== *)
theory Trap
  imports Sysfile
begin

text \<open>
  The trap handler (\<^verbatim>\<open>trap.c\<close>): system calls, the timer, the devices, and faults. What the devices and the
  processor deliver at an interrupt is the argument \<open>dev\<close>. When the process gives up the CPU the handler ends
  in \<open>Sleep\<close> and goes on with \<open>trap_resume\<close>.
\<close>

record device_input =
  di_pcs :: "proc \<Rightarrow> u32 list"     \<comment> \<open>the return addresses \<^verbatim>\<open>getcallerpcs\<close> finds on the stack of a process\<close>
  di_kbd :: "(u8 \<times> u8) list"      \<comment> \<open>readings of the keyboard ports\<close>
  di_com :: "(u8 \<times> u8) list"      \<comment> \<open>readings of the serial port\<close>
  di_cr2 :: u32

definition tvinit :: "'a pstate_scheme \<Rightarrow> 'a pstate_scheme" where
  "tvinit s = initlock TICKSLOCK ''time'' s"

definition timer_tick :: "'a kernel_scheme \<Rightarrow> ('a kernel_scheme, unit) outcome" where
  "timer_tick s =
     (if cpu_id s = 0
      then
        obind (acquire TICKSLOCK s) (\<lambda>_ s.
        obind (update_times (s\<lparr>ticks := ticks s + 1\<rparr>)) (\<lambda>_ s.
        obind (wakeup ChTicks s) (\<lambda>_. release TICKSLOCK)))
      else Ret () s)"

text \<open>The branch \<^verbatim>\<open>default\<close>: a fault in the kernel panics, one in user space kills the process.\<close>

definition trap_fault :: "device_input \<Rightarrow> trapframe \<Rightarrow> 'a kernel_scheme \<Rightarrow> ('a kernel_scheme, unit) outcome" where
  "trap_fault dev tf s =
     (if curproc s = None \<or> tf_cs tf AND 3 = 0
      then obind (cprintf (Some (str ''unexpected trap %d from cpu %d eip %x (cr2=0x%x)'' @ [10]))
             [ANum (tf_trapno tf), ANum (of_nat (cpu_id s)), ANum (tf_eip tf), ANum (di_cr2 dev)] s) (\<lambda>_ _. Panic ''trap'')
      else obind (cprintf (Some (str ''pid %d %s: trap %d err %d on cpu %d eip 0x%x addr 0x%x--kill proc'' @ [10]))
             [ANum (of_int (p_pid (cur s))), AStr (Some (cname (p_name (cur s)))), ANum (tf_trapno tf), ANum (tf_err tf),
              ANum (of_nat (cpu_id s)), ANum (tf_eip tf), ANum (di_cr2 dev)] s) (\<lambda>_ s.
           Ret () (upd_cur (\<lambda>p. p\<lparr>p_killed := True\<rparr>) s)))"

definition trap_switch :: "device_input \<Rightarrow> trapframe \<Rightarrow> 'a kernel_scheme \<Rightarrow> ('a kernel_scheme, unit) outcome" where
  "trap_switch dev tf s =
     (let no = tf_trapno tf
      in if no = 32 then timer_tick s
         else if no = 46 then Ret () s
         else if no = 47 then Ret () s
         else if no = 33 then obind (kbdintr (di_pcs dev) (di_kbd dev) (kbd_shift s) s) (\<lambda>sh s. Ret () (s\<lparr>kbd_shift := sh\<rparr>))
         else if no = 36 then uartintr (di_pcs dev) (di_com dev) s
         else if no = 39 \<or> no = 63
         then cprintf (Some (str ''cpu%d: spurious interrupt at %x:%x'' @ [10]))
                [ANum (of_nat (cpu_id s)), ANum (ucast (tf_cs tf)), ANum (tf_eip tf)] s
         else trap_fault dev tf s)"

definition exit_if_killed :: "bool \<Rightarrow> 'a kernel_scheme \<Rightarrow> ('a kernel_scheme, unit) outcome" where
  "exit_if_killed b s =
     (if b \<and> curproc s \<noteq> None \<and> p_killed (cur s) then obind (exit 0 s) (\<lambda>_. Ret ()) else Ret () s)"

definition trap :: "device_input \<Rightarrow> trapframe \<Rightarrow> 'a kernel_scheme \<Rightarrow> ('a kernel_scheme, unit) outcome" where
  "trap dev tf s =
     (if tf_trapno tf = 64
      then
        obind (exit_if_killed True s) (\<lambda>_ s.
        obind (syscall (upd_cur (\<lambda>p. p\<lparr>p_tf := tf\<rparr>) s)) (\<lambda>_. exit_if_killed True))
      else
        obind (trap_switch dev tf s) (\<lambda>_ s.
        obind (exit_if_killed (tf_cs tf AND 3 = 3) s) (\<lambda>_ s.
        obind (if curproc s \<noteq> None \<and> p_state (cur s) = RUNNING \<and> tf_trapno tf = 32 then yield s else Ret () s) (\<lambda>_.
        exit_if_killed (tf_cs tf AND 3 = 3)))))"

definition trap_resume :: "trapframe \<Rightarrow> 'a kernel_scheme \<Rightarrow> ('a kernel_scheme, unit) outcome" where
  "trap_resume tf s = obind (yield_resume s) (\<lambda>_. exit_if_killed (tf_cs tf AND 3 = 3))"

end
