(* ===== verification/Frame.thy ===== *)
theory Frame
  imports FileSys
begin

text \<open>
  What the file system, the pipes and everything below them leave alone: the descriptors of the processes,
  the current process, and all state that is declared above the file system. Stated for every outcome in
  which control comes back, by returning or by switching away.
\<close>

named_theorems frame

definition dead :: "proc \<Rightarrow> bool" where
  "dead p \<longleftrightarrow> p_state p = UNUSED \<or> p_state p = ZOMBIE"

text \<open>The part of a state in question, and that a state agrees with it; no process slot has become free or a zombie.\<close>

definition fc :: "'a fstate_scheme \<Rightarrow> nat option list list \<times> bool list \<times> nat option \<times> 'a" where
  "fc s = (map p_ofile (procs s), map dead (procs s), curproc s, fstate.more s)"

fun fok :: "nat option list list \<times> bool list \<times> nat option \<times> 'a \<Rightarrow> 'a fstate_scheme \<Rightarrow> bool" where
  "fok (os, ds, i, m) s \<longleftrightarrow> map p_ofile (procs s) = os \<and> list_all2 (\<longrightarrow>) (map dead (procs s)) ds \<and> curproc s = i \<and> fstate.more s = m"

declare fok.simps [simp del]

definition kp :: "nat option list list \<times> bool list \<times> nat option \<times> 'a \<Rightarrow> ('a fstate_scheme, 'b) outcome \<Rightarrow> bool" where
  "kp c m \<longleftrightarrow> osat (fok c) m"

lemma fok_fc [simp]: "fok (fc s) s"
  by (simp add: fc_def fok.simps list_all2_refl)

lemma kp_outcomes [simp, frame]: "kp c (Ret a s) \<longleftrightarrow> fok c s" "kp c (Sleep s) \<longleftrightarrow> fok c s" "kp c (Panic m)" "kp c Spin" "kp c Undef"
  by (simp_all add: kp_def)

lemma kp_obind [frame]: "kp c m \<Longrightarrow> (\<And>a s. fok c s \<Longrightarrow> kp c (f a s)) \<Longrightarrow> kp c (obind m f)"
  unfolding kp_def by (rule osat_obind)

lemma kp_if [frame]: "(b \<Longrightarrow> kp c m) \<Longrightarrow> (\<not> b \<Longrightarrow> kp c n) \<Longrightarrow> kp c (if b then m else n)"
  by simp

lemma kp_option [frame]: "(x = None \<Longrightarrow> kp c m) \<Longrightarrow> (\<And>y. x = Some y \<Longrightarrow> kp c (f y)) \<Longrightarrow> kp c (case x of None \<Rightarrow> m | Some y \<Rightarrow> f y)"
  by (cases x) simp_all

lemma kp_prod [frame]: "(\<And>x y. p = (x, y) \<Longrightarrow> kp c (f x y)) \<Longrightarrow> kp c (case p of (x, y) \<Rightarrow> f x y)"
  by (cases p) simp

lemma kp_Let [frame]: "kp c (f x) \<Longrightarrow> kp c (let y = x in f y)"
  by simp

text \<open>Updates of the state that do not matter.\<close>

lemma fok_simps [simp]:
  "fok c (s\<lparr>locks := x1\<rparr>) = fok c s" "fok c (s\<lparr>ncli := x2\<rparr>) = fok c s" "fok c (s\<lparr>intena := x3\<rparr>) = fok c s" "fok c (s\<lparr>fl_if := x3\<rparr>) = fok c s" "fok c (s\<lparr>cr3 := x5a\<rparr>) = fok c s" "fok c (s\<lparr>ts_esp0 := x5a\<rparr>) = fok c s" "fok c (s\<lparr>ticks := x5a\<rparr>) = fok c s"
 
  "fok c (s\<lparr>crt := x4\<rparr>) = fok c s" "fok c (s\<lparr>crt_pos := x5\<rparr>) = fok c s" "fok c (s\<lparr>uart_out := x6\<rparr>) = fok c s"
  "fok c (s\<lparr>mem := x7\<rparr>) = fok c s" "fok c (s\<lparr>freelist := x8\<rparr>) = fok c s" "fok c (s\<lparr>sleeplocks := x9\<rparr>) = fok c s" "fok c (s\<lparr>pipes := x10\<rparr>) = fok c s"
  "fok c (s\<lparr>bufs := x11\<rparr>) = fok c s" "fok c (s\<lparr>disk := x12\<rparr>) = fok c s" "fok c (s\<lparr>dhist := x13\<rparr>) = fok c s"
  "fok c (s\<lparr>lh_n := x14\<rparr>) = fok c s" "fok c (s\<lparr>lh_block := x15\<rparr>) = fok c s" "fok c (s\<lparr>log_outstanding := x16\<rparr>) = fok c s" "fok c (s\<lparr>log_committing := x17\<rparr>) = fok c s"
  "fok c (s\<lparr>fs_sb := x18\<rparr>) = fok c s" "fok c (s\<lparr>inodes := x19\<rparr>) = fok c s" "fok c (s\<lparr>log_start := x20\<rparr>) = fok c s" "fok c (s\<lparr>log_size := x21\<rparr>) = fok c s" "fok c (s\<lparr>log_dev := x20\<rparr>) = fok c s" "fok c (s\<lparr>in_r := x20\<rparr>) = fok c s"
  by (cases c, simp add: fok.simps)+

lemma fok_upd_proc:
  assumes "\<And>p. p_ofile (f p) = p_ofile p" "\<And>p. dead (f p) \<Longrightarrow> dead p" "fok c s"
  shows "fok c (upd_proc i f s)"
proof (cases c)
  case (fields os ds j m)
  have "map p_ofile ((procs s)[i := f (procs s ! i)]) = map p_ofile ((procs s)[i := procs s ! i])" by (simp only: map_update assms(1))
  moreover have "list_all2 (\<longrightarrow>) (map dead ((procs s)[i := f (procs s ! i)])) ds"
  proof -
    have l: "length (procs s) = length ds" "\<And>k. k < length ds \<Longrightarrow> dead (procs s ! k) \<Longrightarrow> ds ! k"
      using assms(3) by (auto simp: fields fok.simps list_all2_conv_all_nth)
    have "dead ((procs s)[i := f (procs s ! i)] ! k) \<Longrightarrow> dead (procs s ! k)" for k
      using assms(2) by (cases "k = i"; cases "i < length (procs s)") (auto simp: list_update_beyond)
    then show ?thesis using l by (simp add: list_all2_conv_all_nth)
  qed
  ultimately show ?thesis using assms(3) by (simp add: fields fok.simps upd_proc_def)
qed

subsection \<open>Locks, sleeping, the console and memory\<close>

lemma kp_acquire [frame]: "fok c s \<Longrightarrow> kp c (acquire lk s)"
  by (auto simp: acquire_def pushcli_def cli_def Let_def)

lemma kp_release [frame]: "fok c s \<Longrightarrow> kp c (release lk s)"
  by (auto simp: release_def popcli_def sti_def Let_def)

lemma kp_sched [frame]: "fok c s \<Longrightarrow> kp c (sched s)"
  by (auto simp: sched_def dead_def intro!: fok_upd_proc split: option.split)

lemma kp_sleep [frame]: "fok c s \<Longrightarrow> kp c (sleep ch lk s)"
  unfolding sleep_def by (auto simp: Let_def dead_def intro!: frame fok_upd_proc split: option.split)

lemma fok_wakeup1 [simp]: "fok c s \<Longrightarrow> fok c (wakeup1 ch s)"
proof (cases c)
  case (fields os ds j m)
  assume "fok c s"
  moreover have "map p_ofile (procs (wakeup1 ch s)) = map p_ofile (procs s)" by (simp add: wakeup1_def)
  ultimately show ?thesis unfolding fields fok.simps list_all2_conv_all_nth by (auto simp: wakeup1_def dead_def)
qed

lemma kp_wakeup [frame]: "fok c s \<Longrightarrow> kp c (wakeup ch s)"
  unfolding wakeup_def by (auto intro!: frame)

lemma kp_cgaputc [frame]: "fok c s \<Longrightarrow> kp c (cgaputc x s)"
  by (auto simp: cgaputc_def cga_place_def Let_def split: prod.split if_splits)

lemma fok_uartputc [simp]: "fok c (uartputc x s) = fok c s"
  by (simp add: uartputc_def)

lemma kp_consputc [frame]: "fok c s \<Longrightarrow> kp c (consputc x s)"
  by (auto simp: consputc_def Let_def intro!: frame)

lemma kp_consputs [frame]: "fok c s \<Longrightarrow> kp c (consputs xs s)"
  by (induction xs arbitrary: s) (auto intro!: frame)

lemma kp_printint [frame]: "fok c s \<Longrightarrow> kp c (printint x b sg s)"
  by (simp add: printint_def kp_consputs)

lemma kp_cprintf_loop [frame]: "fok c s \<Longrightarrow> kp c (cprintf_loop f args s)"
proof (induction f arbitrary: args s rule: length_induct)
  case (1 f)
  show ?case
  proof (cases f)
    case (Cons x cs)
    then have ih: "\<And>args s. fok c s \<Longrightarrow> kp c (cprintf_loop cs args s)" "\<And>args s. cs \<noteq> [] \<Longrightarrow> fok c s \<Longrightarrow> kp c (cprintf_loop (tl cs) args s)"
      using 1(1) by simp_all
    show ?thesis
      by (cases cs; cases args; cases "hd args")
        (use ih 1(2) Cons in \<open>auto intro!: kp_obind kp_consputc kp_consputs kp_printint split: option.split\<close>)
  qed (use 1(2) in simp)
qed

lemma kp_cprintf [frame]: "fok c s \<Longrightarrow> kp c (cprintf f args s)"
  unfolding cprintf_def by (auto simp: Let_def intro!: frame)

lemma kp_kalloc [frame]: "fok c s \<Longrightarrow> kp c (kalloc s)"
  unfolding kalloc_def by (auto simp: Let_def intro!: frame)

lemma kp_kfree [frame]: "fok c s \<Longrightarrow> kp c (kfree v s)"
  unfolding kfree_def by (auto simp: Let_def intro!: frame)

subsection \<open>Sleep locks, the buffer cache and the log\<close>

lemma kp_acquiresleep_loop [frame]: "fok c s \<Longrightarrow> kp c (acquiresleep_loop l s)"
  unfolding acquiresleep_loop_def by (auto simp: Let_def intro!: frame)

lemma kp_acquiresleep [frame]: "fok c s \<Longrightarrow> kp c (acquiresleep l s)"
  unfolding acquiresleep_def by (auto intro!: frame)

lemma kp_releasesleep [frame]: "fok c s \<Longrightarrow> kp c (releasesleep l s)"
  unfolding releasesleep_def by (auto simp: Let_def intro!: frame)

lemma kp_holdingsleep [frame]: "fok c s \<Longrightarrow> kp c (holdingsleep l s)"
  unfolding holdingsleep_def by (auto simp: Let_def intro!: frame)

lemma kp_iderw [frame]: "fok c s \<Longrightarrow> kp c (iderw b s)"
  unfolding iderw_def by (auto simp: Let_def upd_buf_def intro!: frame)


lemma fok_bufs [simp]: "fok c (upd_buf b f s) = fok c s" "fok c (set_data b d s) = fok c s" "fok c (pin_buf b s) = fok c s"
  by (simp_all add: upd_buf_def set_data_def pin_buf_def)

lemma kp_bget_take [frame]: "fok c s \<Longrightarrow> kp c (bget_take b f s)"
  unfolding bget_take_def by (auto simp: Let_def intro!: frame)

lemma kp_bget [frame]: "fok c s \<Longrightarrow> kp c (bget d n s)"
  unfolding bget_def by (auto simp: Let_def intro!: frame)

lemma kp_bread [frame]: "fok c s \<Longrightarrow> kp c (bread d n s)"
  unfolding bread_def by (auto simp: Let_def intro!: frame)

lemma kp_bwrite [frame]: "fok c s \<Longrightarrow> kp c (bwrite b s)"
  unfolding bwrite_def by (auto simp: Let_def intro!: frame)

lemma kp_brelse [frame]: "fok c s \<Longrightarrow> kp c (brelse b s)"
  unfolding brelse_def by (auto simp: Let_def intro!: frame)

lemma kp_readsb [frame]: "fok c s \<Longrightarrow> kp c (readsb d s)"
  unfolding readsb_def by (auto simp: Let_def intro!: frame)

lemma kp_install_step [frame]: "fok c s \<Longrightarrow> kp c (install_step i s)"
  unfolding install_step_def by (auto simp: Let_def intro!: frame)

lemma kp_install_loop [frame]: "fok c s \<Longrightarrow> kp c (install_loop ts s)"
  by (induction ts arbitrary: s) (auto simp: Let_def intro!: frame)

lemma kp_install_trans [frame]: "fok c s \<Longrightarrow> kp c (install_trans s)"
  unfolding install_trans_def by (auto simp: Let_def intro!: frame)

lemma kp_write_head [frame]: "fok c s \<Longrightarrow> kp c (write_head s)"
  unfolding write_head_def by (auto simp: Let_def intro!: frame)

lemma kp_write_log_step [frame]: "fok c s \<Longrightarrow> kp c (write_log_step i s)"
  unfolding write_log_step_def by (auto simp: Let_def intro!: frame)

lemma kp_write_log_loop [frame]: "fok c s \<Longrightarrow> kp c (write_log_loop ts s)"
  by (induction ts arbitrary: s) (auto simp: Let_def intro!: frame)

lemma kp_write_log [frame]: "fok c s \<Longrightarrow> kp c (write_log s)"
  unfolding write_log_def by (auto simp: Let_def intro!: frame)

lemma kp_commit [frame]: "fok c s \<Longrightarrow> kp c (commit s)"
  unfolding commit_def by (auto simp: Let_def intro!: frame)

lemma kp_begin_op_loop [frame]: "fok c s \<Longrightarrow> kp c (begin_op_loop s)"
  unfolding begin_op_loop_def by (auto simp: Let_def intro!: frame)

lemma kp_begin_op [frame]: "fok c s \<Longrightarrow> kp c (begin_op s)"
  unfolding begin_op_def by (auto simp: Let_def intro!: frame)

lemma kp_end_op [frame]: "fok c s \<Longrightarrow> kp c (end_op s)"
  unfolding end_op_def by (auto simp: Let_def intro!: frame)

lemma kp_log_write [frame]: "fok c s \<Longrightarrow> kp c (log_write b s)"
  unfolding log_write_def by (auto simp: Let_def intro!: frame)

subsection \<open>Inodes, directories and pipes\<close>

lemma fok_inodes [simp]: "fok c (upd_inode i f s) = fok c s" "fok c (upd_d i g s) = fok c s" "fok c (set_addr i j a s) = fok c s"
  by (simp_all add: upd_inode_def upd_d_def set_addr_def)

lemma kp_bzero [frame]: "fok c s \<Longrightarrow> kp c (bzero d n s)"
  unfolding bzero_def by (auto simp: Let_def intro!: frame)

lemma kp_balloc_loop [frame]: "fok c s \<Longrightarrow> kp c (balloc_loop d ts s)"
  by (induction ts arbitrary: s) (auto simp: Let_def intro!: frame)

lemma kp_balloc [frame]: "fok c s \<Longrightarrow> kp c (balloc d s)"
  unfolding balloc_def by (auto simp: Let_def intro!: frame)

lemma kp_bfree [frame]: "fok c s \<Longrightarrow> kp c (bfree d n s)"
  unfolding bfree_def by (auto simp: Let_def intro!: frame)

lemma kp_iget [frame]: "fok c s \<Longrightarrow> kp c (iget d n s)"
  unfolding iget_def by (auto simp: Let_def intro!: frame)

lemma kp_ialloc_loop [frame]: "fok c s \<Longrightarrow> kp c (ialloc_loop d ty ts s)"
  by (induction ts arbitrary: s) (auto simp: Let_def intro!: frame)

lemma kp_ialloc [frame]: "fok c s \<Longrightarrow> kp c (ialloc d ty s)"
  unfolding ialloc_def by (auto simp: Let_def intro!: frame)

lemma kp_iupdate [frame]: "fok c s \<Longrightarrow> kp c (iupdate ip s)"
  unfolding iupdate_def by (auto simp: Let_def intro!: frame)

lemma kp_idup [frame]: "fok c s \<Longrightarrow> kp c (idup ip s)"
  unfolding idup_def by (auto simp: Let_def intro!: frame)

lemma kp_ilock_read [frame]: "fok c s \<Longrightarrow> kp c (ilock_read ip s)"
  unfolding ilock_read_def by (auto simp: Let_def intro!: frame)

lemma kp_ilock [frame]: "fok c s \<Longrightarrow> kp c (ilock ip s)"
  unfolding ilock_def by (auto simp: Let_def intro!: frame)

lemma kp_iunlock [frame]: "fok c s \<Longrightarrow> kp c (iunlock ip s)"
  unfolding iunlock_def by (auto simp: Let_def intro!: frame)

lemma kp_bmap_slot [frame]: "fok c s \<Longrightarrow> kp c (bmap_slot ip i s)"
  unfolding bmap_slot_def by (auto simp: Let_def intro!: frame)

lemma kp_bmap_entry [frame]: "fok c s \<Longrightarrow> kp c (bmap_entry ip bn a s)"
  unfolding bmap_entry_def by (auto simp: Let_def intro!: frame)

lemma kp_bmap [frame]: "fok c s \<Longrightarrow> kp c (bmap ip bn s)"
  unfolding bmap_def by (auto simp: Let_def intro!: frame)

lemma kp_itrunc_direct [frame]: "fok c s \<Longrightarrow> kp c (itrunc_direct ip ts s)"
  by (induction ts arbitrary: s) (auto simp: Let_def intro!: frame)

lemma kp_itrunc_indirect [frame]: "fok c s \<Longrightarrow> kp c (itrunc_indirect ip b ts s)"
  by (induction ts arbitrary: s) (auto simp: Let_def intro!: frame)

lemma kp_itrunc [frame]: "fok c s \<Longrightarrow> kp c (itrunc ip s)"
  unfolding itrunc_def by (auto simp: Let_def intro!: frame)

lemma kp_iput [frame]: "fok c s \<Longrightarrow> kp c (iput ip s)"
  unfolding iput_def by (auto simp: Let_def intro!: frame)

lemma kp_iunlockput [frame]: "fok c s \<Longrightarrow> kp c (iunlockput ip s)"
  unfolding iunlockput_def by (auto simp: Let_def intro!: frame)

lemma fok_save_locals [simp]: "fok c s \<Longrightarrow> fok c (save_locals vs s)"
  unfolding save_locals_def by (rule fok_upd_proc) (simp_all add: dead_def)

lemma fok_uwrite: "uwrite a xs s = Some t \<Longrightarrow> fok c s \<Longrightarrow> fok c t"
  using uwrite_mem by fastforce

lemma fok_uwrite1: "uwrite1 a x s = Some t \<Longrightarrow> fok c s \<Longrightarrow> fok c t"
  by (auto simp: uwrite1_def split: option.splits)

lemma fok_copy_out: "copy_out dst off bs s = Some t \<Longrightarrow> fok c s \<Longrightarrow> fok c t"
  by (auto simp: copy_out_def dest: fok_uwrite split: dest.splits)

lemma kp_console_done [frame]: "fok c s \<Longrightarrow> kp c (console_done ip r s)"
  unfolding console_done_def by (auto simp: Let_def intro!: frame)

lemma kp_consoleread_loop [frame]: "fok c s \<Longrightarrow> kp c (consoleread_loop k ip dst target s)"
  by (induction k arbitrary: s) (auto simp: Let_def dest: fok_copy_out intro!: frame)

lemma kp_consoleread [frame]: "fok c s \<Longrightarrow> kp c (consoleread ip dst n s)"
  unfolding consoleread_def by (auto simp: Let_def intro!: frame)

lemma kp_consolewrite_loop [frame]: "fok c s \<Longrightarrow> kp c (consolewrite_loop bs s)"
  by (induction bs arbitrary: s) (auto simp: Let_def intro!: frame)

lemma kp_consolewrite [frame]: "fok c s \<Longrightarrow> kp c (consolewrite ip src n s)"
  unfolding consolewrite_def by (auto simp: Let_def intro!: frame)

lemma kp_readi_loop [frame]: "fok c s \<Longrightarrow> kp c (readi_loop ip dst off tot n s)"
proof (induction "n - tot" arbitrary: off tot s rule: less_induct)
  case less
  have "n - (tot + min (n - tot) (512 - off mod 512)) < n - tot" if "tot < n" using that mod_less_divisor [of 512 off] by linarith
  with less show ?case by (subst readi_loop.simps) (auto simp: Let_def dest: fok_copy_out intro!: frame)
qed

lemma kp_readi [frame]: "fok c s \<Longrightarrow> kp c (readi ip dst off n s)"
  unfolding readi_def by (auto simp: Let_def intro!: frame)

lemma kp_writei_loop [frame]: "fok c s \<Longrightarrow> kp c (writei_loop ip src off tot n s)"
proof (induction "n - tot" arbitrary: off tot s rule: less_induct)
  case less
  have "n - (tot + min (n - tot) (512 - off mod 512)) < n - tot" if "tot < n" using that mod_less_divisor [of 512 off] by linarith
  with less show ?case by (subst writei_loop.simps) (auto simp: Let_def intro!: frame)
qed

lemma kp_writei [frame]: "fok c s \<Longrightarrow> kp c (writei ip src off n s)"
  unfolding writei_def by (auto simp: Let_def intro!: frame)

lemma kp_dirlookup_loop [frame]: "fok c s \<Longrightarrow> kp c (dirlookup_loop dp nm ts s)"
  by (induction ts arbitrary: s) (auto simp: Let_def intro!: frame)

lemma kp_dirlookup [frame]: "fok c s \<Longrightarrow> kp c (dirlookup dp nm s)"
  unfolding dirlookup_def by (auto simp: Let_def intro!: frame)

lemma kp_dirlink_scan [frame]: "fok c s \<Longrightarrow> kp c (dirlink_scan dp ts s)"
  by (induction ts arbitrary: s) (auto simp: Let_def intro!: frame)

lemma kp_dirlink [frame]: "fok c s \<Longrightarrow> kp c (dirlink dp nm i s)"
  unfolding dirlink_def by (auto simp: Let_def intro!: frame)

lemma kp_namex_loop [frame]: "fok c s \<Longrightarrow> kp c (namex_loop ip path parent nm s)"
proof (induction "length path" arbitrary: ip path nm s rule: less_induct)
  case less
  then show ?case by (subst namex_loop.simps) (auto intro!: frame dest: skipelem_shorter)
qed

lemma kp_namex [frame]: "fok c s \<Longrightarrow> kp c (namex path p s)"
  unfolding namex_def by (auto simp: Let_def intro!: frame)

lemma kp_namei [frame]: "fok c s \<Longrightarrow> kp c (namei path s)"
  unfolding namei_def by (auto simp: Let_def intro!: frame)

lemma kp_nameiparent [frame]: "fok c s \<Longrightarrow> kp c (nameiparent path s)"
  unfolding nameiparent_def by (auto simp: Let_def intro!: frame)

lemma kp_pipeclose [frame]: "fok c s \<Longrightarrow> kp c (pipeclose p w s)"
  unfolding pipeclose_def by (auto simp: Let_def upd_pipe_def intro!: frame)

lemma kp_pipewrite_loop [frame]: "fok c s \<Longrightarrow> kp c (pipewrite_loop k p a n s)"
  by (induction k arbitrary: s) (auto simp: Let_def upd_pipe_def intro!: frame)

lemma kp_piperead_copy [frame]: "fok c s \<Longrightarrow> kp c (piperead_copy k p a i s)"
  by (induction k arbitrary: s i) (auto simp: Let_def upd_pipe_def dest: fok_uwrite1 intro!: frame)

lemma kp_pipewrite [frame]: "fok c s \<Longrightarrow> kp c (pipewrite p a n s)"
  unfolding pipewrite_def by (auto simp: Let_def intro!: frame)

lemma kp_piperead_loop [frame]: "fok c s \<Longrightarrow> kp c (piperead_loop p a n s)"
  unfolding piperead_loop_def by (auto simp: Let_def intro!: frame)

lemma kp_piperead [frame]: "fok c s \<Longrightarrow> kp c (piperead p a n s)"
  unfolding piperead_def by (auto simp: Let_def intro!: frame)

subsection \<open>Page tables\<close>

lemma unat_up: "\<not> b \<le> a \<Longrightarrow> 4294967296 - unat b < 4294967296 - unat (a :: u32)"
  by (simp add: word_le_nat_alt diff_less_mono2)

lemma kp_walkpgdir [frame]: "fok c s \<Longrightarrow> kp c (walkpgdir d va al s)"
  unfolding walkpgdir_def by (auto simp: Let_def intro!: frame)

lemma kp_mappages_loop [frame]: "fok c s \<Longrightarrow> kp c (mappages_loop n d a l pa p s)"
  by (induction n arbitrary: a pa s) (auto simp: Let_def intro!: frame)

lemma kp_mappages [frame]: "fok c s \<Longrightarrow> kp c (mappages d va sz pa p s)"
  unfolding mappages_def by (auto simp: Let_def intro!: frame)

lemma kp_setupkvm_loop [frame]: "fok c s \<Longrightarrow> kp c (setupkvm_loop d ks s)"
  by (induction ks arbitrary: s) (auto simp: Let_def intro!: frame)

lemma kp_setupkvm [frame]: "fok c s \<Longrightarrow> kp c (setupkvm s)"
  unfolding setupkvm_def by (auto simp: Let_def intro!: frame)

lemma kp_deallocuvm_step [frame]: "fok c s \<Longrightarrow> kp c (deallocuvm_step d a s)"
  unfolding deallocuvm_step_def by (auto simp: Let_def intro!: frame)

lemma kp_deallocuvm_loop [frame]: "fok c s \<Longrightarrow> kp c (deallocuvm_loop d a sz s)"
proof (induction "4294967296 - unat a" arbitrary: a s rule: less_induct)
  case less
  then show ?case by (subst deallocuvm_loop.simps) (auto intro!: frame dest: unat_up)
qed

lemma kp_deallocuvm [frame]: "fok c s \<Longrightarrow> kp c (deallocuvm d a b s)"
  unfolding deallocuvm_def by (auto simp: Let_def intro!: frame)

lemma kp_allocuvm_step [frame]: "fok c s \<Longrightarrow> kp c (allocuvm_step d a x y s)"
  unfolding allocuvm_step_def by (auto simp: Let_def intro!: frame)

lemma kp_allocuvm_loop [frame]: "fok c s \<Longrightarrow> kp c (allocuvm_loop d a x y s)"
proof (induction "4294967296 - unat a" arbitrary: a s rule: less_induct)
  case less
  then show ?case by (subst allocuvm_loop.simps) (auto intro!: frame dest: unat_up)
qed

lemma kp_allocuvm [frame]: "fok c s \<Longrightarrow> kp c (allocuvm d a b s)"
  unfolding allocuvm_def by (auto simp: Let_def intro!: frame)

lemma kp_freevm_loop [frame]: "fok c s \<Longrightarrow> kp c (freevm_loop d ks s)"
  by (induction ks arbitrary: s) (auto simp: Let_def intro!: frame)

lemma kp_freevm [frame]: "fok c s \<Longrightarrow> kp c (freevm d s)"
  unfolding freevm_def by (auto simp: Let_def intro!: frame)

lemma kp_clearpteu [frame]: "fok c s \<Longrightarrow> kp c (clearpteu d va s)"
  unfolding clearpteu_def by (auto simp: Let_def intro!: frame)

lemma kp_copyuvm_step [frame]: "fok c s \<Longrightarrow> kp c (copyuvm_step d e i s)"
  unfolding copyuvm_step_def by (auto simp: Let_def intro!: frame)

lemma kp_copyuvm_loop [frame]: "fok c s \<Longrightarrow> kp c (copyuvm_loop d e i sz s)"
proof (induction "4294967296 - unat i" arbitrary: i s rule: less_induct)
  case less
  then show ?case by (subst copyuvm_loop.simps) (auto intro!: frame dest: unat_up)
qed

lemma kp_copyuvm [frame]: "fok c s \<Longrightarrow> kp c (copyuvm d sz s)"
  unfolding copyuvm_def by (auto simp: Let_def intro!: frame)

lemma kp_uva2ka [frame]: "fok c s \<Longrightarrow> kp c (uva2ka d va s)"
  unfolding uva2ka_def by (auto simp: Let_def intro!: frame)

lemma kp_inituvm [frame]: "fok c s \<Longrightarrow> kp c (inituvm d a sz s)"
  unfolding inituvm_def by (auto simp: Let_def intro!: frame)

lemma kp_switchuvm [frame]: "fok c s \<Longrightarrow> kp c (switchuvm i s)"
  by (auto simp: switchuvm_def popcli_def pushcli_def cli_def sti_def Let_def)

end
