(* ===== verification/CallFrame.thy ===== *)
theory CallFrame
  imports Trap Frame
begin

text \<open>
  The frame of \<open>Frame\<close> for what is built on top of the file system: argument fetching, program loading,
  the scheduling and waiting calls, and the system calls that leave the descriptors alone.
\<close>

subsection \<open>Arguments and calls that do not touch descriptors\<close>

lemma fok_upd_cur: "(\<And>p. p_ofile (f p) = p_ofile p) \<Longrightarrow> (\<And>p. dead (f p) \<Longrightarrow> dead p) \<Longrightarrow> fok c s \<Longrightarrow> fok c (upd_cur f s)"
  unfolding upd_cur_def by (rule fok_upd_proc)

lemma kp_need [frame]: "kp c m \<Longrightarrow> (\<And>x s. fok c s \<Longrightarrow> kp c (f x s)) \<Longrightarrow> kp c (need m f)"
  unfolding need_def by (auto intro!: frame)

lemma kp_in_op [frame]: "kp c m \<Longrightarrow> (\<And>x s. fok c s \<Longrightarrow> kp c (f x s)) \<Longrightarrow> kp c (in_op m f)"
  unfolding in_op_def by (auto intro!: frame)

lemma kp_fetchint [frame]: "fok c s \<Longrightarrow> kp c (fetchint a s)"
  by (auto simp: fetchint_def split: option.split)

lemma kp_fetchstr_loop [frame]: "fok c s \<Longrightarrow> kp c (fetchstr_loop k a s)"
  by (induction k arbitrary: a s) (auto intro!: frame split: option.split)

lemma kp_fetchstr [frame]: "fok c s \<Longrightarrow> kp c (fetchstr a s)"
  by (auto simp: fetchstr_def intro!: frame)

lemma kp_argint [frame]: "fok c s \<Longrightarrow> kp c (argint n s)"
  by (auto simp: argint_def intro!: frame)

lemma kp_argptr [frame]: "fok c s \<Longrightarrow> kp c (argptr n siz s)"
  by (auto simp: argptr_def intro!: frame)

lemma kp_argstr [frame]: "fok c s \<Longrightarrow> kp c (argstr n s)"
  by (auto simp: argstr_def intro!: frame)

lemma kp_argfd [frame]: "fok c s \<Longrightarrow> kp c (argfd n s)"
  by (auto simp: argfd_def intro!: frame)

lemma kp_growproc [frame]: "fok c s \<Longrightarrow> kp c (growproc n s)"
  unfolding growproc_def by (auto simp: dead_def Let_def intro!: frame fok_upd_cur)

lemma fok_policy_simps [simp]: "fok c (s\<lparr>npolicy := x\<rparr>) = fok c s" "fok c (s\<lparr>nextpid := y\<rparr>) = fok c s"
  by (cases c, simp add: fok.simps)+

lemma fok_map_procs:
  assumes "\<And>p. p_ofile (f p) = p_ofile p" "\<And>p. dead (f p) = dead p" "fok c s"
  shows "fok c (s\<lparr>procs := map f (procs s)\<rparr>)"
  using assms by (cases c) (simp add: fok.simps comp_def)

lemma kp_kill [frame]: "fok c s \<Longrightarrow> kp c (kill pid s)"
  unfolding kill_def by (auto simp: dead_def Let_def intro!: frame fok_upd_proc)

lemma kp_set_priority [frame]: "fok c s \<Longrightarrow> kp c (set_priority pr s)"
  unfolding set_priority_def by (auto simp: dead_def intro!: frame fok_upd_proc)

lemma kp_sys_sleep_loop [frame]: "fok c s \<Longrightarrow> kp c (sys_sleep_loop n t s)"
  unfolding sys_sleep_loop_def by (auto intro!: frame)

lemma kp_read_struct [frame]: "fok c s \<Longrightarrow> kp c (read_struct ip off n s)"
  unfolding read_struct_def by (auto intro!: frame)

lemma kp_loaduvm_loop [frame]: "fok c s \<Longrightarrow> kp c (loaduvm_loop d a ip off i sz s)"
proof (induction "4294967296 - unat i" arbitrary: i s rule: less_induct)
  case less
  have "kp c (loaduvm_loop d a ip off (i + PGSIZE) sz t)" if "fok c t" "\<not> i + PGSIZE \<le> i" for t
    using that by (intro less.hyps) (auto simp: word_le_nat_alt not_le intro!: diff_less_mono2)
  then show ?case by (subst loaduvm_loop.simps) (use less.prems in \<open>auto simp: Let_def intro!: frame\<close>)
qed

lemma kp_loaduvm [frame]: "fok c s \<Longrightarrow> kp c (loaduvm d a ip off sz s)"
  unfolding loaduvm_def by (auto intro!: frame)

lemma kp_exec_load [frame]: "fok c s \<Longrightarrow> kp c (exec_load k ip d off sz s)"
  by (induction k arbitrary: off sz s) (auto simp: Let_def intro!: frame)

lemma kp_copyout_bytes [frame]: "fok c s \<Longrightarrow> kp c (copyout_bytes d va bs s)"
proof (induction bs arbitrary: va s rule: length_induct)
  case (1 bs)
  have "kp c (copyout_bytes d a (drop (min (4096 - unat (va - PGROUNDDOWN va)) (length bs)) bs) t)" if "fok c t" "bs \<noteq> []" for a t
  proof -
    have "unat va mod 4096 < 4096" by simp
    then have "length (drop (min (4096 - unat (va - PGROUNDDOWN va)) (length bs)) bs) < length bs" using that(2) by (simp add: unat_sub_PGROUNDDOWN)
    then show ?thesis using 1 that(1) by blast
  qed
  then show ?case by (subst copyout_bytes.simps) (use "1.prems" in \<open>auto simp: Let_def intro!: frame\<close>)
qed

lemma kp_exec_args [frame]: "fok c s \<Longrightarrow> kp c (exec_args as argc d sp us s)"
  by (induction as arbitrary: argc sp us s) (auto simp: Let_def intro!: frame)

lemma kp_exec_bad [frame]: "fok c s \<Longrightarrow> kp c (exec_bad d ip s)"
  unfolding exec_bad_def by (auto intro!: frame)

lemma kp_exec_commit [frame]: "fok c s \<Longrightarrow> kp c (exec_commit path d sz m sp s)"
  unfolding exec_commit_def by (auto simp: Let_def dead_def intro!: frame fok_upd_cur)

lemma kp_exec_stack [frame]: "fok c s \<Longrightarrow> kp c (exec_stack path argv e d sz s)"
  unfolding exec_stack_def by (auto simp: Let_def intro!: frame)

lemma kp_exec [frame]: "fok c s \<Longrightarrow> kp c (exec path argv s)"
  unfolding exec_def by (auto simp: Let_def intro!: frame)

lemma kp_sys_exec_args [frame]: "fok c s \<Longrightarrow> kp c (sys_exec_args k i u s)"
  by (induction k arbitrary: i s) (auto intro!: frame)

lemma kp_isdirempty_loop [frame]: "fok c s \<Longrightarrow> kp c (isdirempty_loop dp offs s)"
  by (induction offs arbitrary: s) (auto intro!: frame)

lemma kp_isdirempty [frame]: "fok c s \<Longrightarrow> kp c (isdirempty dp s)"
  unfolding isdirempty_def by (auto intro!: frame)

lemma kp_unlink_entry [frame]: "fok c s \<Longrightarrow> kp c (unlink_entry dp ip off s)"
  unfolding unlink_entry_def by (auto intro!: frame)

lemma kp_create_new [frame]: "fok c s \<Longrightarrow> kp c (create_new dp nm ty mj mn s)"
  unfolding create_new_def by (auto intro!: frame)

lemma kp_create [frame]: "fok c s \<Longrightarrow> kp c (create path ty mj mn s)"
  unfolding create_def by (auto intro!: frame)

lemma kp_sys_links [frame]: "fok c s \<Longrightarrow> kp c (sys_link_bad ip s)" "fok c s \<Longrightarrow> kp c (sys_unlink_bad dp s)"
  unfolding sys_link_bad_def sys_unlink_bad_def by (auto intro!: frame)

lemma kp_set_eax: "fok c s \<Longrightarrow> fok c (set_eax r s)"
  unfolding set_eax_def by (auto simp: dead_def intro!: fok_upd_cur)

text \<open>A zombie that is reaped was dead before.\<close>

lemma fok_upd_dead:
  assumes "fok c s" "\<And>p. p_ofile (f p) = p_ofile p" "dead (procs t ! i)" "i < length (procs t)" "c = fc t"
  shows "fok c (upd_proc i f s)"
proof -
  have "map p_ofile ((procs s)[i := f (procs s ! i)]) = map p_ofile ((procs s)[i := procs s ! i])" by (simp only: map_update assms(2))
  then show ?thesis
    using assms(1,3,4) unfolding assms(5) fc_def fok.simps upd_proc_def by (auto simp: list_all2_conv_all_nth nth_list_update)
qed

lemma kp_reap:
  assumes "fok c s" "dead (procs t ! i)" "i < length (procs t)" "c = fc t"
  shows "kp c (reap i status s)"
proof -
  have W: "fok c u" if "(if status \<noteq> 0 then uwrite status bs v else Some v) = Some u" "fok c v" for u v :: "'a kernel_scheme" and bs
    using that by (auto split: if_splits intro: fok_uwrite)
  show ?thesis
    unfolding reap_def Let_def
    by (auto simp: assms(1) simp del: if_split intro!: frame fok_upd_dead [OF _ _ assms(2-4)]) (erule W, rule fok_upd_dead [OF _ _ assms(2-4)], simp_all)
qed

lemma kp_wait_scan:
  assumes "\<And>i t. dead (procs t ! i) \<Longrightarrow> i < length (procs t) \<Longrightarrow> kp (fc t) (found i t)"
  shows "kp (fc s) (wait_scan found s)"
  unfolding wait_scan_def by (auto intro!: frame assms simp: dead_def dest!: find_idx_SomeD)

text \<open>A part of the agreement is enough to go on from.\<close>

lemma fok_trans: "fok c s \<Longrightarrow> fok (fc s) t \<Longrightarrow> fok c t"
  by (cases c) (fastforce simp: fok.simps fc_def list_all2_conv_all_nth)

lemma kp_trans: "fok c s \<Longrightarrow> kp (fc s) m \<Longrightarrow> kp c m"
  by (cases m) (auto simp: kp_def intro: fok_trans)

lemma kp_reap_stat: "dead (procs s ! i) \<Longrightarrow> i < length (procs s) \<Longrightarrow> kp (fc s) (reap_stat i status perf s)"
  unfolding reap_stat_def by (auto split: option.split intro!: kp_reap [OF fok_uwrite [OF _ fok_fc] _ _ refl])

lemma kp_wait [frame]: "fok c s \<Longrightarrow> kp c (wait status s)"
  unfolding wait_def by (auto intro!: frame kp_reap [OF fok_fc _ _ refl] kp_trans [OF _ kp_wait_scan])

lemma kp_wait_stat [frame]: "fok c s \<Longrightarrow> kp c (wait_stat status perf s)"
  unfolding wait_stat_def by (auto intro!: frame kp_reap_stat kp_trans [OF _ kp_wait_scan])

lemma fok_policy:
  assumes "map p_ofile ps = map p_ofile (procs s)" "map dead ps = map dead (procs s)" "fok c s"
  shows "fok c (s\<lparr>procs := ps\<rparr>)"
  using assms by (cases c) (simp add: fok.simps)

lemma policy_loops:
  "map p_ofile (snd (uniform_loop ps n)) = map p_ofile ps" "map dead (snd (uniform_loop ps n)) = map dead ps"
  "map p_ofile (snd (priority_loop ps n)) = map p_ofile ps" "map dead (snd (priority_loop ps n)) = map dead ps"
  "map p_ofile (snd (dynamic_loop ps n)) = map p_ofile ps" "map dead (snd (dynamic_loop ps n)) = map dead ps"
  by (induction ps arbitrary: n) (simp_all add: Let_def dead_def split_def)

lemma kp_policy [frame]: "fok c s \<Longrightarrow> kp c (policy pl s)"
  unfolding policy_def policies_def
  by (auto simp: Let_def uniform_time_dist_def priority_scheduling_def dynamic_tickets_allc_def policy_loops split_def intro!: fok_policy)

lemma kp_sys_wait [frame]: "fok c s \<Longrightarrow> kp c (sys_wait s)"
  unfolding sys_wait_def by (auto simp: Let_def dead_def intro!: frame fok_upd_cur)

lemma kp_sys_kill [frame]: "fok c s \<Longrightarrow> kp c (sys_kill s)"
  unfolding sys_kill_def by (auto simp: Let_def dead_def intro!: frame fok_upd_cur)

lemma kp_sys_exec [frame]: "fok c s \<Longrightarrow> kp c (sys_exec s)"
  unfolding sys_exec_def by (auto simp: Let_def dead_def intro!: frame fok_upd_cur)

lemma kp_sys_chdir [frame]: "fok c s \<Longrightarrow> kp c (sys_chdir s)"
  unfolding sys_chdir_def by (auto simp: Let_def dead_def intro!: frame fok_upd_cur)

lemma kp_sys_getpid [frame]: "fok c s \<Longrightarrow> kp c (sys_getpid s)"
  unfolding sys_getpid_def by (auto simp: Let_def dead_def intro!: frame fok_upd_cur)

lemma kp_sys_sbrk [frame]: "fok c s \<Longrightarrow> kp c (sys_sbrk s)"
  unfolding sys_sbrk_def by (auto simp: Let_def dead_def intro!: frame fok_upd_cur)

lemma kp_sys_sleep [frame]: "fok c s \<Longrightarrow> kp c (sys_sleep s)"
  unfolding sys_sleep_def by (auto simp: Let_def dead_def intro!: frame fok_upd_cur)

lemma kp_sys_uptime [frame]: "fok c s \<Longrightarrow> kp c (sys_uptime s)"
  unfolding sys_uptime_def by (auto simp: Let_def dead_def intro!: frame fok_upd_cur)

lemma kp_sys_mknod [frame]: "fok c s \<Longrightarrow> kp c (sys_mknod s)"
  unfolding sys_mknod_def by (auto simp: Let_def dead_def intro!: frame fok_upd_cur)

lemma kp_sys_unlink [frame]: "fok c s \<Longrightarrow> kp c (sys_unlink s)"
  unfolding sys_unlink_def by (auto simp: Let_def dead_def intro!: frame fok_upd_cur)

lemma kp_sys_link [frame]: "fok c s \<Longrightarrow> kp c (sys_link s)"
  unfolding sys_link_def by (auto simp: Let_def dead_def intro!: frame fok_upd_cur)

lemma kp_sys_mkdir [frame]: "fok c s \<Longrightarrow> kp c (sys_mkdir s)"
  unfolding sys_mkdir_def by (auto simp: Let_def dead_def intro!: frame fok_upd_cur)

lemma kp_sys_priority [frame]: "fok c s \<Longrightarrow> kp c (sys_priority s)"
  unfolding sys_priority_def by (auto simp: Let_def dead_def intro!: frame fok_upd_cur)

lemma kp_sys_policy [frame]: "fok c s \<Longrightarrow> kp c (sys_policy s)"
  unfolding sys_policy_def by (auto simp: Let_def dead_def intro!: frame fok_upd_cur)

lemma kp_sys_wait_stat [frame]: "fok c s \<Longrightarrow> kp c (sys_wait_stat s)"
  unfolding sys_wait_stat_def by (auto simp: Let_def dead_def intro!: frame fok_upd_cur)

end
