(* ===== verification/FileRefs.thy ===== *)
theory FileRefs
  imports CallFrame
begin

text \<open>
  The reference counts of the open file table: at every return from a system call the count of each entry is
  the number of descriptors that refer to it. Inside a call the counts are off by what the call holds
  itself; the invariant takes that difference as an argument.
\<close>

subsection \<open>Results of calls that return\<close>

definition oret :: "('a \<Rightarrow> 's \<Rightarrow> bool) \<Rightarrow> ('s, 'a) outcome \<Rightarrow> bool" where
  "oret Q m \<longleftrightarrow> (\<forall>a t. m = Ret a t \<longrightarrow> Q a t)"

named_theorems refs_intro

lemma oret_outcomes [simp]: "oret Q (Ret a s) \<longleftrightarrow> Q a s" "oret Q (Panic m)" "oret Q (Sleep s)" "oret Q Spin" "oret Q Undef"
  by (simp_all add: oret_def)

lemma oret_obind [refs_intro]: "oret P m \<Longrightarrow> (\<And>a s. P a s \<Longrightarrow> oret Q (f a s)) \<Longrightarrow> oret Q (obind m f)"
  by (auto simp: oret_def obind_eq_Ret_iff)

lemma oret_if [refs_intro]: "(b \<Longrightarrow> oret Q m) \<Longrightarrow> (\<not> b \<Longrightarrow> oret Q n) \<Longrightarrow> oret Q (if b then m else n)"
  by simp

lemma oret_option [refs_intro]: "(x = None \<Longrightarrow> oret Q m) \<Longrightarrow> (\<And>y. x = Some y \<Longrightarrow> oret Q (f y)) \<Longrightarrow> oret Q (case x of None \<Rightarrow> m | Some y \<Rightarrow> f y)"
  by (cases x) simp_all

lemma oret_prod [refs_intro]: "(\<And>x y. p = (x, y) \<Longrightarrow> oret Q (f x y)) \<Longrightarrow> oret Q (case p of (x, y) \<Rightarrow> f x y)"
  by (cases p) simp

lemma oret_Let [refs_intro]: "oret Q (f x) \<Longrightarrow> oret Q (let y = x in f y)"
  by simp

lemma oret_mono: "oret P m \<Longrightarrow> (\<And>a t. P a t \<Longrightarrow> Q a t) \<Longrightarrow> oret Q m"
  by (auto simp: oret_def)

subsection \<open>The invariant\<close>

definition refs :: "nat option list list \<Rightarrow> nat \<Rightarrow> int" where
  "refs os f = int (sum_list (map (\<lambda>xs. count_list xs (Some f)) os))"

definition ft_inv :: "(nat \<Rightarrow> int) \<Rightarrow> 'a kernel_scheme \<Rightarrow> bool" where
  "ft_inv e s \<longleftrightarrow>
     (\<forall>f < NFILE. f_ref (ftable s f) = refs (map p_ofile (procs s)) f + e f \<and> (f_ref (ftable s f) = 0 \<longrightarrow> f_type (ftable s f) = FD_NONE)) \<and>
     (\<forall>p \<in> set (procs s). length (p_ofile p) = NOFILE \<and> (\<forall>f. Some f \<in> set (p_ofile p) \<longrightarrow> f < NFILE) \<and>
        (dead p \<longrightarrow> p_ofile p = replicate NOFILE None)) \<and>
     (\<exists>i < length (procs s). curproc s = Some i \<and> \<not> dead (procs s ! i))"

lemma ft_inv_fok:
  assumes "ft_inv e s" "fok (fc s) t"
  shows "ft_inv e t"
proof -
  have t: "map p_ofile (procs t) = map p_ofile (procs s)" "curproc t = curproc s" "fstate.more t = fstate.more s"
    and d: "list_all2 (\<longrightarrow>) (map dead (procs t)) (map dead (procs s))"
    using assms(2) by (auto simp: fc_def fok.simps)
  have ft: "ftable t = ftable s" using t(3) by (cases s; cases t) simp
  have l: "length (procs t) = length (procs s)" using t(1) by (metis length_map)
  have n: "p_ofile (procs t ! i) = p_ofile (procs s ! i)" "dead (procs t ! i) \<Longrightarrow> dead (procs s ! i)" if "i < length (procs s)" for i
    using that l t(1) d by (metis nth_map, auto simp: list_all2_conv_all_nth)
  show ?thesis
    using assms(1) n unfolding ft_inv_def ft t(1,2) all_set_conv_all_nth l by (simp add: all_set_conv_all_nth) blast
qed

lemma oret_kp: "ft_inv e s \<Longrightarrow> kp (fc s) m \<Longrightarrow> oret (\<lambda>_. ft_inv e) m"
  using ft_inv_fok by (cases m) (auto simp: oret_def)

subsection \<open>Changes of a count and of a descriptor\<close>

definition one :: "nat option \<Rightarrow> nat \<Rightarrow> int" where
  "one x f = (if x = Some f then 1 else 0)"

lemma one_simps [simp]: "one None f = 0" "one (Some g) f = (if g = f then 1 else 0)"
  by (simp_all add: one_def)

lemma ft_inv_cong: "ft_inv e s \<Longrightarrow> (\<And>f. f < NFILE \<Longrightarrow> e' f = e f) \<Longrightarrow> ft_inv e' s"
  by (simp add: ft_inv_def)

lemma ft_inv_upd_file:
  assumes "ft_inv e s" "f_ref (g (ftable s f)) = f_ref (ftable s f) + d" "f < NFILE \<Longrightarrow> f_ref (g (ftable s f)) = 0 \<Longrightarrow> f_type (g (ftable s f)) = FD_NONE"
  shows "ft_inv (\<lambda>h. e h + d * one (Some f) h) (upd_file f g s)"
  using assms by (auto simp: ft_inv_def upd_file_def)

lemma count_list_update:
  "j < length xs \<Longrightarrow> count_list (xs[j := y]) x + (if xs ! j = x then 1 else 0) = count_list xs x + (if y = x then 1 else 0)"
proof (induction xs arbitrary: j)
  case (Cons a xs)
  show ?case
  proof (cases j)
    case (Suc k)
    with Cons.IH [of k] Cons.prems show ?thesis by (cases "a = x") (simp_all del: One_nat_def)
  qed simp
qed simp

lemma refs_update:
  assumes "i < length os" "j < length (os ! i)"
  shows "refs (os[i := (os ! i)[j := y]]) f = refs os f - one (os ! i ! j) f + one y f"
proof -
  have "int (sum_list (map (\<lambda>xs. count_list xs (Some f)) (os[i := xs]))) + int (count_list (os ! i) (Some f)) =
      int (sum_list (map (\<lambda>xs. count_list xs (Some f)) os)) + int (count_list xs (Some f))" for xs
    using assms(1) by (induction os arbitrary: i) (auto split: nat.split)
  from this [of "(os ! i)[j := y]"] show ?thesis
    using count_list_update [OF assms(2), of y "Some f"] by (auto simp: refs_def one_def split: if_splits)
qed

lemma ft_inv_set_ofile:
  assumes "ft_inv e s" "i < length (procs s)" "j < NOFILE" "\<And>f. y = Some f \<Longrightarrow> f < NFILE \<and> \<not> dead (procs s ! i)"
  defines "t \<equiv> upd_proc i (\<lambda>p. p\<lparr>p_ofile := (p_ofile p)[j := y]\<rparr>) s"
  shows "ft_inv (\<lambda>f. e f + one (p_ofile (procs s ! i) ! j) f - one y f) t"
proof -
  let ?p = "procs s ! i"
  let ?q = "?p\<lparr>p_ofile := (p_ofile ?p)[j := y]\<rparr>"
  have p: "length (p_ofile ?p) = NOFILE" "\<And>f. Some f \<in> set (p_ofile ?p) \<Longrightarrow> f < NFILE" "dead ?p \<Longrightarrow> p_ofile ?p = replicate NOFILE None"
    using assms(1,2) by (auto simp: ft_inv_def)
  have t: "procs t = (procs s)[i := ?q]" "ftable t = ftable s" "curproc t = curproc s" by (simp_all add: t_def upd_proc_def)
  have "refs (map p_ofile (procs t)) f = refs (map p_ofile (procs s)) f - one (p_ofile ?p ! j) f + one y f" for f
    using refs_update [of i "map p_ofile (procs s)" j y f] assms(2,3) p(1) by (simp add: t(1) map_update)
  moreover have "length (p_ofile ?q) = NOFILE" "Some f \<in> set (p_ofile ?q) \<Longrightarrow> f < NFILE" "dead ?q \<Longrightarrow> p_ofile ?q = replicate NOFILE None" for f
  proof -
    show "length (p_ofile ?q) = NOFILE" using p(1) by simp
    show "f < NFILE" if "Some f \<in> set (p_ofile ?q)"
      using that p(2) assms(4) by (auto dest!: set_update_subset_insert [THEN subsetD])
    show "p_ofile ?q = replicate NOFILE None" if "dead ?q"
    proof -
      have "dead ?p" using that by (simp add: dead_def)
      then have "y = None" "p_ofile ?p = replicate NOFILE None" using assms(4) p(3) by (cases y; auto)+
      then show ?thesis using assms(3) by (simp add: list_update_same_conv)
    qed
  qed
  moreover have "set (procs t) \<subseteq> insert ?q (set (procs s))" unfolding t(1) by (rule set_update_subset_insert)
  ultimately show ?thesis
    using assms(1,2) unfolding ft_inv_def t(2,3) by (auto simp: t(1) nth_list_update dead_def)
qed

subsection \<open>The operations on the table\<close>

lemmas kp_low = kp_acquire kp_release kp_sleep kp_wakeup kp_sched kp_cprintf kp_kalloc kp_kfree kp_begin_op kp_end_op kp_iput kp_iunlockput kp_ilock kp_iunlock
  kp_iupdate kp_ialloc kp_idup kp_readi kp_writei kp_dirlookup kp_dirlink kp_namei kp_nameiparent kp_pipeclose kp_pipewrite kp_piperead
  kp_copyuvm kp_freevm kp_setupkvm kp_allocuvm kp_deallocuvm kp_clearpteu kp_uva2ka kp_walkpgdir kp_switchuvm
  kp_argint kp_argptr kp_argstr kp_create kp_sys_links

lemmas refs_low [refs_intro] = kp_low [OF fok_fc, THEN oret_kp [rotated]]

lemma filealloc_refs [refs_intro]:
  "ft_inv e s \<Longrightarrow> oret (\<lambda>r t. ft_inv (\<lambda>h. e h + one r h) t \<and> (\<forall>f. r = Some f \<longrightarrow> f < NFILE)) (filealloc s)"
proof -
  assume i: "ft_inv e s"
  have "oret (\<lambda>r t. ft_inv (\<lambda>h. e h + one r h) t \<and> (\<forall>f. r = Some f \<longrightarrow> f < NFILE))
      (case find (\<lambda>i. f_ref (ftable t i) = 0) [0..<NFILE] of
        Some f \<Rightarrow> obind (release FTABLE (upd_file f (\<lambda>x. x\<lparr>f_ref := 1\<rparr>) t)) (\<lambda>_. Ret (Some f))
      | None \<Rightarrow> obind (release FTABLE t) (\<lambda>_. Ret None))" if t: "ft_inv e t" for t
  proof (cases "find (\<lambda>i. f_ref (ftable t i) = 0) [0..<NFILE]")
    case None
    with t show ?thesis by (auto intro!: refs_intro)
  next
    case (Some f)
    then have f: "f < NFILE" "f_ref (ftable t f) = 0" by (auto simp: find_Some_iff)
    have "ft_inv (\<lambda>h. e h + 1 * one (Some f) h) (upd_file f (\<lambda>x. x\<lparr>f_ref := 1\<rparr>) t)" by (rule ft_inv_upd_file [OF t]) (simp_all add: f)
    with Some f show ?thesis by (auto intro!: refs_intro simp del: one_simps)
  qed
  then show ?thesis unfolding filealloc_def by (intro oret_obind [OF refs_low(1) [OF i]]) blast
qed

lemma filedup_refs [refs_intro]:
  "ft_inv e s \<Longrightarrow> oret (\<lambda>g t. ft_inv (\<lambda>h. e h + one (Some f) h) t \<and> g = f) (filedup f s)"
proof -
  assume i: "ft_inv e s"
  have "ft_inv (\<lambda>h. e h + 1 * one (Some f) h) (upd_file f (\<lambda>x. x\<lparr>f_ref := f_ref x + 1\<rparr>) t)" if "ft_inv e t" "\<not> f_ref (ftable t f) < 1" for t
    using that by (intro ft_inv_upd_file) auto
  then show ?thesis using i unfolding filedup_def by (auto intro!: refs_intro simp del: one_simps)
qed

lemma fileclose_refs [refs_intro]:
  "ft_inv e s \<Longrightarrow> oret (\<lambda>_. ft_inv (\<lambda>h. e h - one (Some f) h)) (fileclose f s)"
proof -
  assume i: "ft_inv e s"
  have 1: "ft_inv (\<lambda>h. e h + (- 1) * one (Some f) h) (upd_file f (\<lambda>x. x\<lparr>f_ref := f_ref x - 1\<rparr>) t)" if "ft_inv e t" "f_ref (ftable t f) - 1 > 0" for t
    using that by (intro ft_inv_upd_file) auto
  have 2: "ft_inv (\<lambda>h. e h + (- 1) * one (Some f) h) (upd_file f (\<lambda>x. x\<lparr>f_ref := 0, f_type := FD_NONE\<rparr>) (upd_file f (\<lambda>x. x\<lparr>f_ref := f_ref x - 1\<rparr>) t))"
    if "ft_inv e t" "f_ref (ftable t f) = 1" for t
  proof -
    have "upd_file f (\<lambda>x. x\<lparr>f_ref := 0, f_type := FD_NONE\<rparr>) (upd_file f (\<lambda>x. x\<lparr>f_ref := f_ref x - 1\<rparr>) t) =
        upd_file f (\<lambda>x. x\<lparr>f_ref := 0, f_type := FD_NONE\<rparr>) t" by (simp add: upd_file_def)
    then show ?thesis using ft_inv_upd_file [OF that(1), of "\<lambda>x. x\<lparr>f_ref := 0, f_type := FD_NONE\<rparr>" f "- 1"] that(2) by simp
  qed
  have r: "f_ref (ftable (upd_file f (\<lambda>x. x\<lparr>f_ref := f_ref x - 1\<rparr>) t) f) = f_ref (ftable t f) - 1" for t :: "'a kernel_scheme"
    by (simp add: upd_file_def)
  show ?thesis unfolding fileclose_def Let_def r
    by (rule oret_obind [OF refs_low(1) [OF i]]) (use 1 2 in \<open>auto intro!: refs_intro simp del: one_simps\<close>)
qed

text \<open>Further rules: the argument idiom, and properties of the table that low-level routines keep.\<close>

lemma oret_need [refs_intro]:
  "oret P m \<Longrightarrow> (\<And>s. P None s \<Longrightarrow> Q (- 1) s) \<Longrightarrow> (\<And>x s. P (Some x) s \<Longrightarrow> oret Q (f x s)) \<Longrightarrow> oret Q (need m f)"
  unfolding need_def by (auto intro!: oret_obind [where P = P] refs_intro)

lemma oret_kp_ftable:
  assumes "ft_inv e s" "P (ftable s)" "kp (fc s) m"
  shows "oret (\<lambda>_ t. ft_inv e t \<and> P (ftable t)) m"
proof -
  have "ftable t = ftable s" if "fok (fc s) t" for t
  proof -
    have "fstate.more t = fstate.more s" using that by (simp add: fc_def fok.simps)
    then show ?thesis by (cases s; cases t) simp
  qed
  note k = this
  show ?thesis unfolding oret_def
  proof (intro allI impI)
    fix a t
    assume "m = Ret a t"
    then have t: "fok (fc s) t" using assms(3) by simp
    show "ft_inv e t \<and> P (ftable t)" unfolding k [OF t] using ft_inv_fok [OF assms(1) t] assms(2) by simp
  qed
qed

lemma refs_nonneg: "0 \<le> refs os f"
  by (simp add: refs_def)

lemma refs_pos:
  assumes "i < length os" "j < length (os ! i)" "os ! i ! j = Some f"
  shows "0 < refs os f"
  using refs_update [OF assms(1,2), of None f] refs_nonneg [of "os[i := (os ! i)[j := None]]" f] assms(3) by simp

lemma ft_inv_file_pos: "ft_inv e s \<Longrightarrow> f < NFILE \<Longrightarrow> 0 < e f \<Longrightarrow> 0 < f_ref (ftable s f)"
  using refs_nonneg [of "map p_ofile (procs s)" f] unfolding ft_inv_def by (metis add_nonneg_pos)

lemma ft_inv_set_file:
  assumes "ft_inv e s" "0 < f_ref (ftable s f)" "\<And>x. f_ref (g x) = f_ref x"
  shows "ft_inv e (upd_file f g s)"
  using ft_inv_upd_file [OF assms(1), of g f 0] assms(2,3) by simp

lemma ft_inv_upd_off: "ft_inv e s \<Longrightarrow> ft_inv e (upd_file f (\<lambda>x. x\<lparr>f_off := h x\<rparr>) s)"
  using ft_inv_upd_file [of e s "\<lambda>x. x\<lparr>f_off := h x\<rparr>" f 0] by (auto simp: ft_inv_def)

subsection \<open>Descriptors\<close>

lemma ft_inv_cur:
  assumes "ft_inv e s"
  shows "the (curproc s) < length (procs s)" "\<not> dead (cur s)" "length (p_ofile (cur s)) = NOFILE"
    "j < NOFILE \<Longrightarrow> p_ofile (cur s) ! j = Some f \<Longrightarrow> f < NFILE"
proof -
  from assms obtain i where i: "i < length (procs s)" "curproc s = Some i" "\<not> dead (procs s ! i)" unfolding ft_inv_def by blast
  then have c: "cur s = procs s ! i" "cur s \<in> set (procs s)" by (simp_all add: cur_def)
  show "the (curproc s) < length (procs s)" "\<not> dead (cur s)" using i c by simp_all
  show l: "length (p_ofile (cur s)) = NOFILE" using assms c unfolding ft_inv_def by blast
  show "f < NFILE" if "j < NOFILE" "p_ofile (cur s) ! j = Some f"
    using that l assms c unfolding ft_inv_def by (metis nth_mem)
qed

lemma ft_inv_set_fd:
  assumes "ft_inv e s" "fd < NOFILE" "\<And>f. y = Some f \<Longrightarrow> f < NFILE"
  shows "ft_inv (\<lambda>f. e f + one (p_ofile (cur s) ! fd) f - one y f) (set_fd fd y s)"
  using ft_inv_set_ofile [of e s "the (curproc s)" fd y] assms ft_inv_cur [OF assms(1)]
  unfolding set_fd_def upd_cur_def cur_def by blast

lemma cur_set_fd: "the (curproc s) < length (procs s) \<Longrightarrow> cur (set_fd fd y s) = (cur s)\<lparr>p_ofile := (p_ofile (cur s))[fd := y]\<rparr>"
  by (simp add: set_fd_def upd_cur_def upd_proc_def cur_def)

lemma ft_inv_fd_pos:
  assumes "ft_inv e s" "fd < NOFILE" "p_ofile (cur s) ! fd = Some f" "0 \<le> e f"
  shows "0 < f_ref (ftable s f)"
proof -
  have "0 < refs (map p_ofile (procs s)) f"
    using refs_pos [of "the (curproc s)" "map p_ofile (procs s)" fd f] ft_inv_cur [OF assms(1)] assms(2,3) by (simp add: cur_def)
  moreover have "f < NFILE" using ft_inv_cur(4) [OF assms(1-3)] .
  ultimately show ?thesis using assms(1,4) unfolding ft_inv_def by fastforce
qed

lemma argfd_refs [refs_intro]:
  assumes "ft_inv e s"
  shows "oret (\<lambda>r t. ft_inv e t \<and> (\<forall>fd f. r = Some (fd, f) \<longrightarrow> fd < NOFILE \<and> p_ofile (cur t) ! fd = Some f)) (argfd n s)"
  unfolding argfd_def using assms by (auto intro!: refs_intro)

lemma fdalloc_None: "fdalloc f s = (None, t) \<Longrightarrow> t = s"
  by (auto simp: fdalloc_def split: option.splits)

lemma fdalloc_Some:
  assumes "fdalloc f s = (Some fd, t)" "ft_inv e s" "f < NFILE"
  shows "ft_inv (\<lambda>h. e h - one (Some f) h) t \<and> fd < NOFILE \<and> p_ofile (cur t) ! fd = Some f"
proof -
  have fd: "fd < NOFILE" "p_ofile (cur s) ! fd = None" and t: "t = set_fd fd (Some f) s"
    using assms(1) by (auto simp: fdalloc_def find_Some_iff split: option.splits)
  show ?thesis
    using ft_inv_set_fd [OF assms(2) fd(1), of "Some f"] assms(3) fd ft_inv_cur [OF assms(2)]
    unfolding t cur_set_fd [OF ft_inv_cur(1) [OF assms(2)]] by simp
qed

subsection \<open>Reading, writing, closing, duplicating\<close>

lemma fileread_refs [refs_intro]: "ft_inv e s \<Longrightarrow> oret (\<lambda>_. ft_inv e) (fileread f a n s)"
  unfolding fileread_def by (auto simp: Let_def intro!: refs_intro ft_inv_upd_off split: ftype.split)

lemma filewrite_loop_refs: "ft_inv e s \<Longrightarrow> oret (\<lambda>_. ft_inv e) (filewrite_loop f a n i s)"
proof (induction "nat (n - i)" arbitrary: i s rule: less_induct)
  case less
  have "oret (\<lambda>_. ft_inv e) (filewrite_loop f a n (i + r) t)" if "ft_inv e t" "i < n" "0 < r" for r and t :: "'a kernel_scheme"
    using that by (intro less.hyps) auto
  note k = this
  have 1: "0 < min (n - i) filewrite_max" if "i < n" using that by (simp add: filewrite_max_def)
  show ?case
    by (subst filewrite_loop.simps) (use less.prems 1 in \<open>auto simp: Let_def not_less intro!: refs_intro ft_inv_upd_off k\<close>)
qed

lemma filewrite_refs [refs_intro]: "ft_inv e s \<Longrightarrow> oret (\<lambda>_. ft_inv e) (filewrite f a n s)"
  unfolding filewrite_def by (auto intro!: refs_intro filewrite_loop_refs split: ftype.split)

lemma fok_put_stat: "put_stat a st s = Some t \<Longrightarrow> fok c s \<Longrightarrow> fok c t"
  by (auto simp: put_stat_def bind_eq_Some_conv dest!: fok_uwrite [where c = c])

lemma kp_filestat: "fok c s \<Longrightarrow> kp c (filestat f st s)"
  unfolding filestat_def by (auto intro!: frame intro: fok_put_stat)

lemma sys_read_refs: "ft_inv e s \<Longrightarrow> oret (\<lambda>_. ft_inv e) (sys_read s)"
  unfolding sys_read_def by (auto intro!: refs_intro)

lemma sys_write_refs: "ft_inv e s \<Longrightarrow> oret (\<lambda>_. ft_inv e) (sys_write s)"
  unfolding sys_write_def by (auto intro!: refs_intro)

lemma sys_fstat_refs: "ft_inv e s \<Longrightarrow> oret (\<lambda>_. ft_inv e) (sys_fstat s)"
  unfolding sys_fstat_def by (auto intro!: refs_intro oret_kp [OF _ kp_filestat [OF fok_fc]])

lemma sys_close_refs:
  assumes "ft_inv e s"
  shows "oret (\<lambda>_. ft_inv e) (sys_close s)"
proof -
  have "oret (\<lambda>_. ft_inv e) (fileclose f (set_fd fd None t))"
    if "ft_inv e t" "fd < NOFILE" "p_ofile (cur t) ! fd = Some f" for fd f t
  proof -
    have "ft_inv (\<lambda>h. e h + one (Some f) h) (set_fd fd None t)" using ft_inv_set_fd [of e t fd None] that by (simp del: one_simps(2))
    from fileclose_refs [OF this, of f] show ?thesis by simp
  qed
  then show ?thesis using assms unfolding sys_close_def by (auto intro!: refs_intro)
qed

lemma sys_dup_refs:
  assumes "ft_inv e s"
  shows "oret (\<lambda>_. ft_inv e) (sys_dup s)"
proof -
  have "oret (\<lambda>_. ft_inv e) (filedup f u)" if "fdalloc f t = (Some fd, u)" "ft_inv e t" "j < NOFILE" "p_ofile (cur t) ! j = Some f" for f fd j t u
  proof -
    have "ft_inv (\<lambda>h. e h - one (Some f) h) u" using fdalloc_Some [OF that(1,2) ft_inv_cur(4) [OF that(2-4)]] by blast
    from filedup_refs [OF this, of f] show ?thesis by (rule oret_mono) simp
  qed
  then show ?thesis using assms unfolding sys_dup_def by (auto intro!: refs_intro dest: fdalloc_None)
qed

subsection \<open>Opening\<close>

lemma open_inode_refs [refs_intro]:
  assumes e: "\<And>h. 0 \<le> e h" and i: "ft_inv e s"
  shows "oret (\<lambda>_. ft_inv e) (open_inode ip omode s)"
proof -
  let ?g = "\<lambda>x. x\<lparr>f_type := FD_INODE, f_ip := ip, f_off := 0, f_readable := (omode AND O_WRONLY = 0),
    f_writable := (omode AND O_WRONLY \<noteq> 0 \<or> omode AND O_RDWR \<noteq> 0)\<rparr>"
  have 1: "oret (\<lambda>_. ft_inv e) (fileclose f t)" if "ft_inv (\<lambda>h. e h + one (Some f) h) t" for f t
    using fileclose_refs [OF that, of f] by simp
  have 2: "oret (\<lambda>_ s. oret (\<lambda>_ s. ft_inv e (upd_file f ?g s)) (end_op s)) (iunlock ip u)"
    if "fdalloc f t = (Some fd, u)" "ft_inv (\<lambda>h. e h + one (Some f) h) t" "f < NFILE" for f fd t u
  proof -
    have u: "ft_inv e u" "fd < NOFILE" "p_ofile (cur u) ! fd = Some f" using fdalloc_Some [OF that(1-3)] by simp_all
    have "0 < f_ref (ftable u f)" using ft_inv_fd_pos [OF u e] .
    with u show ?thesis
      by (intro oret_mono [OF oret_kp_ftable [where P = "\<lambda>F. 0 < f_ref (F f)", OF _ _ kp_iunlock [OF fok_fc]]]
          oret_mono [OF oret_kp_ftable [where P = "\<lambda>F. 0 < f_ref (F f)", OF _ _ kp_end_op [OF fok_fc]]])
        (auto intro!: ft_inv_set_file)
  qed
  show ?thesis unfolding open_inode_def Let_def
    by (rule oret_obind [OF filealloc_refs [OF i]]) (auto intro!: refs_intro 1 2 dest: fdalloc_None simp del: one_simps(2) split: option.split)
qed

lemma sys_open_refs:
  assumes "\<And>h. 0 \<le> e h" "ft_inv e s"
  shows "oret (\<lambda>_. ft_inv e) (sys_open s)"
  using assms(2) unfolding sys_open_def Let_def by (auto intro!: refs_intro assms(1))

end
