(* ===== verification/CallRefs.thy ===== *)
theory CallRefs
  imports FileRefs
begin

text \<open>
  The reference counts of the open file table through pipes, \<^verbatim>\<open>fork\<close>, the dispatcher of system calls and the
  trap handler: whatever a process asks for, the counts are exact when it is back in user mode.
\<close>

subsection \<open>Pipes\<close>

lemma fok_pipe [simp]: "fok c (upd_pipe p f s) = fok c s" "fok c (initlock lk nm s) = fok c s"
  by (simp_all add: upd_pipe_def initlock_def)

lemma ft_inv_pipe [simp]: "ft_inv e (upd_pipe p f s) = ft_inv e s" "ft_inv e (initlock lk nm s) = ft_inv e s"
  by (simp_all add: ft_inv_def upd_pipe_def initlock_def)

lemma pipealloc_bad_refs [refs_intro]:
  assumes "ft_inv (\<lambda>h. e h + one f0 h + one f1 h) s"
  shows "oret (\<lambda>r t. ft_inv e t \<and> r = None) (pipealloc_bad f0 f1 s)"
proof -
  have 0: "oret (\<lambda>_. ft_inv e') (case f of None \<Rightarrow> Ret () t | Some f \<Rightarrow> fileclose f t)" if "ft_inv (\<lambda>h. e' h + one f h) t" for e' f t
    using that fileclose_refs [OF that, of "the f"] by (cases f) simp_all
  have "ft_inv (\<lambda>h. (e h + one f1 h) + one f0 h) s" by (rule ft_inv_cong [OF assms]) simp
  then show ?thesis unfolding pipealloc_bad_def by (intro oret_obind [OF 0] oret_obind [OF 0 [of e]]) simp_all
qed

text \<open>The two entries a new pipe comes with.\<close>

fun pipe_refs :: "(nat \<Rightarrow> int) \<Rightarrow> (nat \<times> nat) option \<Rightarrow> 'a kernel_scheme \<Rightarrow> bool" where
  "pipe_refs e None t \<longleftrightarrow> ft_inv e t"
| "pipe_refs e (Some (a, b)) t \<longleftrightarrow> a < NFILE \<and> b < NFILE \<and> ft_inv (\<lambda>h. e h + one (Some a) h + one (Some b) h) t"

lemma pipealloc_refs [refs_intro]:
  assumes e: "\<And>h. 0 \<le> e h" and i: "ft_inv e s"
  shows "oret (pipe_refs e) (pipealloc s)"
proof -
  have bad: "oret (pipe_refs e) (pipealloc_bad f0 f1 t)" if "ft_inv (\<lambda>h. e h + one f0 h + one f1 h) t" for f0 f1 t
    using oret_mono [OF pipealloc_bad_refs [OF that]] by auto
  have set: "ft_inv (\<lambda>h. e h + one (Some a) h + one (Some b) h) (upd_file b g' (upd_file a g t))"
    if "ft_inv (\<lambda>h. e h + one (Some a) h + one (Some b) h) t" "a < NFILE" "b < NFILE" "\<And>x. f_ref (g x) = f_ref x" "\<And>x. f_ref (g' x) = f_ref x" for a b g g' t
  proof -
    have p: "0 < e a + one (Some a) a + one (Some b) a" "0 < e b + one (Some a) b + one (Some b) b"
      using e [of a] e [of b] by (auto simp: one_def)
    have 1: "ft_inv (\<lambda>h. e h + one (Some a) h + one (Some b) h) (upd_file a g t)"
      by (rule ft_inv_set_file [OF that(1) ft_inv_file_pos [OF that(1,2) p(1)] that(4)])
    show ?thesis by (rule ft_inv_set_file [OF 1 ft_inv_file_pos [OF 1 that(3) p(2)] that(5)])
  qed
  show ?thesis unfolding pipealloc_def Let_def
    by (rule oret_obind [OF filealloc_refs [OF i]])
      (auto intro!: refs_intro bad set simp del: one_simps(2))
qed

lemma sys_pipe_refs:
  assumes e: "\<And>h. 0 \<le> e h" and i: "ft_inv e s"
  shows "oret (\<lambda>_. ft_inv e) (sys_pipe s)"
proof -
  have bad: "oret (\<lambda>_. ft_inv e) (obind (fileclose rf t) (\<lambda>_ s. obind (fileclose wf s) (\<lambda>_. Ret (- 1 :: int))))"
    if "ft_inv (\<lambda>h. e h + one (Some rf) h + one (Some wf) h) t" for rf wf t
  proof -
    have "oret (\<lambda>_. ft_inv (\<lambda>h. e h + one (Some wf) h)) (fileclose rf t)"
      using fileclose_refs [OF that, of rf] by (rule oret_mono) (rule ft_inv_cong, auto)
    then show ?thesis by (rule oret_obind) (use fileclose_refs [of "\<lambda>h. e h + one (Some wf) h" _ wf] in \<open>auto intro!: oret_obind\<close>)
  qed
  have ok: "oret (\<lambda>_. ft_inv e) (case fdalloc wf u of (None, s) \<Rightarrow> obind (fileclose rf (set_fd fd0 None s)) (\<lambda>_ s. obind (fileclose wf s) (\<lambda>_. Ret (- 1)))
       | (Some fd1, s) \<Rightarrow> (case uwrite p (bytes32 (of_nat fd0) @ bytes32 (of_nat fd1)) s of None \<Rightarrow> Panic ''trap'' | Some s \<Rightarrow> Ret (0 :: int) s))"
    if "fdalloc rf t = (Some fd0, u)" "pipe_refs e (Some (rf, wf)) t" for rf wf fd0 p t u
  proof -
    have u: "ft_inv (\<lambda>h. e h + one (Some wf) h) u" "fd0 < NOFILE" "p_ofile (cur u) ! fd0 = Some rf"
      using fdalloc_Some [OF that(1), of "\<lambda>h. e h + one (Some rf) h + one (Some wf) h"] that(2) by (simp_all del: one_simps(2))
    have n: "ft_inv (\<lambda>h. e h + one (Some rf) h + one (Some wf) h) (set_fd fd0 None u)"
      by (rule ft_inv_cong [OF ft_inv_set_fd [OF u(1,2), of None]]) (simp_all add: u(3))
    show ?thesis
    proof (cases "fdalloc wf u")
      case (Pair r v)
      have "ft_inv e v" if "r = Some fd1" for fd1
        using fdalloc_Some [of wf u fd1 v, OF _ u(1)] Pair \<open>pipe_refs e (Some (rf, wf)) t\<close> that by simp
      then show ?thesis
        using Pair fdalloc_None [of wf u v] bad [OF n] by (cases r) (auto intro: ft_inv_fok [OF _ fok_uwrite] split: option.split)
    qed
  qed
  show ?thesis unfolding sys_pipe_def Let_def
  proof (rule oret_need [OF oret_kp [OF i kp_argptr [OF fok_fc]]], assumption, rule oret_need [OF pipealloc_refs [OF e]],
      assumption, simp, goal_cases)
    case (1 p s x t)
    obtain rf wf where x: "x = (rf, wf)" by (cases x)
    show ?case unfolding x prod.case
    proof (rule oret_prod, rule oret_option)
      fix r u
      assume "fdalloc rf t = (r, u)" "r = None"
      then show "oret (\<lambda>_. ft_inv e) (obind (fileclose rf u) (\<lambda>_ s. obind (fileclose wf s) (\<lambda>_. Ret (- 1 :: int))))"
        using 1 x bad [of rf wf t] fdalloc_None [of rf t u] by (simp del: one_simps(2))
    qed (use 1 x ok in simp)
  qed
qed


subsection \<open>Fork\<close>

text \<open>The slot of a new process: not in use by the table's books, and without descriptors from place \<open>n\<close> on.\<close>

definition fresh :: "nat \<Rightarrow> nat set \<Rightarrow> 'a kernel_scheme \<Rightarrow> bool" where
  "fresh np J s \<longleftrightarrow> np < length (procs s) \<and> curproc s \<noteq> Some np \<and> \<not> dead (procs s ! np) \<and> (\<forall>j \<in> J. p_ofile (procs s ! np) ! j = None)"

lemma fresh_fok:
  assumes "fresh np J s" "fok (fc s) t"
  shows "fresh np J t"
proof -
  have t: "map p_ofile (procs t) = map p_ofile (procs s)" "list_all2 (\<longrightarrow>) (map dead (procs t)) (map dead (procs s))" "curproc t = curproc s"
    using assms(2) by (auto simp: fc_def fok.simps)
  have l: "length (procs t) = length (procs s)" using t(1) by (metis length_map)
  have "p_ofile (procs t ! np) = p_ofile (procs s ! np)" "dead (procs t ! np) \<longrightarrow> dead (procs s ! np)"
    using assms(1) t(1,2) l by (metis fresh_def nth_map, auto simp: fresh_def list_all2_conv_all_nth)
  with assms(1) l t(3) show ?thesis by (simp add: fresh_def)
qed

lemma oret_kp_fresh:
  assumes "ft_inv e s" "fresh np J s" "kp (fc s) m"
  shows "oret (\<lambda>_ t. ft_inv e t \<and> fresh np J t) m"
  using assms by (cases m) (auto simp: oret_def intro: ft_inv_fok fresh_fok)

lemma oret_conj: "oret P m \<Longrightarrow> oret Q m \<Longrightarrow> oret (\<lambda>a t. P a t \<and> Q a t) m"
  by (simp add: oret_def)

lemma fresh_upd_file [simp]: "fresh np J (upd_file f g s) = fresh np J s"
  by (simp add: fresh_def upd_file_def)

lemma oret_fresh: "fresh np J s \<Longrightarrow> kp (fc s) m \<Longrightarrow> oret (\<lambda>_. fresh np J) m"
  by (cases m) (auto simp: oret_def intro: fresh_fok)

lemma filedup_fresh: "fresh np J s \<Longrightarrow> oret (\<lambda>_. fresh np J) (filedup f s)"
  unfolding filedup_def by (auto intro!: refs_intro oret_fresh [OF _ kp_acquire [OF fok_fc]] oret_fresh [OF _ kp_release [OF fok_fc]])

lemma fork_files_refs:
  assumes "ft_inv e s" "fresh np (set js) s" "distinct js" "set js \<subseteq> {..<NOFILE}"
  shows "oret (\<lambda>_ t. ft_inv e t \<and> fresh np {} t) (fork_files np js s)"
  using assms
proof (induction js arbitrary: s)
  case Nil
  then show ?case by (simp add: fresh_def)
next
  case (Cons j js)
  have sub: "fresh np (set js) s" using Cons.prems(2) by (auto simp: fresh_def)
  show ?case
  proof (cases "p_ofile (cur s) ! j")
    case None
    with Cons sub show ?thesis by simp
  next
    case (Some f)
    have f: "f < NFILE" using ft_inv_cur(4) [OF Cons.prems(1) _ Some] Cons.prems(4) by simp
    have "oret (\<lambda>_ t. ft_inv e t \<and> fresh np {} t) (fork_files np js (upd_proc np (\<lambda>p. p\<lparr>p_ofile := (p_ofile p)[j := Some f]\<rparr>) t))"
      if t: "ft_inv (\<lambda>h. e h + one (Some f) h) t" "fresh np (set (j # js)) t" for t :: "'a kernel_scheme"
    proof (rule Cons.IH)
      have n: "np < length (procs t)" "\<not> dead (procs t ! np)" "p_ofile (procs t ! np) ! j = None" using t(2) by (simp_all add: fresh_def)
      show "ft_inv e (upd_proc np (\<lambda>p. p\<lparr>p_ofile := (p_ofile p)[j := Some f]\<rparr>) t)"
        using ft_inv_set_ofile [OF t(1) n(1), of j "Some f"] n f Cons.prems(4) by simp
      show "fresh np (set js) (upd_proc np (\<lambda>p. p\<lparr>p_ofile := (p_ofile p)[j := Some f]\<rparr>) t)"
        using t(2) Cons.prems(3) by (auto simp: fresh_def upd_proc_def dead_def) (metis nth_list_update_neq)
    qed (use Cons.prems in auto)
    note step = this
    show ?thesis unfolding fork_files.simps Some option.case
      by (rule oret_obind [OF oret_conj [OF filedup_refs [OF Cons.prems(1), of f] filedup_fresh [OF Cons.prems(2), of f]]]) (clarify, rule step)
  qed
qed

text \<open>Changes of a process record that keep its descriptors, and bring it to life or back to an unused slot.\<close>

lemma ft_inv_upd_proc:
  assumes "ft_inv e s" "\<And>p. p_ofile (f p) = p_ofile p"
    "i < length (procs s) \<Longrightarrow> dead (f (procs s ! i)) \<Longrightarrow> p_ofile (procs s ! i) = replicate NOFILE None \<and> curproc s \<noteq> Some i"
  shows "ft_inv e (upd_proc i f s)"
proof (cases "i < length (procs s)")
  case True
  let ?ps = "(procs s)[i := f (procs s ! i)]"
  have m: "map p_ofile ?ps = map p_ofile (procs s)" by (rule nth_equalityI) (simp_all add: nth_list_update True assms(2))
  have inv: "\<forall>p \<in> set (procs s). length (p_ofile p) = NOFILE \<and> (\<forall>f. Some f \<in> set (p_ofile p) \<longrightarrow> f < NFILE) \<and>
        (dead p \<longrightarrow> p_ofile p = replicate NOFILE None)"
    using assms(1) unfolding ft_inv_def by blast
  have all: "\<forall>p \<in> set ?ps. length (p_ofile p) = NOFILE \<and> (\<forall>f. Some f \<in> set (p_ofile p) \<longrightarrow> f < NFILE) \<and>
        (dead p \<longrightarrow> p_ofile p = replicate NOFILE None)"
  proof
    fix p
    assume "p \<in> set ?ps"
    then consider "p = f (procs s ! i)" | "p \<in> set (procs s)" using set_update_subset_insert [of "procs s" i] by blast
    then show "length (p_ofile p) = NOFILE \<and> (\<forall>f. Some f \<in> set (p_ofile p) \<longrightarrow> f < NFILE) \<and> (dead p \<longrightarrow> p_ofile p = replicate NOFILE None)"
    proof cases
      case 1
      with inv [THEN bspec, OF nth_mem [OF True]] assms(2,3) True show ?thesis by simp
    qed (use inv in blast)
  qed
  have "\<exists>k < length ?ps. curproc s = Some k \<and> \<not> dead (?ps ! k)"
    using assms(1,3) True unfolding ft_inv_def by (auto simp: nth_list_update)
  with all m assms(1) show ?thesis unfolding ft_inv_def upd_proc_def by simp
qed (use assms(1) in \<open>simp add: upd_proc_def list_update_beyond\<close>)

lemma ft_inv_ext [simp]: "ft_inv e (s\<lparr>mem := m\<rparr>) = ft_inv e s" "ft_inv e (s\<lparr>nextpid := k\<rparr>) = ft_inv e s"
  by (simp_all add: ft_inv_def)

lemma fresh_ext [simp]: "fresh i J (s\<lparr>mem := m\<rparr>) = fresh i J s" "fresh i J (s\<lparr>nextpid := k\<rparr>) = fresh i J s"
  by (simp_all add: fresh_def)

lemma fresh_upd_proc:
  "fresh i J s \<Longrightarrow> (\<And>p. p_ofile (f p) = p_ofile p) \<Longrightarrow> (\<And>p. dead (f p) \<Longrightarrow> dead p) \<Longrightarrow> fresh i J (upd_proc i f s)"
  unfolding fresh_def upd_proc_def by auto

lemma ft_inv_free:
  assumes "ft_inv e s" "fresh i {..<NOFILE} s" "\<And>p. p_ofile (f p) = p_ofile p"
  shows "ft_inv e (upd_proc i f s)"
proof (rule ft_inv_upd_proc [OF assms(1,3)])
  assume "i < length (procs s)"
  then have "length (p_ofile (procs s ! i)) = NOFILE" using assms(1) unfolding ft_inv_def by simp
  then show "p_ofile (procs s ! i) = replicate NOFILE None \<and> curproc s \<noteq> Some i"
    using assms(2) unfolding fresh_def by (auto simp: list_eq_iff_nth_eq)
qed

lemma ft_inv_upd_keep:
  assumes "ft_inv e s" "\<And>p. p_ofile (f p) = p_ofile p" "\<And>p. dead (f p) \<Longrightarrow> dead p"
  shows "ft_inv e (upd_proc i f s)"
proof (rule ft_inv_upd_proc [OF assms(1,2)])
  assume "i < length (procs s)" "dead (f (procs s ! i))"
  with assms(1) assms(3) [of "procs s ! i"] show "p_ofile (procs s ! i) = replicate NOFILE None \<and> curproc s \<noteq> Some i"
    unfolding ft_inv_def by (metis nth_mem option.inject)
qed

lemma allocproc_found_refs:
  assumes "ft_inv e s" "fresh i {..<NOFILE} s"
  shows "oret (\<lambda>r t. ft_inv e t \<and> (\<forall>j. r = Some j \<longrightarrow> fresh j {..<NOFILE} t)) (allocproc_found i s)"
  unfolding allocproc_found_def Let_def
  by (rule oret_obind [OF oret_kp_fresh [OF assms kp_kalloc [OF fok_fc]]])
    (auto intro!: ft_inv_free fresh_upd_proc simp: dead_def)

lemma allocproc_refs:
  assumes "ft_inv e s"
  shows "oret (\<lambda>r t. ft_inv e t \<and> (\<forall>i. r = Some i \<longrightarrow> fresh i {..<NOFILE} t)) (allocproc s)"
proof -
  have k: "oret (\<lambda>_ s. oret (\<lambda>r t. ft_inv e t \<and> (\<forall>i. r = Some i \<longrightarrow> fresh i {..<NOFILE} t)) (allocproc_found i s)) (release PTABLE (u\<lparr>nextpid := n\<rparr>))"
    if "find_idx (\<lambda>p. p_state p = UNUSED) (procs t) = Some i" "ft_inv e t" "u = upd_proc i (\<lambda>p. p\<lparr>p_state := EMBRYO, p_pid := m\<rparr>) t" for i m n and t u :: "'a kernel_scheme"
  proof -
    have i: "i < length (procs t)" "dead (procs t ! i)" using find_idx_SomeD [OF that(1)] by (simp_all add: dead_def)
    then have o: "p_ofile (procs t ! i) = replicate NOFILE None" "curproc t \<noteq> Some i" using that(2) unfolding ft_inv_def by auto
    have "ft_inv e u" unfolding that(3) by (rule ft_inv_upd_proc [OF that(2)]) (simp_all add: dead_def)
    moreover have "fresh i {..<NOFILE} u" using i o by (simp add: that(3) fresh_def upd_proc_def dead_def)
    ultimately have "ft_inv e (u\<lparr>nextpid := n\<rparr>)" "fresh i {..<NOFILE} (u\<lparr>nextpid := n\<rparr>)" by simp_all
    from oret_kp_fresh [OF this kp_release [OF fok_fc]] show ?thesis by (rule oret_mono) (simp add: allocproc_found_refs)
  qed
  show ?thesis unfolding allocproc_def Let_def
    by (rule oret_obind [OF oret_kp [OF assms kp_acquire [OF fok_fc]]]) (auto intro!: refs_intro k)
qed

lemma set_runnable_refs: "ft_inv e s \<Longrightarrow> oret (\<lambda>_. ft_inv e) (set_runnable i s)"
  unfolding set_runnable_def by (auto intro!: refs_intro ft_inv_upd_keep simp: dead_def)

lemma fork_refs:
  assumes "ft_inv e s"
  shows "oret (\<lambda>_. ft_inv e) (fork s)"
  unfolding fork_def Let_def
  apply (rule oret_obind [OF allocproc_refs [OF assms]])
  apply (rule oret_option)
   apply simp
  apply (rule oret_obind [OF oret_kp_fresh [OF _ _ kp_copyuvm [OF fok_fc], where J = "{..<NOFILE}"]])
    apply blast
   apply blast
  apply (rule oret_if)
   apply (rule oret_obind [OF oret_kp_fresh [OF _ _ kp_kfree [OF fok_fc], where J = "{..<NOFILE}"]])
  apply (auto intro!: ft_inv_free fresh_upd_proc simp: dead_def)[3]
   apply (rule oret_obind [OF fork_files_refs])
  apply (auto intro!: ft_inv_free fresh_upd_proc simp: dead_def atLeast0LessThan)[4]
  apply (rule oret_obind [OF oret_kp_fresh [OF _ _ kp_idup [OF fok_fc], where J = "{}"]])
  apply blast
  apply blast
  apply (rule oret_obind [OF set_runnable_refs])
  apply (auto intro!: ft_inv_upd_keep simp: dead_def)
  done

subsection \<open>All system calls\<close>

lemmas kp_neutral_calls = kp_sys_wait kp_sys_kill kp_sys_exec kp_sys_chdir kp_sys_getpid kp_sys_sbrk kp_sys_sleep kp_sys_uptime kp_sys_mknod kp_sys_unlink kp_sys_link kp_sys_mkdir kp_sys_priority kp_sys_policy kp_sys_wait_stat

lemma exit_no_return: "exit status s \<noteq> Ret r t"
proof -
  have no: "(\<And>a s t. f a s \<noteq> Ret b t) \<Longrightarrow> obind m f \<noteq> Ret b t" for m f b t
    by (cases m) auto
  show ?thesis unfolding exit_def Let_def by (simp, intro impI no) simp
qed

lemma exit_refs [refs_intro]: "oret Q (exit status s)"
  by (simp add: oret_def exit_no_return)

lemma sys_exit_refs: "ft_inv e s \<Longrightarrow> oret (\<lambda>_. ft_inv e) (sys_exit s)"
  unfolding sys_exit_def by (auto intro!: refs_intro)

lemma syscalls_refs:
  assumes "syscalls num = Some f" "ft_inv (\<lambda>_. 0) s"
  shows "oret (\<lambda>_. ft_inv (\<lambda>_. 0)) (f s)"
proof -
  have mem: "f \<in> {sys_fork, sys_exit, sys_wait, sys_pipe, sys_read, sys_kill, sys_exec, sys_fstat, sys_chdir, sys_dup, sys_getpid, sys_sbrk,
      sys_sleep, sys_uptime, sys_open, sys_write, sys_mknod, sys_unlink, sys_link, sys_mkdir, sys_close, sys_priority, sys_policy, sys_wait_stat}"
    using map_of_SomeD [OF assms(1) [unfolded syscalls_def]] by auto
  note calls = fork_refs [OF assms(2), folded sys_fork_def] sys_exit_refs [OF assms(2)] sys_pipe_refs [of "\<lambda>_. 0", OF order.refl assms(2)]
    sys_read_refs [OF assms(2)] sys_fstat_refs [OF assms(2)] sys_dup_refs [OF assms(2)] sys_open_refs [of "\<lambda>_. 0", OF order.refl assms(2)]
    sys_write_refs [OF assms(2)] sys_close_refs [OF assms(2)] kp_neutral_calls [OF fok_fc, THEN oret_kp [OF assms(2)]]
  from mem show ?thesis by (elim insertE emptyE; hypsubst) (rule calls)+
qed

lemma set_eax_refs: "ft_inv e s \<Longrightarrow> ft_inv e (set_eax r s)"
  using ft_inv_fok [OF _ kp_set_eax [OF fok_fc]] .

lemma syscall_refs [refs_intro]: "ft_inv (\<lambda>_. 0) s \<Longrightarrow> oret (\<lambda>_. ft_inv (\<lambda>_. 0)) (syscall s)"
  unfolding syscall_def Let_def
proof (rule oret_option, goal_cases)
  case 1
  then show ?case by (auto intro!: refs_intro set_eax_refs)
next
  case (2 f)
  from syscalls_refs [OF 2(2,1)] show ?case by (rule oret_obind) (simp add: set_eax_refs)
qed

subsection \<open>Traps\<close>

lemma fok_console_simps [simp]: "fok c (s\<lparr>in_buf := x1\<rparr>) = fok c s" "fok c (s\<lparr>in_e := x2\<rparr>) = fok c s" "fok c (s\<lparr>in_w := x3\<rparr>) = fok c s"
  by (cases c, simp add: fok.simps)+

lemma kp_kill_line [frame]: "fok c s \<Longrightarrow> kp c (kill_line s)"
proof (induction s rule: kill_line.induct)
  case (1 s)
  let ?m = "consputc BACKSPACE (s\<lparr>in_e := in_e s - 1\<rparr>)"
  have "kp c ?m" using "1.prems" by (auto intro!: frame)
  then have "in_e s \<noteq> in_w s \<and> in_buf s ! slot (in_buf s) (in_e s - 1) \<noteq> 10 \<Longrightarrow> kp c (obind ?m (\<lambda>_. kill_line))"
    using "1.IH" by (cases ?m) auto
  with "1.prems" show ?case by (subst kill_line.simps) auto
qed

lemma kp_console_key [frame]: "fok c s \<Longrightarrow> kp c (console_key k s)"
  unfolding console_key_def by (auto simp: Let_def intro!: frame)

lemma kp_console_keys [frame]: "fok c s \<Longrightarrow> kp c (console_keys ks d s)"
  by (induction ks arbitrary: d s) (auto intro!: frame)

lemma kp_dump_pcs [frame]: "fok c s \<Longrightarrow> kp c (dump_pcs pcs s)"
  by (induction pcs arbitrary: s) (auto intro!: frame)

lemma kp_procdump_loop [frame]: "fok c s \<Longrightarrow> kp c (procdump_loop pcs ps s)"
  by (induction ps arbitrary: s) (auto intro!: frame)

lemma kp_consoleintr [frame]: "fok c s \<Longrightarrow> kp c (consoleintr pcs ks s)"
  unfolding consoleintr_def procdump_def by (auto intro!: frame)

lemma kp_kbdintr [frame]: "fok c s \<Longrightarrow> kp c (kbdintr pcs ports sh s)"
  unfolding kbdintr_def by (auto intro!: frame)

lemma kp_uartintr [frame]: "fok c s \<Longrightarrow> kp c (uartintr pcs ports s)"
  unfolding uartintr_def by (auto intro!: frame)

lemma dead_tick [simp]: "dead (tick_proc p) = dead p" "p_ofile (tick_proc p) = p_ofile p"
  by (auto simp: dead_def tick_proc_def split: procstate.split)

lemma kp_update_times [frame]: "fok c s \<Longrightarrow> kp c (update_times s)"
  unfolding update_times_def by (auto intro!: frame fok_map_procs)

lemma kp_timer_tick [frame]: "fok c s \<Longrightarrow> kp c (timer_tick s)"
  unfolding timer_tick_def by (auto intro!: frame)

lemma kp_trap_fault [frame]: "fok c s \<Longrightarrow> kp c (trap_fault dev tf s)"
  unfolding trap_fault_def by (auto intro!: frame fok_upd_cur simp: dead_def)

lemma kp_yield [frame]: "fok c s \<Longrightarrow> kp c (yield s)"
  unfolding yield_def by (auto intro!: frame fok_upd_proc simp: dead_def Let_def)

lemmas refs_traps [refs_intro] = kp_kbdintr [OF fok_fc, THEN oret_kp [rotated]] kp_uartintr [OF fok_fc, THEN oret_kp [rotated]]
  kp_timer_tick [OF fok_fc, THEN oret_kp [rotated]] kp_trap_fault [OF fok_fc, THEN oret_kp [rotated]] kp_yield [OF fok_fc, THEN oret_kp [rotated]]

lemma ft_inv_kbd [simp]: "ft_inv e (s\<lparr>kbd_shift := x\<rparr>) = ft_inv e s"
  by (simp add: ft_inv_def)

lemma trap_switch_refs [refs_intro]: "ft_inv e s \<Longrightarrow> oret (\<lambda>_. ft_inv e) (trap_switch dev tf s)"
  unfolding trap_switch_def Let_def by (auto intro!: refs_intro)

lemma exit_if_killed_refs [refs_intro]: "ft_inv e s \<Longrightarrow> oret (\<lambda>_. ft_inv e) (exit_if_killed b s)"
  unfolding exit_if_killed_def by (auto intro!: refs_intro)



subsection \<open>Properties\<close>

text \<open>A process in user mode whose descriptor 0 is an open file, for the witnesses.\<close>

definition user_proc :: proc where
  "user_proc = bss_proc\<lparr>p_state := RUNNING, p_pid := 7, p_ofile := Some 0 # replicate 15 None\<rparr>"

definition user_kernel :: kernel where
  "user_kernel = ftstate.extend (fstate.extend (boot_fstate\<lparr>procs := [user_proc], curproc := Some 0\<rparr>)
     \<lparr>ftable = (\<lambda>f. \<lparr>f_type = (if f = 0 then FD_INODE else FD_NONE), f_ref = (if f = 0 then 1 else 0), f_readable = True, f_writable = False,
        f_pipe = 0, f_ip = 0, f_off = 0\<rparr>)\<rparr>)
     \<lparr>forkret_first = False, kbd_shift = 0, lk_forkret = 0, lk_trapret = 0, lk_initcode = 0, lk_initcode_size = 0, lk_pseudo_main = []\<rparr>"



lemma user_kernel_simps [simp]: "procs user_kernel = [user_proc]" "curproc user_kernel = Some 0"
  "f_ref (ftable user_kernel f) = (if f = 0 then 1 else 0)" "f_type (ftable user_kernel f) = (if f = 0 then FD_INODE else FD_NONE)"
  by (simp_all add: user_kernel_def ftstate.defs fstate.defs)







end
