(* ===== verification/Ulib.thy ===== *)
theory Ulib
  imports CString Console
begin

text \<open>
  The user library: \<^verbatim>\<open>ulib.c\<close> and \<^verbatim>\<open>printf.c\<close>, over the byte memory of the process. A loop over a string
  that may lack its terminator is a \<^theory_text>\<open>partial_function\<close>, \<^term>\<open>None\<close> when it does not end. The standard
  input is the list of the bytes that \<^verbatim>\<open>read\<close> will return.
\<close>

abbreviation ch :: "char \<Rightarrow> u8" where
  "ch c \<equiv> of_char c"

subsection \<open>ulib.c\<close>

partial_function (option) strcpy :: "u32 \<Rightarrow> u32 \<Rightarrow> memory \<Rightarrow> memory option" where
  "strcpy s t m = (let m' = m(s := m t) in if m' s \<noteq> 0 then strcpy (s + 1) (t + 1) m' else Some m')"

partial_function (option) strcmp :: "u32 \<Rightarrow> u32 \<Rightarrow> memory \<Rightarrow> int option" where
  "strcmp p q m =
     (if m p \<noteq> 0 \<and> m p = m q then strcmp (p + 1) (q + 1) m else Some (uint (m p) - uint (m q)))"

partial_function (option) ulib_strlen_loop :: "u32 \<Rightarrow> nat \<Rightarrow> memory \<Rightarrow> nat option" where
  "ulib_strlen_loop s n m = (if m (s + of_nat n) \<noteq> 0 then ulib_strlen_loop s (n + 1) m else Some n)"

definition ulib_strlen :: "u32 \<Rightarrow> memory \<Rightarrow> nat option" where
  "ulib_strlen s m = ulib_strlen_loop s 0 m"

definition ulib_memset :: "u32 \<Rightarrow> u32 \<Rightarrow> u32 \<Rightarrow> memory \<Rightarrow> memory" where
  "ulib_memset dst c n m = stosb (unat n) dst (ucast c) m"

partial_function (option) strchr :: "u32 \<Rightarrow> u8 \<Rightarrow> memory \<Rightarrow> u32 option" where
  "strchr s c m = (if m s \<noteq> 0 then if m s = c then Some s else strchr (s + 1) c m else Some 0)"

fun gets_loop :: "u32 \<Rightarrow> int \<Rightarrow> int \<Rightarrow> u8 list \<Rightarrow> memory \<Rightarrow> int \<times> u8 list \<times> memory" where
  "gets_loop buf mx i [] m = (i, [], m)"
| "gets_loop buf mx i (c # input) m =
     (if i + 1 < mx
      then let m = m(buf + of_int i := c)
           in if c = 10 \<or> c = 13 then (i + 1, input, m) else gets_loop buf mx (i + 1) input m
      else (i, c # input, m))"

definition gets :: "u32 \<Rightarrow> int \<Rightarrow> u8 list \<Rightarrow> memory \<Rightarrow> u8 list \<times> memory" where
  "gets buf mx input m = (case gets_loop buf mx 0 input m of (i, input, m) \<Rightarrow> (input, m(buf + of_int i := 0)))"

text \<open>
  \<^verbatim>\<open>atoi\<close>: the sum \<^verbatim>\<open>n*10 + *s\<close> is formed before \<^verbatim>\<open>'0'\<close> is subtracted; an overflow of the \<^verbatim>\<open>int\<close> there is
  undefined (\<^term>\<open>None\<close>).
\<close>

partial_function (option) atoi_loop :: "u32 \<Rightarrow> int \<Rightarrow> memory \<Rightarrow> int option" where
  "atoi_loop s n m =
     (let c = sint (m s)
      in if 48 \<le> c \<and> c \<le> 57
         then if n * 10 + c \<le> 2147483647 then atoi_loop (s + 1) (n * 10 + c - 48) m else None
         else Some n)"

definition atoi :: "u32 \<Rightarrow> memory \<Rightarrow> int option" where
  "atoi s m = atoi_loop s 0 m"

definition ulib_memmove :: "u32 \<Rightarrow> u32 \<Rightarrow> int \<Rightarrow> memory \<Rightarrow> memory" where
  "ulib_memmove dst src n m = copy_up (nat n) dst src m"

partial_function (option) strend :: "u32 \<Rightarrow> memory \<Rightarrow> u32 option" where
  "strend dest m = (if m dest \<noteq> 0 then strend (dest + 1) m else Some dest)"

definition strcat :: "u32 \<Rightarrow> u32 \<Rightarrow> memory \<Rightarrow> memory option" where
  "strcat dest src m = (case strend dest m of None \<Rightarrow> None | Some d \<Rightarrow> strcpy d src m)"

subsection \<open>printf.c\<close>

text \<open>Each character is one \<^verbatim>\<open>write\<close> of a byte; the result lists them.\<close>

definition udigits :: "u8 list" where
  "udigits = str ''0123456789ABCDEF''"

definition uprintint :: "u32 \<Rightarrow> u32 \<Rightarrow> bool \<Rightarrow> u8 list" where
  "uprintint xx base sg = printint_out udigits xx base sg"

text \<open>
  The loop of \<^verbatim>\<open>printf\<close> with its two states, outside and behind a percent sign. A missing or
  mistyped argument reads beyond the arguments of the call: \<^term>\<open>None\<close>.
\<close>

fun uprintf :: "bool \<Rightarrow> u8 list \<Rightarrow> fmtarg list \<Rightarrow> u8 list option" where
  "uprintf state [] ap = Some []"
| "uprintf False (c # fmt) ap =
     (if c = of_char CHR ''%'' then uprintf True fmt ap else map_option ((#) c) (uprintf False fmt ap))"
| "uprintf True (c # fmt) ap =
     (if c = of_char CHR ''d'' then
        (case ap of ANum x # ap \<Rightarrow> map_option ((@) (uprintint x 10 True)) (uprintf False fmt ap) | _ \<Rightarrow> None)
      else if c = of_char CHR ''x'' \<or> c = of_char CHR ''p'' then
        (case ap of ANum x # ap \<Rightarrow> map_option ((@) (uprintint x 16 False)) (uprintf False fmt ap) | _ \<Rightarrow> None)
      else if c = of_char CHR ''s'' then
        (case ap of AStr s # ap \<Rightarrow>
           map_option ((@) (case s of None \<Rightarrow> str ''(null)'' | Some s \<Rightarrow> s)) (uprintf False fmt ap) | _ \<Rightarrow> None)
      else if c = of_char CHR ''c'' then
        (case ap of ANum x # ap \<Rightarrow> map_option ((#) (ucast x)) (uprintf False fmt ap) | _ \<Rightarrow> None)
      else if c = of_char CHR ''%'' then map_option ((#) c) (uprintf False fmt ap)
      else map_option ((@) [of_char CHR ''%'', c]) (uprintf False fmt ap))"

subsection \<open>Strings\<close>

definition cstring :: "memory \<Rightarrow> u32 \<Rightarrow> u8 list \<Rightarrow> bool" where
  "cstring m a xs \<longleftrightarrow> load_bytes m a (Suc (length xs)) = xs @ [0] \<and> 0 \<notin> set xs"

lemma cstring_simps [simp]:
  "cstring m a [] \<longleftrightarrow> m a = 0"
  "cstring m a (x # xs) \<longleftrightarrow> m a = x \<and> x \<noteq> 0 \<and> cstring m (a + 1) xs"
  by (auto simp: cstring_def load_bytes_Suc)

lemma cstring_upd:
  assumes "apart s (Suc j) t (Suc (Suc (length xs)))"
  shows "cstring (m(s := x)) (t + 1) xs = cstring m (t + 1) xs"
proof -
  have "unat t + 1 < 4294967296" using assms by (auto simp: apart_def)
  then have "unat (t + 1) = unat t + 1" using unat_add_of_nat [of t 1] by simp
  then have "load_bytes (m(s := x)) (t + 1) (Suc (length xs)) = load_bytes m (t + 1) (Suc (length xs))"
    using assms by (intro load_bytes_upd_outside) (auto simp: apart_def)
  then show ?thesis by (simp add: cstring_def)
qed

lemma strcpy_eq:
  "cstring m t xs \<Longrightarrow> apart s (Suc (length xs)) t (Suc (length xs)) \<Longrightarrow>
   strcpy s t m = Some (store_bytes s (xs @ [0]) m)"
proof (induction xs arbitrary: s t m)
  case Nil
  then show ?case by (subst strcpy.simps) (simp add: store_bytes_Cons)
next
  case (Cons x xs)
  have "cstring (m(s := x)) (t + 1) xs" using Cons.prems cstring_upd [of s "Suc (length xs)" t xs m x] by simp
  moreover have "apart (s + 1) (Suc (length xs)) (t + 1) (Suc (length xs))"
    using Cons.prems by (intro apart_step) simp_all
  ultimately have "strcpy (s + 1) (t + 1) (m(s := x)) = Some (store_bytes (s + 1) (xs @ [0]) (m(s := x)))"
    by (rule Cons.IH)
  moreover have "length (xs @ [0 :: u8]) < 4294967296" using Cons.prems(2) by (auto simp: apart_def)
  ultimately show ?case using Cons.prems(1) by (subst strcpy.simps) (simp add: Let_def store_bytes_Cons)
qed

lemma strend_eq: "cstring m d xs \<Longrightarrow> strend d m = Some (d + of_nat (length xs))"
proof (induction xs arbitrary: d)
  case Nil
  then show ?case by (subst strend.simps) simp
next
  case (Cons x xs)
  from Cons.IH [of "d + 1"] Cons.prems show ?case by (subst strend.simps) (simp add: add.assoc)
qed

lemma store_bytes_same: "load_bytes m a (length xs) = xs \<Longrightarrow> store_bytes a xs m = m"
proof
  fix z
  assume l: "load_bytes m a (length xs) = xs"
  have "unat (z - a) < length xs \<Longrightarrow> xs ! unat (z - a) = m z"
    using arg_cong [OF l, of "\<lambda>l. l ! unat (z - a)"] by simp
  then show "store_bytes a xs m z = m z" by (simp add: store_bytes_def)
qed

lemma store_bytes_glue:
  assumes "load_bytes m a (length xs) = xs" "length xs + length ys \<le> 4294967296"
  shows "store_bytes (a + of_nat (length xs)) ys m = store_bytes a (xs @ ys) m"
  using store_store_append [OF assms(2), of a m] store_bytes_same [OF assms(1)] by simp

text \<open>\<^verbatim>\<open>strcat\<close> writes exactly the bytes of the source and a terminator behind the destination string.\<close>

lemma strcat_eq:
  assumes "cstring m dest xs" "cstring m src ys"
    and "length xs + Suc (length ys) \<le> 4294967296"
    and "apart (dest + of_nat (length xs)) (Suc (length ys)) src (Suc (length ys))"
  shows "strcat dest src m = Some (store_bytes dest (xs @ ys @ [0]) m)"
proof -
  have l: "load_bytes m dest (length xs) = xs"
    using assms(1) load_bytes_snoc [of m dest "length xs"] by (simp add: cstring_def)
  have "strcpy (dest + of_nat (length xs)) src m = Some (store_bytes (dest + of_nat (length xs)) (ys @ [0]) m)"
    by (rule strcpy_eq [OF assms(2,4)])
  then show ?thesis using store_bytes_glue [OF l, of "ys @ [0]"] assms(3) strend_eq [OF assms(1)]
    by (simp add: strcat_def)
qed

subsection \<open>Reading a line\<close>

text \<open>The line that \<^verbatim>\<open>gets\<close> delivers: up to a line end, at most \<open>n\<close> bytes.\<close>

fun line_upto :: "nat \<Rightarrow> u8 list \<Rightarrow> u8 list" where
  "line_upto 0 cs = []"
| "line_upto (Suc n) [] = []"
| "line_upto (Suc n) (c # cs) = (if c = 10 \<or> c = 13 then [c] else c # line_upto n cs)"

lemma length_line_upto: "length (line_upto n cs) \<le> n"
  by (induction n cs rule: line_upto.induct) auto

lemma gets_loop_eq:
  "0 \<le> i \<Longrightarrow> mx \<le> 2147483648 \<Longrightarrow> l = line_upto (nat (mx - 1 - i)) input \<Longrightarrow>
   gets_loop buf mx i input m = (i + int (length l), drop (length l) input, store_bytes (buf + of_int i) l m)"
proof (induction buf mx i input m arbitrary: l rule: gets_loop.induct)
  case (1 buf mx i m)
  then show ?case by (cases "nat (mx - 1 - i)") auto
next
  case (2 buf mx i c input m)
  show ?case
  proof (cases "i + 1 < mx")
    case True
    then have n: "nat (mx - 1 - i) = Suc (nat (mx - 1 - (i + 1)))" by simp
    show ?thesis
    proof (cases "c = 10 \<or> c = 13")
      case nl: True
      then show ?thesis using True "2.prems"(3) n by (auto simp: Let_def store_bytes_Cons)
    next
      case False
      define l' where "l' = line_upto (nat (mx - 1 - (i + 1))) input"
      have ih: "gets_loop buf mx (i + 1) input (m(buf + of_int i := c)) =
          (i + 1 + int (length l'), drop (length l') input, store_bytes (buf + of_int (i + 1)) l' (m(buf + of_int i := c)))"
        using "2.prems"(1,2) by (intro "2.IH" [OF True refl False _ _ l'_def]) simp_all
      have "length l' < 4294967296"
        using length_line_upto [of "nat (mx - 1 - (i + 1))" input] "2.prems"(1,2) by (simp add: l'_def)
      moreover have "l = c # l'" unfolding "2.prems"(3) n l'_def using False by simp
      ultimately show ?thesis using True False ih by (simp add: Let_def store_bytes_Cons add.assoc)
    qed
  next
    case False
    then have "nat (mx - 1 - i) = 0" by simp
    with False "2.prems"(3) show ?thesis by simp
  qed
qed

text \<open>
  C23: \<^verbatim>\<open>gets\<close> delivers the input up to and including the first line end, or as much as fits, always
  with a terminator inside the buffer, writes nowhere else, and leaves the rest of the input.
\<close>

theorem gets_correct:
  assumes "1 \<le> mx" "mx \<le> 2147483648"
  shows "let l = line_upto (nat (mx - 1)) input
    in gets buf mx input m = (drop (length l) input, store_bytes buf (l @ [0]) m) \<and> int (length (l @ [0])) \<le> mx"
proof -
  define l where "l = line_upto (nat (mx - 1)) input"
  have len: "int (length l) + 1 \<le> mx" using length_line_upto [of "nat (mx - 1)" input] assms(1) by (simp add: l_def)
  have "gets_loop buf mx 0 input m = (int (length l), drop (length l) input, store_bytes buf l m)"
    using gets_loop_eq [of 0 mx l input buf m] assms(2) by (simp add: l_def)
  moreover have "(store_bytes buf l m)(buf + of_nat (length l) := 0) = store_bytes buf (l @ [0]) m"
    using store_store_append [of l "[0]" buf m] len assms(2) by (simp add: store_bytes_Cons)
  ultimately show ?thesis using len by (simp add: gets_def l_def [symmetric] Let_def)
qed

lemma gets_correct_witness:
  "gets 100 4 (str ''abcdef'') (\<lambda>_. 7) = (str ''def'', store_bytes 100 (str ''abc'' @ [0]) (\<lambda>_. 7))"
  using gets_correct [of 4 "str ''abcdef''" 100 "\<lambda>_. 7"] by (simp add: numeral_3_eq_3 Let_def)

subsection \<open>Numbers\<close>

lemma digit_cases: "d \<le> 9 \<Longrightarrow> d \<in> {0, 1, 2, 3, 4, 5, 6, 7, 8, 9 :: nat}"
  by auto

lemma digit_sint: "d \<le> 9 \<Longrightarrow> sint (48 + of_nat d :: u8) = 48 + int d"
  using digit_cases [of d] by auto

lemma udigits_nth: "d \<le> 9 \<Longrightarrow> udigits ! d = 48 + of_nat d"
  using digit_cases [of d] by (auto simp: udigits_def)

lemma digit_nonzero: "d \<le> 9 \<Longrightarrow> 48 + of_nat d \<noteq> (0 :: u8)"
  using digit_cases [of d] by auto

lemma foldl_digits_ge: "n \<le> foldl (\<lambda>v d. 10 * v + d) n (ds :: nat list)"
proof (induction ds arbitrary: n)
  case (Cons d ds)
  from Cons.IH [of "10 * n + d"] show ?case by simp
qed simp

lemma atoi_loop_read:
  "\<forall>d \<in> set ds. d \<le> 9 \<Longrightarrow> cstring m s (map (\<lambda>d. 48 + of_nat d) ds) \<Longrightarrow>
   foldl (\<lambda>v d. 10 * v + d) n ds \<le> 2147483599 \<Longrightarrow>
   atoi_loop s (int n) m = Some (int (foldl (\<lambda>v d. 10 * v + d) n ds))"
proof (induction ds arbitrary: s n)
  case Nil
  then show ?case by (subst atoi_loop.simps) simp
next
  case (Cons d ds)
  have c: "sint (m s) = 48 + int d" "int d \<le> 9" using Cons.prems(1,2) by (simp_all add: digit_sint)
  have "10 * n + d \<le> 2147483599" using Cons.prems(3) foldl_digits_ge [of "10 * n + d" ds] by simp
  then have "int n * 10 + (48 + int d) \<le> 2147483647" by simp
  moreover have "atoi_loop (s + 1) (int (10 * n + d)) m = Some (int (foldl (\<lambda>v d. 10 * v + d) (10 * n + d) ds))"
    using Cons.prems by (intro Cons.IH) simp_all
  then have "atoi_loop (s + 1) (int n * 10 + int d) m = Some (int (foldl (\<lambda>v d. 10 * v + d) (10 * n + d) ds))"
    by (simp add: mult.commute)
  ultimately show ?case using c by (subst atoi_loop.simps) simp
qed

lemma cstring_store:
  "0 \<notin> set xs \<Longrightarrow> length xs < 4294967296 \<Longrightarrow> cstring (store_bytes a (xs @ [0]) m) a xs"
  using load_store_same [of "xs @ [0]" a m] by (simp add: cstring_def)

text \<open>
  C24: \<^verbatim>\<open>atoi\<close> reads back what \<^verbatim>\<open>printf\<close> prints for \<^verbatim>\<open>%d\<close>: the decimal text of a non-negative number, stored
  as a string, converts to the number. The bound is where the sum inside \<^verbatim>\<open>atoi\<close> would overflow.
\<close>

theorem atoi_printf:
  assumes "0 \<le> sint v" "sint v \<le> 2147483599"
  shows "\<exists>out. uprintf False (str ''%d'') [ANum v] = Some out \<and> length out \<le> 16 \<and>
    atoi a (store_bytes a (out @ [0]) m) = Some (sint v)"
proof -
  define ds where "ds = rev (digs 10 (unat v))"
  have d9: "\<forall>d \<in> set ds. d \<le> 9" using digs_less [of 10 _ "unat v"] by (fastforce simp: ds_def)
  have "uint (of_int (sint v) :: u32) = sint v"
    using assms by (simp only: unsigned_of_int) (simp add: take_bit_int_eq_self)
  then have uv: "sint v = int (unat v)" by simp
  have out: "uprintint v 10 True = map (\<lambda>d. 48 + of_nat d) ds"
    using assms(1) d9 by (simp add: uprintint_def printint_out_def printint_buf_def Let_def emit_digits_eq rev_map
        ds_def udigits_nth)
  have len: "length (uprintint v 10 True) \<le> 11"
    using printint_buf_length [of 10 udigits v True] by (simp add: uprintint_def printint_out_def)
  have val: "foldl (\<lambda>v d. 10 * v + d) 0 ds = unat v"
    using undigs_digs [of 10 "unat v"] by (simp add: ds_def undigs_def foldl_conv_foldr add.commute)
  have "cstring (store_bytes a (map (\<lambda>d. 48 + of_nat d) ds @ [0]) m) a (map (\<lambda>d. 48 + of_nat d) ds)"
    using d9 len digit_nonzero by (intro cstring_store) (auto simp: out)
  from atoi_loop_read [OF d9 this, of 0] val assms(2) uv
  have "atoi a (store_bytes a (uprintint v 10 True @ [0]) m) = Some (sint v)" by (simp add: atoi_def out)
  then show ?thesis using len by simp
qed

lemma atoi_printf_witness:
  "\<exists>out. uprintf False (str ''%d'') [ANum 1729] = Some out \<and> length out \<le> 16 \<and>
    atoi 64 (store_bytes 64 (out @ [0]) (\<lambda>_. 0)) = Some 1729"
  using atoi_printf [of 1729 64 "\<lambda>_. 0"] by simp

end
