(* ===== verification/Sh.thy ===== *)
theory Sh
  imports Ulib
begin

text \<open>
  The shell's command parser and its search path (\<^verbatim>\<open>sh.c\<close>). A command line is the byte list \<open>b\<close> without
  its terminator, a pointer into it an index, the pointer \<^verbatim>\<open>es\<close> the length of \<open>b\<close>. The parse functions
  take the index and return the advanced one; \<open>Abort\<close> is the call of \<^verbatim>\<open>panic\<close>, which prints and exits.
  The mutual recursion runs on fuel; \<open>parsecmd\<close> provides enough of it for every input.
\<close>

subsection \<open>Tokens\<close>

definition whitespace :: "u8 list" where
  "whitespace = str '' '' @ [9, 13, 10, 11]"

definition symbols :: "u8 list" where
  "symbols = str ''<|>&;()''"

definition rd :: "u8 list \<Rightarrow> nat \<Rightarrow> u8" where
  "rd b s = (if s < length b then b ! s else 0)"

function skip_ws :: "u8 list \<Rightarrow> nat \<Rightarrow> nat" where
  "skip_ws b s = (if s < length b \<and> b ! s \<in> set whitespace then skip_ws b (s + 1) else s)"
  by pat_completeness auto
termination by (relation "measure (\<lambda>(b, s). length b - s)") auto

function skip_word :: "u8 list \<Rightarrow> nat \<Rightarrow> nat" where
  "skip_word b s =
     (if s < length b \<and> b ! s \<notin> set whitespace \<and> b ! s \<notin> set symbols then skip_word b (s + 1) else s)"
  by pat_completeness auto
termination by (relation "measure (\<lambda>(b, s). length b - s)") auto

declare skip_ws.simps [simp del] skip_word.simps [simp del]

text \<open>The token kind, its start \<^verbatim>\<open>q\<close>, its end \<^verbatim>\<open>eq\<close> and the new position.\<close>

definition gettoken :: "u8 list \<Rightarrow> nat \<Rightarrow> u8 \<times> nat \<times> nat \<times> nat" where
  "gettoken b s =
     (let q = skip_ws b s; c = rd b q;
          (ret, eq) =
            (if c = 0 then (c, q)
             else if c \<in> set (str ''|();&<'') then (c, q + 1)
             else if c = ch CHR ''>'' then
               (if rd b (q + 1) = ch CHR ''>'' then (ch CHR ''+'', q + 2) else (c, q + 1))
             else (ch CHR ''a'', skip_word b q))
      in (ret, q, eq, skip_ws b eq))"

definition peek :: "u8 list \<Rightarrow> nat \<Rightarrow> u8 list \<Rightarrow> bool \<times> nat" where
  "peek b s toks = (let s = skip_ws b s in (rd b s \<noteq> 0 \<and> rd b s \<in> set toks, s))"

subsection \<open>Commands\<close>

type_synonym tok = "nat \<times> nat"

datatype cmd =
    EXEC "tok list"
  | REDIR cmd tok u32 int
  | PIPE cmd cmd
  | LIST cmd cmd
  | BACK cmd

definition MAXARGS :: nat where "MAXARGS = 10"

text \<open>
  \<^verbatim>\<open>parseexec\<close> writes the arguments into the \<^verbatim>\<open>execcmd\<close> that the redirections parsed meanwhile already
  point to: the innermost command.
\<close>

primrec fill :: "cmd \<Rightarrow> tok list \<Rightarrow> cmd" where
  "fill (EXEC _) args = EXEC args"
| "fill (REDIR c f mode fd) args = REDIR (fill c args) f mode fd"
| "fill (PIPE l r) args = PIPE l r"
| "fill (LIST l r) args = LIST l r"
| "fill (BACK c) args = BACK c"

datatype 'a pr = Done 'a | Abort string | Fuel

primrec pbind :: "'a pr \<Rightarrow> ('a \<Rightarrow> 'b pr) \<Rightarrow> 'b pr" where
  "pbind (Done x) f = f x"
| "pbind (Abort e) f = Abort e"
| "pbind Fuel f = Fuel"

lemma pbind_cong [fundef_cong]: "m = m' \<Longrightarrow> (\<And>x. m' = Done x \<Longrightarrow> f x = f' x) \<Longrightarrow> pbind m f = pbind m' f'"
  by (cases m') auto

lemma pbind_Done_iff: "pbind m f = Done y \<longleftrightarrow> (\<exists>x. m = Done x \<and> f x = Done y)"
  by (cases m) auto

lemma pbind_Fuel_iff: "pbind m f = Fuel \<longleftrightarrow> m = Fuel \<or> (\<exists>x. m = Done x \<and> f x = Fuel)"
  by (cases m) auto

subsection \<open>Progress of the scanner\<close>

lemma skip_ws_ge: "s \<le> skip_ws b s"
  by (induction b s rule: skip_ws.induct) (subst skip_ws.simps, auto)

lemma skip_ws_le: "s \<le> length b \<Longrightarrow> skip_ws b s \<le> length b"
  by (induction b s rule: skip_ws.induct) (subst skip_ws.simps, auto)

lemma skip_ws_stop: "skip_ws b s < length b \<Longrightarrow> b ! skip_ws b s \<notin> set whitespace"
  by (induction b s rule: skip_ws.induct) (subst (asm) skip_ws.simps, subst skip_ws.simps, auto split: if_splits)

lemma skip_word_ge: "s \<le> skip_word b s"
  by (induction b s rule: skip_word.induct) (subst skip_word.simps, auto)

lemma skip_word_le: "s \<le> length b \<Longrightarrow> skip_word b s \<le> length b"
  by (induction b s rule: skip_word.induct) (subst skip_word.simps, auto)

lemma skip_word_stop:
  "skip_word b s < length b \<Longrightarrow> b ! skip_word b s \<in> set whitespace \<or> b ! skip_word b s \<in> set symbols"
proof (induction b s rule: skip_word.induct)
  case (1 b s)
  then show ?case by (auto simp: skip_word.simps [of b s] split: if_splits)
qed

lemma skip_word_in:
  "s \<le> i \<Longrightarrow> i < skip_word b s \<Longrightarrow> i < length b \<and> b ! i \<notin> set whitespace \<and> b ! i \<notin> set symbols"
proof (induction b s rule: skip_word.induct)
  case (1 b s)
  then show ?case by (cases "i = s") (auto simp: skip_word.simps [of b s] split: if_splits)
qed

lemma skip_word_gt:
  "s < length b \<Longrightarrow> b ! s \<notin> set whitespace \<Longrightarrow> b ! s \<notin> set symbols \<Longrightarrow> s < skip_word b s"
  using skip_word_ge [of "s + 1" b] by (subst skip_word.simps) simp

lemma rd_nz: "rd b s \<noteq> 0 \<Longrightarrow> s < length b"
  by (simp add: rd_def split: if_splits)

text \<open>What a token is, and that the scanner moves on with each one but the end of the line.\<close>

definition tok_ok :: "u8 list \<Rightarrow> tok \<Rightarrow> bool" where
  "tok_ok b t \<longleftrightarrow> fst t < snd t \<and> snd t \<le> length b \<and>
     (\<forall>i. fst t \<le> i \<and> i < snd t \<longrightarrow> b ! i \<notin> set whitespace \<and> b ! i \<notin> set symbols) \<and>
     (snd t < length b \<longrightarrow> b ! snd t \<in> set whitespace \<or> b ! snd t \<in> set symbols)"

lemma gettoken_ok:
  assumes "gettoken b s = (ret, q, eq, s')" "s \<le> length b"
  shows "s \<le> s'" "s' \<le> length b" "ret \<noteq> 0 \<Longrightarrow> s < s'" "ret = ch CHR ''a'' \<Longrightarrow> tok_ok b (q, eq)"
proof -
  define c where "c = rd b (skip_ws b s)"
  have q: "s \<le> q" "q \<le> length b" "c = rd b q" "q < length b \<Longrightarrow> b ! q \<notin> set whitespace"
    and s': "s' = skip_ws b eq"
    using assms skip_ws_ge [of s b] by (auto simp: c_def gettoken_def Let_def skip_ws_le skip_ws_stop split: prod.splits)
  have e: "(ret, eq) = (if c = 0 then (c, q)
      else if c \<in> set (str ''|();&<'') then (c, q + 1)
      else if c = ch CHR ''>'' then (if rd b (q + 1) = ch CHR ''>'' then (ch CHR ''+'', q + 2) else (c, q + 1))
      else (ch CHR ''a'', skip_word b q))"
    using assms(1) by (auto simp: c_def gettoken_def Let_def split: prod.splits)
  have eq: "q \<le> eq \<and> eq \<le> length b \<and> (ret \<noteq> 0 \<longrightarrow> q < eq) \<and> (ret = ch CHR ''a'' \<longrightarrow> tok_ok b (q, eq))"
  proof (cases "c \<noteq> 0 \<and> c \<notin> set symbols")
    case True
    then have n: "q < length b" using rd_nz [of b q] unfolding q(3) by blast
    then have c: "c = b ! q" unfolding q(3) rd_def by simp
    have "ret = ch CHR ''a''" "eq = skip_word b q" using e True by (simp_all add: symbols_def)
    moreover have "q < skip_word b q" using n q(4) True unfolding c by (intro skip_word_gt) auto
    ultimately show ?thesis
      using skip_word_le [of q b] n skip_word_in [of q _ b] skip_word_stop [of b q] by (auto simp: tok_ok_def)
  next
    case False
    then show ?thesis using e q(2,3) rd_nz [of b q] rd_nz [of b "q + 1"]
      by (auto simp: symbols_def split: if_splits)
  qed
  then show "s \<le> s'" "s' \<le> length b" "ret \<noteq> 0 \<Longrightarrow> s < s'" "ret = ch CHR ''a'' \<Longrightarrow> tok_ok b (q, eq)"
    using q(1) s' skip_ws_ge [of eq b] skip_ws_le [of eq b] by auto
qed

lemma peek_ok:
  assumes "peek b s toks = (r, s')"
  shows "s \<le> s'" "s \<le> length b \<Longrightarrow> s' \<le> length b" "r \<Longrightarrow> s' < length b"
  using assms by (auto simp: peek_def Let_def skip_ws_le skip_ws_ge rd_nz)

subsection \<open>The parser\<close>

lemma redirs_progress:
  assumes p: "peek b s toks = (True, s1)"
    and g: "gettoken b s1 = (tok, q, eq, s2)" "gettoken b s2 = (97, q', eq', s3)"
  shows "length b - s3 < length b - s"
proof -
  have s1: "s1 < length b" "s \<le> s1" using peek_ok [OF p] by simp_all
  then have s2: "s1 \<le> s2" "s2 \<le> length b" using gettoken_ok(1,2) [OF g(1)] by simp_all
  then have "s2 < s3" using gettoken_ok(3) [OF g(2)] by simp
  then show "length b - s3 < length b - s" using s1 s2 by linarith
qed

text \<open>Redirections: the loop of \<^verbatim>\<open>parseredirs\<close>.\<close>

function parseredirs :: "u8 list \<Rightarrow> cmd \<Rightarrow> nat \<Rightarrow> (cmd \<times> nat) pr" where
  "parseredirs b cmd s =
     (case peek b s (str ''<>'') of (r, s1) \<Rightarrow>
        if \<not> r then Done (cmd, s1)
        else case gettoken b s1 of (tok, _, _, s2) \<Rightarrow>
          case gettoken b s2 of (tok2, q, eq, s3) \<Rightarrow>
            if tok2 \<noteq> ch CHR ''a'' then Abort ''missing file for redirection''
            else let cmd = (if tok = ch CHR ''<'' then REDIR cmd (q, eq) O_RDONLY 0
                            else if tok = ch CHR ''>'' \<or> tok = ch CHR ''+'' then REDIR cmd (q, eq) (O_WRONLY OR O_CREATE) 1
                            else cmd)
                 in parseredirs b cmd s3)"
  by pat_completeness auto
termination
  by (relation "measure (\<lambda>(b, cmd, s). length b - s)") (auto intro: redirs_progress [OF sym sym sym])

declare parseredirs.simps [simp del]

text \<open>A parse step keeps the position inside the line.\<close>

definition adv :: "u8 list \<Rightarrow> nat \<Rightarrow> nat \<Rightarrow> bool" where
  "adv b s s' \<longleftrightarrow> s \<le> s' \<and> s' \<le> length b"

text \<open>Well-formed commands: tokens as delimited by the scanner, at most nine arguments, the flags of redirections.\<close>

fun cmd_ok :: "u8 list \<Rightarrow> cmd \<Rightarrow> bool" where
  "cmd_ok b (EXEC args) \<longleftrightarrow> (\<forall>t \<in> set args. tok_ok b t) \<and> length args < MAXARGS"
| "cmd_ok b (REDIR c f mode fd) \<longleftrightarrow>
     cmd_ok b c \<and> tok_ok b f \<and> (mode = O_RDONLY \<and> fd = 0 \<or> mode = O_WRONLY OR O_CREATE \<and> fd = 1)"
| "cmd_ok b (PIPE l r) \<longleftrightarrow> cmd_ok b l \<and> cmd_ok b r"
| "cmd_ok b (LIST l r) \<longleftrightarrow> cmd_ok b l \<and> cmd_ok b r"
| "cmd_ok b (BACK c) \<longleftrightarrow> cmd_ok b c"

lemma fill_ok: "cmd_ok b c \<Longrightarrow> \<forall>t \<in> set args. tok_ok b t \<Longrightarrow> length args < MAXARGS \<Longrightarrow> cmd_ok b (fill c args)"
  by (induction c) auto

lemma parseredirs_ok:
  "parseredirs b c s = Done (c', s') \<Longrightarrow> s \<le> length b \<Longrightarrow> cmd_ok b c \<Longrightarrow> adv b s s' \<and> cmd_ok b c'"
proof (induction "length b - s" arbitrary: c s rule: less_induct)
  case less
  obtain r s1 where p: "peek b s (str ''<>'') = (r, s1)" by (cases "peek b s (str ''<>'')")
  obtain tok q eq s2 where g: "gettoken b s1 = (tok, q, eq, s2)" by (cases "gettoken b s1")
  obtain tok2 q2 eq2 s3 where g2: "gettoken b s2 = (tok2, q2, eq2, s3)" by (cases "gettoken b s2")
  note po = peek_ok [OF p]
  show ?case
  proof (cases r)
    case False
    then show ?thesis using less.prems po p by (simp add: parseredirs.simps [of b c s] adv_def)
  next
    case True
    have a: "tok2 = ch CHR ''a''"
      using less.prems(1) True p g g2 by (simp add: parseredirs.simps [of b c s] split: if_splits)
    have s: "s \<le> s1" "s1 \<le> s2" "s2 \<le> length b" "s2 < s3" "s3 \<le> length b" "tok_ok b (q2, eq2)"
      using po True gettoken_ok(1,2) [OF g] gettoken_ok [OF g2] a by simp_all
    define c1 where "c1 = (if tok = ch CHR ''<'' then REDIR c (q2, eq2) O_RDONLY 0
      else if tok = ch CHR ''>'' \<or> tok = ch CHR ''+'' then REDIR c (q2, eq2) (O_WRONLY OR O_CREATE) 1 else c)"
    have c1: "cmd_ok b c1" using less.prems(3) s(6) by (simp add: c1_def)
    have "parseredirs b c1 s3 = Done (c', s')"
      using less.prems(1) True p g g2 a by (simp add: parseredirs.simps [of b c s] Let_def c1_def)
    then have "adv b s3 s' \<and> cmd_ok b c'"
      using less.hyps [of s3 c1] redirs_progress [of b s _ s1 tok q eq s2 q2 eq2 s3] p g g2 True a c1 s by simp
    then show ?thesis using s by (auto simp: adv_def)
  qed
qed

lemma parseredirs_fuel: "parseredirs b c s \<noteq> Fuel"
proof (induction "length b - s" arbitrary: c s rule: less_induct)
  case less
  obtain r s1 where p: "peek b s (str ''<>'') = (r, s1)" by (cases "peek b s (str ''<>'')")
  obtain tok q eq s2 where g: "gettoken b s1 = (tok, q, eq, s2)" by (cases "gettoken b s1")
  obtain tok2 q2 eq2 s3 where g2: "gettoken b s2 = (tok2, q2, eq2, s3)" by (cases "gettoken b s2")
  have "r \<Longrightarrow> tok2 = ch CHR ''a'' \<Longrightarrow> parseredirs b c1 s3 \<noteq> Fuel" for c1
    using redirs_progress [of b s _ s1 tok q eq s2 q2 eq2 s3] p g g2 by (intro less.hyps) simp
  then show ?case using p g g2 by (simp add: parseredirs.simps [of b c s] Let_def)
qed

lemma skip_ws_idem: "skip_ws b (skip_ws b s) = skip_ws b s"
proof (cases "skip_ws b s < length b")
  case True
  then show ?thesis using skip_ws_stop [OF True] by (simp add: skip_ws.simps [of b "skip_ws b s"])
next
  case False
  then show ?thesis by (simp add: skip_ws.simps [of b "skip_ws b s"])
qed

text \<open>After a successful \<^verbatim>\<open>peek\<close> the next token is not the end of the line, so the position moves.\<close>

lemma peek_gettoken:
  assumes "peek b s toks = (True, s1)" "gettoken b s1 = (ret, q, eq, s2)"
  shows "s \<le> s1" "s1 < s2" "s2 \<le> length b"
proof -
  note p = peek_ok [OF assms(1)]
  have "rd b (skip_ws b s1) \<noteq> 0" using assms(1) by (auto simp: peek_def Let_def skip_ws_idem)
  then have "ret \<noteq> 0" using assms(2) by (auto simp: gettoken_def Let_def split: if_splits)
  then show "s \<le> s1" "s1 < s2" "s2 \<le> length b" using p gettoken_ok [OF assms(2)] by simp_all
qed

function parseback :: "u8 list \<Rightarrow> cmd \<Rightarrow> nat \<Rightarrow> cmd \<times> nat" where
  "parseback b cmd s =
     (case peek b s (str ''&'') of (r, s1) \<Rightarrow>
        if \<not> r then (cmd, s1)
        else case gettoken b s1 of (_, _, _, s2) \<Rightarrow> parseback b (BACK cmd) s2)"
  by pat_completeness auto
termination
proof (relation "measure (\<lambda>(b, cmd, s). length b - s)", simp, clarsimp)
  fix b s s1 ret q eq s2
  assume "(True, s1) = peek b s [38]" "(ret, q, eq, s2) = gettoken b s1"
  from peek_gettoken [OF this [symmetric]] show "length b - s2 < length b - s" by linarith
qed

declare parseback.simps [simp del]

text \<open>The loop of \<^verbatim>\<open>parseexec\<close> over the arguments.\<close>

function parseargs :: "u8 list \<Rightarrow> cmd \<Rightarrow> tok list \<Rightarrow> nat \<Rightarrow> (cmd \<times> nat) pr" where
  "parseargs b ret args s =
     (case peek b s (str ''|)&;'') of (r, s1) \<Rightarrow>
        if r then Done (fill ret args, s1)
        else case gettoken b s1 of (tok, q, eq, s2) \<Rightarrow>
          if tok = 0 then Done (fill ret args, s2)
          else if tok \<noteq> ch CHR ''a'' then Abort ''syntax''
          else if MAXARGS \<le> length args + 1 then Abort ''too many args''
          else pbind (parseredirs b ret s2) (\<lambda>(ret, s3). parseargs b ret (args @ [(q, eq)]) s3))"
  by pat_completeness auto
termination
  by (relation "measure (\<lambda>(b, ret, args, s). MAXARGS - length args)") auto

declare parseargs.simps [simp del]

fun parseline :: "nat \<Rightarrow> u8 list \<Rightarrow> nat \<Rightarrow> (cmd \<times> nat) pr"
  and parsepipe :: "nat \<Rightarrow> u8 list \<Rightarrow> nat \<Rightarrow> (cmd \<times> nat) pr"
  and parseexec :: "nat \<Rightarrow> u8 list \<Rightarrow> nat \<Rightarrow> (cmd \<times> nat) pr"
  and parseblock :: "nat \<Rightarrow> u8 list \<Rightarrow> nat \<Rightarrow> (cmd \<times> nat) pr" where
  "parseline 0 b s = Fuel"
| "parseline (Suc n) b s =
     pbind (parsepipe n b s) (\<lambda>(cmd, s).
       case parseback b cmd s of (cmd, s) \<Rightarrow>
         case peek b s (str '';'') of (r, s) \<Rightarrow>
           if r then case gettoken b s of (_, _, _, s) \<Rightarrow>
             pbind (parseline n b s) (\<lambda>(right, s). Done (LIST cmd right, s))
           else Done (cmd, s))"
| "parsepipe 0 b s = Fuel"
| "parsepipe (Suc n) b s =
     pbind (parseexec n b s) (\<lambda>(cmd, s).
       case peek b s (str ''|'') of (r, s) \<Rightarrow>
         if r then case gettoken b s of (_, _, _, s) \<Rightarrow>
           pbind (parsepipe n b s) (\<lambda>(right, s). Done (PIPE cmd right, s))
         else Done (cmd, s))"
| "parseexec 0 b s = Fuel"
| "parseexec (Suc n) b s =
     (case peek b s (str ''('') of (r, s) \<Rightarrow>
        if r then parseblock n b s
        else pbind (parseredirs b (EXEC []) s) (\<lambda>(ret, s). parseargs b ret [] s))"
| "parseblock 0 b s = Fuel"
| "parseblock (Suc n) b s =
     (case peek b s (str ''('') of (r, s) \<Rightarrow>
        if \<not> r then Abort ''parseblock''
        else case gettoken b s of (_, _, _, s) \<Rightarrow>
          pbind (parseline n b s) (\<lambda>(cmd, s).
            case peek b s (str '')'') of (r, s) \<Rightarrow>
              if \<not> r then Abort ''syntax - missing )''
              else case gettoken b s of (_, _, _, s) \<Rightarrow> parseredirs b cmd s))"

definition parse_fuel :: "u8 list \<Rightarrow> nat" where
  "parse_fuel b = 4 * length b + 4"

definition parsecmd :: "u8 list \<Rightarrow> cmd pr" where
  "parsecmd b =
     pbind (parseline (parse_fuel b) b 0) (\<lambda>(cmd, s).
       case peek b s [] of (_, s) \<Rightarrow> if s \<noteq> length b then Abort ''syntax'' else Done cmd)"

text \<open>\<^verbatim>\<open>nulterminate\<close> writes a NUL at the end of each word, into the line with its terminator.\<close>

primrec nulterminate :: "cmd \<Rightarrow> u8 list \<Rightarrow> u8 list" where
  "nulterminate (EXEC args) b = fold (\<lambda>t b. b[snd t := 0]) args b"
| "nulterminate (REDIR c f mode fd) b = (nulterminate c b)[snd f := 0]"
| "nulterminate (PIPE l r) b = nulterminate r (nulterminate l b)"
| "nulterminate (LIST l r) b = nulterminate r (nulterminate l b)"
| "nulterminate (BACK c) b = nulterminate c b"

subsection \<open>Every line is parsed or rejected\<close>

text \<open>A parse result from position \<open>s\<close>: well formed, with the position in range; out of fuel only if \<open>F\<close>.\<close>

definition psat :: "bool \<Rightarrow> u8 list \<Rightarrow> nat \<Rightarrow> (cmd \<times> nat) pr \<Rightarrow> bool" where
  "psat F b s r = (case r of Done (c, s') \<Rightarrow> adv b s s' \<and> cmd_ok b c | Abort e \<Rightarrow> True | Fuel \<Rightarrow> F)"

lemma psat_simps [simp]:
  "psat F b s (Done (c, s')) \<longleftrightarrow> adv b s s' \<and> cmd_ok b c" "psat F b s (Abort e)" "psat F b s Fuel \<longleftrightarrow> F"
  by (simp_all add: psat_def)

lemma psat_bind:
  "psat F b s r \<Longrightarrow> (\<And>c s'. adv b s s' \<Longrightarrow> cmd_ok b c \<Longrightarrow> psat F b s (f (c, s'))) \<Longrightarrow> psat F b s (pbind r f)"
  by (cases r) auto

lemma psat_mono: "psat F b s' r \<Longrightarrow> (F \<Longrightarrow> F') \<Longrightarrow> s \<le> s' \<Longrightarrow> psat F' b s r"
  by (auto simp: psat_def adv_def split: pr.splits prod.splits)

lemma psat_from: "psat F b s' r \<Longrightarrow> s \<le> s' \<Longrightarrow> psat F b s r"
  by (rule psat_mono)

lemma parseredirs_psat: "s \<le> length b \<Longrightarrow> cmd_ok b c \<Longrightarrow> psat F b s (parseredirs b c s)"
  using parseredirs_ok [of b c s] parseredirs_fuel [of b c s]
  by (auto simp: psat_def split: pr.splits prod.splits)

lemma parseback_ok:
  "parseback b c s = (c', s') \<Longrightarrow> s \<le> length b \<Longrightarrow> cmd_ok b c \<Longrightarrow> adv b s s' \<and> cmd_ok b c'"
proof (induction "length b - s" arbitrary: c s rule: less_induct)
  case less
  obtain r s1 where p: "peek b s (str ''&'') = (r, s1)" by (cases "peek b s (str ''&'')")
  obtain tok q eq s2 where g: "gettoken b s1 = (tok, q, eq, s2)" by (cases "gettoken b s1")
  show ?case
  proof (cases r)
    case False
    then show ?thesis using less.prems p peek_ok [OF p] by (simp add: parseback.simps [of b c s] adv_def)
  next
    case True
    with p have "peek b s (str ''&'') = (True, s1)" by simp
    from peek_gettoken [OF this g] have s2: "s < s2" "s2 \<le> length b" by simp_all
    have "parseback b (BACK c) s2 = (c', s')" using less.prems(1) True p g by (simp add: parseback.simps [of b c s])
    then have "adv b s2 s' \<and> cmd_ok b c'" using s2 less.prems(3) less.hyps [of s2 "BACK c"] by auto
    then show ?thesis using s2 by (auto simp: adv_def)
  qed
qed

lemma parseargs_psat:
  "s \<le> length b \<Longrightarrow> cmd_ok b ret \<Longrightarrow> \<forall>t \<in> set args. tok_ok b t \<Longrightarrow> length args < MAXARGS \<Longrightarrow>
   psat F b s (parseargs b ret args s)"
proof (induction "MAXARGS - length args" arbitrary: ret args s rule: less_induct)
  case less
  obtain r s1 where p: "peek b s (str ''|)&;'') = (r, s1)" by (cases "peek b s (str ''|)&;'')")
  obtain tok q eq s2 where g: "gettoken b s1 = (tok, q, eq, s2)" by (cases "gettoken b s1")
  have s1: "s \<le> s1" "s1 \<le> length b" using peek_ok [OF p] less.prems(1) by simp_all
  note s2 = gettoken_ok [OF g s1(2)]
  have "psat F b s2 (pbind (parseredirs b ret s2) (\<lambda>(ret, s3). parseargs b ret (args @ [(q, eq)]) s3))"
    if t: "tok = ch CHR ''a''" "\<not> MAXARGS \<le> length args + 1"
  proof (rule psat_bind [OF parseredirs_psat])
    fix c s'
    assume "adv b s2 s'" "cmd_ok b c"
    then have "psat F b s' (parseargs b c (args @ [(q, eq)]) s')"
      using less.prems s2 t by (intro less.hyps) (auto simp: adv_def)
    then show "psat F b s2 (case (c, s') of (ret, s3) \<Rightarrow> parseargs b ret (args @ [(q, eq)]) s3)"
      using \<open>adv b s2 s'\<close> by (simp add: adv_def psat_from)
  qed (use s2 less.prems in simp_all)
  then have "tok = ch CHR ''a'' \<Longrightarrow> \<not> MAXARGS \<le> length args + 1 \<Longrightarrow>
      psat F b s (pbind (parseredirs b ret s2) (\<lambda>(ret, s3). parseargs b ret (args @ [(q, eq)]) s3))"
    using s1 s2(1) by (simp add: psat_from [where s' = s2])
  then show ?case using less.prems p g s1 s2(1,2)
    by (simp add: parseargs.simps [of b ret args s] fill_ok adv_def)
qed

text \<open>An optional tail behind an operator, as in \<^verbatim>\<open>parseline\<close> and \<^verbatim>\<open>parsepipe\<close>.\<close>

lemma psat_tail:
  assumes "s \<le> length b" "cmd_ok b c" "\<And>r. cmd_ok b r \<Longrightarrow> cmd_ok b (K c r)"
    and "\<And>s'. s < s' \<Longrightarrow> s' \<le> length b \<Longrightarrow> psat F b s' (f s')"
  shows "psat F b s (case peek b s toks of (r, s) \<Rightarrow>
     if r then case gettoken b s of (_, _, _, s) \<Rightarrow> pbind (f s) (\<lambda>(right, s). Done (K c right, s)) else Done (c, s))"
proof -
  obtain r s1 where p: "peek b s toks = (r, s1)" by (cases "peek b s toks")
  obtain tok q eq s2 where g: "gettoken b s1 = (tok, q, eq, s2)" by (cases "gettoken b s1")
  show ?thesis
  proof (cases r)
    case True
    with p have "peek b s toks = (True, s1)" by simp
    from peek_gettoken [OF this g] have s2: "s < s2" "s2 \<le> length b" by simp_all
    have "psat F b s2 (pbind (f s2) (\<lambda>(right, s). Done (K c right, s)))"
      using assms(3,4) s2 by (intro psat_bind) auto
    then have "psat F b s (pbind (f s2) (\<lambda>(right, s). Done (K c right, s)))" by (rule psat_from) (use s2 in simp)
    then show ?thesis using True p g by simp
  next
    case False
    then show ?thesis using p peek_ok [OF p] assms(1,2) by (simp add: adv_def)
  qed
qed

lemma parseblock_end:
  assumes "s \<le> s0" "s0 \<le> length b" "cmd_ok b c"
  shows "psat F b s (case peek b s0 toks of (r, s) \<Rightarrow>
    if \<not> r then Abort e else case gettoken b s of (_, _, _, s) \<Rightarrow> parseredirs b c s)"
proof -
  obtain r s1 where p: "peek b s0 toks = (r, s1)" by (cases "peek b s0 toks")
  obtain tok q eq s2 where g: "gettoken b s1 = (tok, q, eq, s2)" by (cases "gettoken b s1")
  show ?thesis
  proof (cases r)
    case True
    with p have "peek b s0 toks = (True, s1)" by simp
    from peek_gettoken [OF this g] have s2: "s0 < s2" "s2 \<le> length b" by simp_all
    have "psat F b s2 (parseredirs b c s2)" using s2 assms(3) by (intro parseredirs_psat) simp_all
    then have "psat F b s (parseredirs b c s2)" by (rule psat_from) (use s2 assms(1) in simp)
    then show ?thesis using True p g by simp
  qed (use p in simp)
qed

lemma parseline_step:
  assumes "s \<le> length b" "\<And>s'. s' \<le> length b \<Longrightarrow> psat (n < 4 * (length b - s') + 4) b s' (parseline n b s')"
    and "psat (n < 4 * (length b - s) + 3) b s (parsepipe n b s)"
  shows "psat (Suc n < 4 * (length b - s) + 4) b s (parseline (Suc n) b s)"
  unfolding parseline.simps
proof (rule psat_bind)
  show "psat (Suc n < 4 * (length b - s) + 4) b s (parsepipe n b s)"
    by (rule psat_mono [OF assms(3)]) simp_all
next
  fix c s1
  assume a: "adv b s s1" "cmd_ok b c"
  obtain c2 s2 where k: "parseback b c s1 = (c2, s2)" by (cases "parseback b c s1")
  then have c2: "adv b s1 s2" "cmd_ok b c2" using parseback_ok [OF k] a by (auto simp: adv_def)
  have "psat (Suc n < 4 * (length b - s) + 4) b s2 (case peek b s2 (str '';'') of (r, s) \<Rightarrow>
      if r then case gettoken b s of (_, _, _, s) \<Rightarrow> pbind (parseline n b s) (\<lambda>(right, s). Done (LIST c2 right, s))
      else Done (c2, s))"
  proof (rule psat_tail)
    fix s'
    assume "s2 < s'" "s' \<le> length b"
    then show "psat (Suc n < 4 * (length b - s) + 4) b s' (parseline n b s')"
      using a c2 by (intro psat_mono [OF assms(2)]) (auto simp: adv_def)
  qed (use c2 in \<open>simp_all add: adv_def\<close>)
  then show "psat (Suc n < 4 * (length b - s) + 4) b s (case (c, s1) of (cmd, s) \<Rightarrow>
      case parseback b cmd s of (cmd, s) \<Rightarrow> case peek b s (str '';'') of (r, s) \<Rightarrow>
      if r then case gettoken b s of (_, _, _, s) \<Rightarrow> pbind (parseline n b s) (\<lambda>(right, s). Done (LIST cmd right, s))
      else Done (cmd, s))"
    unfolding k prod.case by (rule psat_mono) (use a c2 in \<open>auto simp: adv_def\<close>)
qed

lemma parsepipe_step:
  assumes "s \<le> length b" "\<And>s'. s' \<le> length b \<Longrightarrow> psat (n < 4 * (length b - s') + 3) b s' (parsepipe n b s')"
    and "psat (n < 4 * (length b - s) + 2) b s (parseexec n b s)"
  shows "psat (Suc n < 4 * (length b - s) + 3) b s (parsepipe (Suc n) b s)"
  unfolding parsepipe.simps
proof (rule psat_bind)
  show "psat (Suc n < 4 * (length b - s) + 3) b s (parseexec n b s)"
    by (rule psat_mono [OF assms(3)]) simp_all
next
  fix c s1
  assume a: "adv b s s1" "cmd_ok b c"
  have "psat (Suc n < 4 * (length b - s) + 3) b s1 (case peek b s1 (str ''|'') of (r, s) \<Rightarrow>
      if r then case gettoken b s of (_, _, _, s) \<Rightarrow> pbind (parsepipe n b s) (\<lambda>(right, s). Done (PIPE c right, s))
      else Done (c, s))"
  proof (rule psat_tail)
    fix s'
    assume "s1 < s'" "s' \<le> length b"
    then show "psat (Suc n < 4 * (length b - s) + 3) b s' (parsepipe n b s')"
      using a by (intro psat_mono [OF assms(2)]) (auto simp: adv_def)
  qed (use a in \<open>simp_all add: adv_def\<close>)
  then show "psat (Suc n < 4 * (length b - s) + 3) b s (case (c, s1) of (cmd, s) \<Rightarrow>
      case peek b s (str ''|'') of (r, s) \<Rightarrow>
      if r then case gettoken b s of (_, _, _, s) \<Rightarrow> pbind (parsepipe n b s) (\<lambda>(right, s). Done (PIPE cmd right, s))
      else Done (cmd, s))"
    unfolding prod.case by (rule psat_mono) (use a in \<open>auto simp: adv_def\<close>)
qed

lemma parseexec_step:
  assumes "s \<le> length b" "\<And>s'. s' \<le> length b \<Longrightarrow> psat (n < 4 * (length b - s') + 1) b s' (parseblock n b s')"
  shows "psat (Suc n < 4 * (length b - s) + 2) b s (parseexec (Suc n) b s)"
proof -
  obtain r s1 where p: "peek b s (str ''('') = (r, s1)" by (cases "peek b s (str ''('')")
  have s1: "s \<le> s1" "s1 \<le> length b" using peek_ok [OF p] assms(1) by simp_all
  have "psat F b s1 (pbind (parseredirs b (EXEC []) s1) (\<lambda>(ret, s). parseargs b ret [] s))" for F
  proof (rule psat_bind [OF parseredirs_psat [OF s1(2)]])
    fix c s'
    assume a: "adv b s1 s'" "cmd_ok b c"
    then have "psat F b s' (parseargs b c [] s')" by (intro parseargs_psat) (auto simp: adv_def MAXARGS_def)
    then show "psat F b s1 (case (c, s') of (ret, s) \<Rightarrow> parseargs b ret [] s)"
      using a by (simp add: adv_def psat_from)
  qed (simp add: MAXARGS_def)
  then have "psat F b s (pbind (parseredirs b (EXEC []) s1) (\<lambda>(ret, s). parseargs b ret [] s))" for F
    using s1(1) psat_from by blast
  moreover have "psat (Suc n < 4 * (length b - s) + 2) b s (parseblock n b s1)"
    using s1 by (intro psat_mono [OF assms(2)]) auto
  ultimately show ?thesis using p by simp
qed

lemma parseblock_step:
  assumes "s \<le> length b" "\<And>s'. s' \<le> length b \<Longrightarrow> psat (n < 4 * (length b - s') + 4) b s' (parseline n b s')"
  shows "psat (Suc n < 4 * (length b - s) + 1) b s (parseblock (Suc n) b s)"
proof -
  obtain r s1 where p: "peek b s (str ''('') = (r, s1)" by (cases "peek b s (str ''('')")
  obtain tok q eq s2 where g: "gettoken b s1 = (tok, q, eq, s2)" by (cases "gettoken b s1")
  show ?thesis
  proof (cases r)
    case True
    with p have "peek b s (str ''('') = (True, s1)" by simp
    from peek_gettoken [OF this g] have s2: "s < s2" "s2 \<le> length b" by simp_all
    have "psat (Suc n < 4 * (length b - s) + 1) b s2 (parseline n b s2)"
      using s2 by (intro psat_mono [OF assms(2)]) auto
    then have "psat (Suc n < 4 * (length b - s) + 1) b s2 (pbind (parseline n b s2) (\<lambda>(cmd, s).
          case peek b s (str '')'') of (r, s) \<Rightarrow>
            if \<not> r then Abort ''syntax - missing )''
            else case gettoken b s of (_, _, _, s) \<Rightarrow> parseredirs b cmd s))"
    proof (rule psat_bind)
      fix c s'
      assume "adv b s2 s'" "cmd_ok b c"
      then show "psat (Suc n < 4 * (length b - s) + 1) b s2 (case (c, s') of (cmd, s) \<Rightarrow>
          case peek b s (str '')'') of (r, s) \<Rightarrow>
            if \<not> r then Abort ''syntax - missing )''
            else case gettoken b s of (_, _, _, s) \<Rightarrow> parseredirs b cmd s)"
        unfolding prod.case by (intro parseblock_end) (auto simp: adv_def)
    qed
    then have "psat (Suc n < 4 * (length b - s) + 1) b s (pbind (parseline n b s2) (\<lambda>(cmd, s).
          case peek b s (str '')'') of (r, s) \<Rightarrow>
            if \<not> r then Abort ''syntax - missing )''
            else case gettoken b s of (_, _, _, s) \<Rightarrow> parseredirs b cmd s))"
      by (rule psat_from) (use s2 in simp)
    then show ?thesis using True p g by simp
  qed (use p in simp)
qed

lemma parse_psat:
  "s \<le> length b \<Longrightarrow> psat (n < 4 * (length b - s) + 4) b s (parseline n b s)"
  "s \<le> length b \<Longrightarrow> psat (n < 4 * (length b - s) + 3) b s (parsepipe n b s)"
  "s \<le> length b \<Longrightarrow> psat (n < 4 * (length b - s) + 2) b s (parseexec n b s)"
  "s \<le> length b \<Longrightarrow> psat (n < 4 * (length b - s) + 1) b s (parseblock n b s)"
proof (induction n arbitrary: s)
  case 0
  {
    case 1
    then show ?case by simp
  next
    case 2
    then show ?case by simp
  next
    case 3
    then show ?case by simp
  next
    case 4
    then show ?case by simp
  }
next
  case (Suc n)
  {
    case 1
    then show ?case using Suc.IH(1,2) by (intro parseline_step)
  next
    case 2
    then show ?case using Suc.IH(2,3) by (intro parsepipe_step)
  next
    case 3
    then show ?case using Suc.IH(4) by (intro parseexec_step)
  next
    case 4
    then show ?case using Suc.IH(1) by (intro parseblock_step)
  }
qed

lemma parsecmd_ok: "parsecmd b \<noteq> Fuel \<and> (case parsecmd b of Done c \<Rightarrow> cmd_ok b c | _ \<Rightarrow> True)"
proof -
  have "psat False b 0 (parseline (parse_fuel b) b 0)"
    using parse_psat(1) [of 0 b "parse_fuel b"] by (simp add: parse_fuel_def)
  then show ?thesis
    by (cases "parseline (parse_fuel b) b 0") (auto simp: parsecmd_def split: prod.splits)
qed

text \<open>
  C28: the shell's parser returns on every command line: it either rejects the line or delivers a
  command whose words are non-empty pieces of the line free of blanks and operators, cut at a blank,
  an operator or the end, with at most nine arguments (one below the array size, so the null pointer fits).
\<close>

theorem parsecmd_total:
  "parsecmd b \<noteq> Fuel \<and> (case parsecmd b of Done c \<Rightarrow> cmd_ok b c | _ \<Rightarrow> True)"
  by (rule parsecmd_ok)

subsection \<open>The strings of a parsed command\<close>

primrec tokens :: "cmd \<Rightarrow> tok list" where
  "tokens (EXEC args) = args"
| "tokens (REDIR c f mode fd) = tokens c @ [f]"
| "tokens (PIPE l r) = tokens l @ tokens r"
| "tokens (LIST l r) = tokens l @ tokens r"
| "tokens (BACK c) = tokens c"

definition cut :: "tok list \<Rightarrow> u8 list \<Rightarrow> u8 list" where
  "cut ts b = fold (\<lambda>t b. b[snd t := 0]) ts b"

lemma nulterminate_cut: "nulterminate c b = cut (tokens c) b"
  by (induction c arbitrary: b) (simp_all add: cut_def)

lemma cut_nth: "i < length b \<Longrightarrow> cut ts b ! i = (if i \<in> snd ` set ts then 0 else b ! i)"
  by (induction ts arbitrary: b) (auto simp: cut_def nth_list_update)

lemma length_cut [simp]: "length (cut ts b) = length b"
  by (induction ts arbitrary: b) (simp_all add: cut_def)

lemma cmd_ok_tokens: "cmd_ok b c \<Longrightarrow> t \<in> set (tokens c) \<Longrightarrow> tok_ok b t"
  by (induction b c rule: cmd_ok.induct) auto

lemma takeWhile_slice:
  assumes "q \<le> e" "e < length xs" "xs ! e = 0" "\<And>i. q \<le> i \<Longrightarrow> i < e \<Longrightarrow> xs ! i \<noteq> 0"
  shows "takeWhile (\<lambda>c. c \<noteq> 0) (drop q xs) = take (e - q) (drop q xs)"
proof (rule takeWhile_eq_take_P_nth)
  show "i < e - q \<Longrightarrow> i < length (drop q xs) \<Longrightarrow> drop q xs ! i \<noteq> 0" for i using assms by simp
  show "e - q < length (drop q xs) \<Longrightarrow> \<not> drop q xs ! (e - q) \<noteq> 0" using assms by simp
qed

text \<open>
  C29: after \<^verbatim>\<open>nulterminate\<close>, every argument and file name of a parsed command is, as a C string, exactly
  the word of the input line that the parser delimited, although all words share one buffer.
\<close>

theorem nulterminate_strings:
  assumes "0 \<notin> set b" "parsecmd b = Done c" "(q, e) \<in> set (tokens c)"
  shows "takeWhile (\<lambda>x. x \<noteq> 0) (drop q (nulterminate c (b @ [0]))) = take (e - q) (drop q b)"
proof -
  have c: "cmd_ok b c" using parsecmd_ok [of b] assms(2) by simp
  note t = cmd_ok_tokens [OF c]
  have te: "q < e" "e \<le> length b" using t [OF assms(3)] by (simp_all add: tok_ok_def)
  have n: "nulterminate c (b @ [0]) ! i = b ! i" if "q \<le> i" "i < e" for i
  proof -
    have "i \<notin> snd ` set (tokens c)"
    proof
      assume "i \<in> snd ` set (tokens c)"
      then obtain u where "u \<in> set (tokens c)" "i = snd u" by blast
      with t [of u] that te have "b ! i \<in> set whitespace \<or> b ! i \<in> set symbols" by (simp add: tok_ok_def)
      with t [OF assms(3)] that show False by (auto simp: tok_ok_def)
    qed
    with that te show ?thesis by (simp add: nulterminate_cut cut_nth nth_append)
  qed
  have "takeWhile (\<lambda>x. x \<noteq> 0) (drop q (nulterminate c (b @ [0]))) = take (e - q) (drop q (nulterminate c (b @ [0])))"
  proof (rule takeWhile_slice)
    show "nulterminate c (b @ [0]) ! e = 0" using te assms(3) by (force simp: nulterminate_cut cut_nth)
    show "q \<le> i \<Longrightarrow> i < e \<Longrightarrow> nulterminate c (b @ [0]) ! i \<noteq> 0" for i
      using n [of i] te assms(1) by (metis less_le_trans nth_mem)
  qed (use te in \<open>simp_all add: nulterminate_cut\<close>)
  also have "\<dots> = take (e - q) (drop q b)"
    using n te by (intro nth_equalityI) (simp_all add: nulterminate_cut)
  finally show ?thesis .
qed

lemma nulterminate_strings_witness:
  "takeWhile (\<lambda>x. x \<noteq> 0) (drop 2 (nulterminate (PIPE (EXEC [(0, 1)]) (REDIR (EXEC [(2, 4)]) (5, 6) 513 1)) (str ''a|bb>c'' @ [0])))
   = str ''bb''"
proof -
  have "parsecmd (str ''a|bb>c'') = Done (PIPE (EXEC [(0, 1)]) (REDIR (EXEC [(2, 4)]) (5, 6) 513 1))"
    by code_simp
  from nulterminate_strings [OF _ this, of 2 4] show ?thesis by simp
qed

subsection \<open>The search path\<close>

text \<open>
  \<^verbatim>\<open>execute_with_path\<close> tries to \<^verbatim>\<open>exec\<close> the command in the directories of the file \<^verbatim>\<open>/path\<close>. \<open>ex\<close> tells for
  which names \<^verbatim>\<open>exec\<close> does not return. A directory without a colon behind it makes \<^verbatim>\<open>strchr\<close> return 0,
  through which the code then writes; so does the empty file write in front of the buffer.
\<close>

datatype search = Execed "u8 list" | Failed | Wild

function path_loop :: "(u8 list \<Rightarrow> bool) \<Rightarrow> u8 list \<Rightarrow> u8 list \<Rightarrow> search" where
  "path_loop ex cmd path =
     (if path = [] then Failed
      else if ch CHR '':'' \<notin> set path then Wild
      else let d = takeWhile (\<lambda>c. c \<noteq> ch CHR '':'') path
           in if ex (d @ cmd) then Execed (d @ cmd) else path_loop ex cmd (drop (length d + 1) path))"
  by pat_completeness auto
termination by (relation "measure (\<lambda>(ex, cmd, path). length path)") auto

declare path_loop.simps [simp del]

definition execute_with_path :: "(u8 list \<Rightarrow> bool) \<Rightarrow> u8 list option \<Rightarrow> u8 list \<Rightarrow> search" where
  "execute_with_path ex file cmd =
     (if cmd = [] \<or> hd cmd \<noteq> ch CHR ''/''
      then case file of
          None \<Rightarrow> Failed
        | Some path_buf \<Rightarrow> if path_buf = [] then Wild else path_loop ex cmd (takeWhile (\<lambda>c. c \<noteq> 0) (butlast path_buf))
      else if ex cmd then Execed cmd else Failed)"

lemma path_loop_dirs:
  "\<forall>d \<in> set ds. ch CHR '':'' \<notin> set d \<Longrightarrow>
   path_loop ex cmd (concat (map (\<lambda>d. d @ [ch CHR '':'']) ds)) =
     (case find (\<lambda>d. ex (d @ cmd)) ds of Some d \<Rightarrow> Execed (d @ cmd) | None \<Rightarrow> Failed)"
proof (induction ds)
  case Nil
  then show ?case by (subst path_loop.simps) simp
next
  case (Cons d ds)
  have "takeWhile (\<lambda>c. c \<noteq> ch CHR '':'') (d @ ch CHR '':'' # xs) = d" for xs
    using Cons.prems by (subst takeWhile_append2) auto
  with Cons show ?case by (subst path_loop.simps) (simp add: Let_def)
qed

text \<open>
  C30: with a well-formed \<^verbatim>\<open>/path\<close> file, each directory followed by a colon and the whole by a line end,
  the shell runs a relative command from the first directory that has it, and reports failure if none has.
\<close>

theorem execute_with_path_first:
  assumes "\<forall>d \<in> set ds. ch CHR '':'' \<notin> set d \<and> 0 \<notin> set d" "hd cmd \<noteq> ch CHR ''/''"
  shows "execute_with_path ex (Some (concat (map (\<lambda>d. d @ [ch CHR '':'']) ds) @ [10])) cmd =
    (case find (\<lambda>d. ex (d @ cmd)) ds of Some d \<Rightarrow> Execed (d @ cmd) | None \<Rightarrow> Failed)"
proof -
  have w: "takeWhile (\<lambda>c. c \<noteq> 0) (concat (map (\<lambda>d. d @ [ch CHR '':'']) ds)) = concat (map (\<lambda>d. d @ [ch CHR '':'']) ds)"
    using assms(1) by (auto simp: takeWhile_eq_all_conv)
  show ?thesis using assms path_loop_dirs [of ds ex cmd]
    unfolding execute_with_path_def option.case butlast_snoc w by simp
qed

lemma execute_with_path_first_witness:
  "execute_with_path (\<lambda>p. p = str ''/bin/ls'') (Some (concat (map (\<lambda>d. d @ [ch CHR '':'']) [str ''/'', str ''/bin/'']) @ [10])) (str ''ls'') =
    Execed (str ''/bin/ls'')"
  using execute_with_path_first [of "[str ''/'', str ''/bin/'']" "str ''ls''" "\<lambda>p. p = str ''/bin/ls''"] by simp

end
