(* ===== verification/Grep.thy ===== *)
theory Grep
  imports Ulib
begin

text \<open>
  The user programs \<^verbatim>\<open>grep\<close> (\<^verbatim>\<open>grep.c\<close>) and \<^verbatim>\<open>wc\<close> (\<^verbatim>\<open>wc.c\<close>). C strings are byte lists without the
  terminator. The input of a program is the sequence of the results of its \<^verbatim>\<open>read\<close> calls up to the
  first that returns nothing. The matcher is proved equal to the language the pattern denotes.
\<close>

subsection \<open>The matcher\<close>

declare conj_cong [fundef_cong]

function (sequential) matchhere :: "u8 list \<Rightarrow> u8 list \<Rightarrow> bool"
  and matchstar :: "u8 \<Rightarrow> u8 list \<Rightarrow> u8 list \<Rightarrow> bool" where
  "matchhere [] line = True"
| "matchhere (c # re) line =
     (if re \<noteq> [] \<and> hd re = ch CHR ''*'' then matchstar c (tl re) line
      else if c = ch CHR ''$'' \<and> re = [] then line = []
      else line \<noteq> [] \<and> (c = ch CHR ''.'' \<or> c = hd line) \<and> matchhere re (tl line))"
| "matchstar c re line =
     (matchhere re line \<or> line \<noteq> [] \<and> (hd line = c \<or> c = ch CHR ''.'') \<and> matchstar c re (tl line))"
  by pat_completeness auto
termination
  by (relation "measures [\<lambda>x. case x of Inl (re, line) \<Rightarrow> length re | Inr (c, re, line) \<Rightarrow> Suc (length re),
      \<lambda>x. case x of Inl (re, line) \<Rightarrow> length line | Inr (c, re, line) \<Rightarrow> length line]") auto

declare matchhere.simps [simp del] matchstar.simps [simp del]

lemma matchstar_eqs:
  "matchstar c re [] = matchhere re []"
  "matchstar c re (t # ts) = (matchhere re (t # ts) \<or> (t = c \<or> c = ch CHR ''.'') \<and> matchstar c re ts)"
  by (subst matchstar.simps, simp)+

text \<open>The loop of \<^verbatim>\<open>match\<close> over the positions of the line, the empty rest included.\<close>

fun match_loop :: "u8 list \<Rightarrow> u8 list \<Rightarrow> bool" where
  "match_loop re [] = matchhere re []"
| "match_loop re (c # line) = (matchhere re (c # line) \<or> match_loop re line)"

definition match :: "u8 list \<Rightarrow> u8 list \<Rightarrow> bool" where
  "match re line =
     (if re \<noteq> [] \<and> hd re = ch CHR ''^'' then matchhere (tl re) line else match_loop re line)"

lemmas match_eval = match_def matchhere.simps matchstar_eqs

subsection \<open>What a pattern denotes\<close>

datatype atom = One u8 | Star u8

text \<open>The atoms of a pattern, and whether it ends with the end-of-line anchor.\<close>

function parse_re :: "u8 list \<Rightarrow> atom list \<times> bool" where
  "parse_re [] = ([], False)"
| "parse_re (c # re) =
     (if re \<noteq> [] \<and> hd re = ch CHR ''*'' then (case parse_re (tl re) of (as, e) \<Rightarrow> (Star c # as, e))
      else if c = ch CHR ''$'' \<and> re = [] then ([], True)
      else case parse_re re of (as, e) \<Rightarrow> (One c # as, e))"
  by pat_completeness auto
termination by (relation "measure length") auto

declare parse_re.simps(2) [simp del]

definition one :: "u8 \<Rightarrow> u8 \<Rightarrow> bool" where
  "one c t \<longleftrightarrow> c = ch CHR ''.'' \<or> c = t"

fun alang :: "atom \<Rightarrow> u8 list set" where
  "alang (One c) = {[t] | t. one c t}"
| "alang (Star c) = {u. \<forall>t \<in> set u. one c t}"

fun patlang :: "atom list \<Rightarrow> u8 list set" where
  "patlang [] = {[]}"
| "patlang (a # as) = {u @ v | u v. u \<in> alang a \<and> v \<in> patlang as}"

text \<open>A line starts with a word of the pattern, followed by nothing if the pattern is anchored at the end.\<close>

definition starts :: "atom list \<times> bool \<Rightarrow> u8 list \<Rightarrow> bool" where
  "starts p line \<longleftrightarrow> (\<exists>u v. line = u @ v \<and> u \<in> patlang (fst p) \<and> (snd p \<longrightarrow> v = []))"

lemma startsI: "u \<in> patlang as \<Longrightarrow> e \<longrightarrow> v = [] \<Longrightarrow> starts (as, e) (u @ v)"
  by (auto simp: starts_def)

lemma starts_Nil: "starts ([], e) line \<longleftrightarrow> (e \<longrightarrow> line = [])"
  by (auto simp: starts_def)

lemma in_patlang_One: "w \<in> patlang (One c # as) \<longleftrightarrow> (\<exists>t v. w = t # v \<and> one c t \<and> v \<in> patlang as)"
    unfolding patlang.simps alang.simps mem_Collect_eq by (metis append_Cons append_Nil)

lemma in_patlang_Star:
  "w \<in> patlang (Star c # as) \<longleftrightarrow> (\<exists>u v. w = u @ v \<and> (\<forall>t \<in> set u. one c t) \<and> v \<in> patlang as)"
  by auto

lemma starts_One: "starts (One c # as, e) line \<longleftrightarrow> line \<noteq> [] \<and> one c (hd line) \<and> starts (as, e) (tl line)"
proof
  assume "starts (One c # as, e) line"
  then obtain t u v where "line = (t # u) @ v" "one c t" "u \<in> patlang as" "e \<longrightarrow> v = []"
    unfolding starts_def fst_conv snd_conv in_patlang_One by blast
  then show "line \<noteq> [] \<and> one c (hd line) \<and> starts (as, e) (tl line)" by (simp add: startsI)
next
  assume a: "line \<noteq> [] \<and> one c (hd line) \<and> starts (as, e) (tl line)"
  then obtain u v where s: "tl line = u @ v" "u \<in> patlang as" "e \<longrightarrow> v = []"
    unfolding starts_def fst_conv snd_conv by blast
  show "starts (One c # as, e) line"
    unfolding starts_def fst_conv snd_conv in_patlang_One
  proof (intro exI conjI)
    show "line = (hd line # u) @ v" using a s(1) by (cases line) auto
  qed (use a s in auto)
qed

lemma starts_Star:
  "starts (Star c # as, e) line \<longleftrightarrow>
     starts (as, e) line \<or> line \<noteq> [] \<and> one c (hd line) \<and> starts (Star c # as, e) (tl line)"
proof
  assume "starts (Star c # as, e) line"
  then obtain u v w where s: "line = (u @ v) @ w" "\<forall>t \<in> set u. one c t" "v \<in> patlang as" "e \<longrightarrow> w = []"
    unfolding starts_def fst_conv snd_conv in_patlang_Star by blast
  show "starts (as, e) line \<or> line \<noteq> [] \<and> one c (hd line) \<and> starts (Star c # as, e) (tl line)"
  proof (cases u)
    case Nil
    with s have "starts (as, e) line" unfolding starts_def by auto
    then show ?thesis ..
  next
    case (Cons x u')
    with s have "tl line = (u' @ v) @ w" "u' @ v \<in> patlang (Star c # as)" by auto
    with s(4) have "starts (Star c # as, e) (tl line)" unfolding starts_def fst_conv snd_conv by blast
    with s Cons show ?thesis by simp
  qed
next
  assume "starts (as, e) line \<or> line \<noteq> [] \<and> one c (hd line) \<and> starts (Star c # as, e) (tl line)"
  then show "starts (Star c # as, e) line"
  proof
    assume "starts (as, e) line"
    then obtain v w where "line = ([] @ v) @ w" "v \<in> patlang as" "e \<longrightarrow> w = []" by (auto simp: starts_def)
    moreover from this have "[] @ v \<in> patlang (Star c # as)" by force
    ultimately show ?thesis unfolding starts_def fst_conv snd_conv by blast
  next
    assume a: "line \<noteq> [] \<and> one c (hd line) \<and> starts (Star c # as, e) (tl line)"
    then obtain u v w where s: "tl line = (u @ v) @ w" "\<forall>t \<in> set u. one c t" "v \<in> patlang as" "e \<longrightarrow> w = []"
      unfolding starts_def fst_conv snd_conv in_patlang_Star by blast
    from a s(1) have "line = ((hd line # u) @ v) @ w" by (metis append_Cons list.collapse)
    moreover have "\<forall>t \<in> set (hd line # u). one c t" using a s(2) by simp
    then have "(hd line # u) @ v \<in> patlang (Star c # as)" using s(3) unfolding in_patlang_Star by blast
    ultimately show ?thesis using s(4) unfolding starts_def fst_conv snd_conv by blast
  qed
qed

lemma matchhere_starts:
  "matchhere re line \<longleftrightarrow> starts (parse_re re) line"
  "matchstar c re line \<longleftrightarrow> starts (Star c # fst (parse_re re), snd (parse_re re)) line"
proof (induction re line and c re line rule: matchhere_matchstar.induct)
  case (1 line)
  then show ?case by (simp add: matchhere.simps starts_Nil)
next
  case (2 c re line)
  then show ?case
    by (simp add: matchhere.simps(1,2) parse_re.simps(2) starts_Nil starts_One one_def split: prod.splits) auto
next
  case (3 c re line)
  from 3 show ?case by (subst matchstar.simps, subst starts_Star) (auto simp: one_def)
qed

lemma match_loop_iff: "match_loop re line \<longleftrightarrow> (\<exists>u v. line = u @ v \<and> matchhere re v)"
proof (induction line)
  case Nil
  then show ?case by simp
next
  case (Cons c line)
  have "(\<exists>u v. c # line = u @ v \<and> matchhere re v) \<longleftrightarrow>
      matchhere re (c # line) \<or> (\<exists>u v. line = u @ v \<and> matchhere re v)"
    by (auto simp: Cons_eq_append_conv)
  with Cons show ?case by simp
qed

text \<open>
  C25: the matcher of \<^verbatim>\<open>grep\<close> finds a line exactly when some part of it is a word of the language
  that the pattern denotes, at the start of the line for a pattern with a leading caret and at its
  end for one with a trailing dollar.
\<close>

theorem match_correct:
  "match re line \<longleftrightarrow>
     (let anchored = re \<noteq> [] \<and> hd re = ch CHR ''^'';
          p = parse_re (if anchored then tl re else re)
      in \<exists>u v w. line = u @ v @ w \<and> v \<in> patlang (fst p) \<and> (anchored \<longrightarrow> u = []) \<and> (snd p \<longrightarrow> w = []))"
proof (cases "re \<noteq> [] \<and> hd re = ch CHR ''^''")
  case True
  then show ?thesis by (auto simp: match_def matchhere_starts(1) starts_def Let_def)
next
  case False
  then have "match re line \<longleftrightarrow> (\<exists>u v. line = u @ v \<and> starts (parse_re re) v)"
    unfolding match_def if_not_P [OF False] by (simp add: match_loop_iff matchhere_starts(1))
  then show ?thesis unfolding Let_def if_not_P [OF False] using False by (auto simp: starts_def)
qed

lemma match_correct_witness:
  "\<exists>u v w. str ''xabby'' = u @ v @ w \<and> v \<in> patlang (fst (parse_re (str ''ab*y$'')))"
proof -
  have "match (str ''ab*y$'') (str ''xabby'')" by (simp add: match_eval)
  then show ?thesis unfolding match_correct Let_def by auto
qed

subsection \<open>The line loop of grep\<close>

lemma tl_dropWhile_less: "dropWhile f p \<noteq> [] \<Longrightarrow> length (dropWhile f p) - Suc 0 < length p"
  using length_dropWhile_le [of f p] by (cases "dropWhile f p") auto

text \<open>
  The inner loop of \<^verbatim>\<open>grep\<close> on the bytes from \<^verbatim>\<open>p\<close> to the end of what was read. \<^verbatim>\<open>strchr\<close> stops at a NUL,
  so that a line end behind one is not seen. The result holds the bytes of the \<^verbatim>\<open>write\<close> calls and
  the rest from the final \<^verbatim>\<open>p\<close>.
\<close>

function grep_scan :: "u8 list \<Rightarrow> u8 list \<Rightarrow> u8 list \<times> u8 list" where
  "grep_scan pattern p =
     (let line = takeWhile (\<lambda>c. c \<noteq> 0 \<and> c \<noteq> 10) p; q = dropWhile (\<lambda>c. c \<noteq> 0 \<and> c \<noteq> 10) p
      in if q \<noteq> [] \<and> hd q = 10
         then case grep_scan pattern (tl q) of (out, rest) \<Rightarrow>
           ((if match pattern line then line @ [10] else []) @ out, rest)
         else ([], p))"
  by pat_completeness auto
termination
  by (relation "measure (length \<circ> snd)")
    (auto simp: tl_dropWhile_less)

declare grep_scan.simps [simp del]

text \<open>
  The outer loop: \<^term>\<open>kept\<close> are the \<^verbatim>\<open>m\<close> bytes at the start of the buffer, the list holds the results of the
  \<^verbatim>\<open>read\<close> calls. If no line end was found the bytes read so far are dropped (\<^verbatim>\<open>if(p == buf) m = 0\<close>).
\<close>

fun grep_loop :: "u8 list \<Rightarrow> u8 list \<Rightarrow> u8 list list \<Rightarrow> u8 list" where
  "grep_loop pattern kept [] = []"
| "grep_loop pattern kept (n # reads) =
     (if n = [] then []
      else let buf = kept @ n; (out, p) = grep_scan pattern buf
           in out @ grep_loop pattern (if length p = length buf then [] else p) reads)"

definition grep :: "u8 list \<Rightarrow> u8 list list \<Rightarrow> u8 list" where
  "grep pattern reads = grep_loop pattern [] reads"

text \<open>The reference: the terminated lines of the input, and what follows the last of them.\<close>

fun lines_of :: "u8 list \<Rightarrow> u8 list \<Rightarrow> u8 list list" where
  "lines_of acc [] = []"
| "lines_of acc (c # cs) = (if c = 10 then rev acc # lines_of [] cs else lines_of (c # acc) cs)"

definition matching :: "u8 list \<Rightarrow> u8 list \<Rightarrow> u8 list" where
  "matching pattern input = concat (map (\<lambda>l. l @ [10]) (filter (match pattern) (lines_of [] input)))"

lemma lines_of_app: "10 \<notin> set l \<Longrightarrow> lines_of acc (l @ 10 # cs) = (rev acc @ l) # lines_of [] cs"
  by (induction l arbitrary: acc) auto

lemma lines_of_none: "10 \<notin> set l \<Longrightarrow> lines_of acc l = []"
  by (induction l arbitrary: acc) auto

lemma matching_line:
  "10 \<notin> set l \<Longrightarrow> matching pattern (l @ 10 # cs) = (if match pattern l then l @ [10] else []) @ matching pattern cs"
  by (simp add: matching_def lines_of_app)

lemma takeWhile_line: "10 \<notin> set (takeWhile (\<lambda>c. c \<noteq> 0 \<and> c \<noteq> 10) p)"
  by (auto dest: set_takeWhileD)

text \<open>
  Scanning text without NULs prints the matching lines and keeps the unterminated rest; it finds
  no line exactly when there is no line end.
\<close>

lemma grep_scan_matching:
  "0 \<notin> set p \<Longrightarrow> grep_scan pattern p = (out, rest) \<Longrightarrow>
     matching pattern (p @ suf) = out @ matching pattern (rest @ suf) \<and>
     10 \<notin> set rest \<and> 0 \<notin> set rest \<and> (length rest = length p \<longleftrightarrow> 10 \<notin> set p) \<and> length rest \<le> length p"
proof (induction pattern p arbitrary: out rest rule: grep_scan.induct)
  case (1 pattern p)
  define l where "l = takeWhile (\<lambda>c. c \<noteq> 0 \<and> c \<noteq> 10) p"
  define q where "q = dropWhile (\<lambda>c. c \<noteq> 0 \<and> c \<noteq> 10) p"
  have p: "p = l @ q" by (simp add: l_def q_def)
  have l: "10 \<notin> set l" unfolding l_def by (rule takeWhile_line)
  have g: "grep_scan pattern p = (if q \<noteq> [] \<and> hd q = 10 then case grep_scan pattern (tl q) of (out, rest) \<Rightarrow>
      ((if match pattern l then l @ [10] else []) @ out, rest) else ([], p))"
    unfolding l_def q_def Let_def by (subst grep_scan.simps) (simp only: Let_def)
  show ?case
  proof (cases "q \<noteq> [] \<and> hd q = 10")
    case True
    then have q: "q = 10 # tl q" by (metis list.collapse)
    obtain out' where r: "grep_scan pattern (tl q) = (out', rest)"
        and out: "out = (if match pattern l then l @ [10] else []) @ out'"
      using "1.prems"(2) unfolding g if_P [OF True] by (cases "grep_scan pattern (tl q)") simp
    have "0 \<notin> set (tl q)" using "1.prems"(1) p q by (metis Un_iff list.set_intros(2) set_append)
    from "1.IH" [OF l_def q_def True this r] have ih: "matching pattern (tl q @ suf) = out' @ matching pattern (rest @ suf)"
      "10 \<notin> set rest" "0 \<notin> set rest" "length rest \<le> length (tl q)" by blast+
    have "p @ suf = l @ 10 # (tl q @ suf)" using p q by (metis append.assoc append_Cons)
    then have "matching pattern (p @ suf) = out @ matching pattern (rest @ suf)"
      using matching_line [OF l, of pattern "tl q @ suf"] ih(1) out by simp
    moreover have "10 \<in> set p" using p q by (metis Un_iff list.set_intros(1) set_append)
    moreover have "length (tl q) < length p" using p True by (cases q) auto
    ultimately show ?thesis using ih by simp
  next
    case False
    have r: "out = []" "rest = p" using "1.prems"(2) unfolding g if_not_P [OF False] by simp_all
    have "q = []"
    proof (rule ccontr)
      assume n: "q \<noteq> []"
      then have "hd q = 0 \<or> hd q = 10" using hd_dropWhile [of "\<lambda>c. c \<noteq> 0 \<and> c \<noteq> 10" p] by (auto simp: q_def)
      moreover have "hd q \<in> set p" using n p by simp
      ultimately show False using False n "1.prems"(1) by auto
    qed
    then show ?thesis using p l r "1.prems"(1) by simp
  qed
qed

lemma grep_loop_matching:
  "\<forall>n \<in> set (butlast reads). 10 \<in> set n \<Longrightarrow> \<forall>n \<in> set reads. n \<noteq> [] \<and> 0 \<notin> set n \<Longrightarrow>
   10 \<notin> set kept \<Longrightarrow> 0 \<notin> set kept \<Longrightarrow> grep_loop pattern kept reads = matching pattern (kept @ concat reads)"
proof (induction reads arbitrary: kept)
  case Nil
  then show ?case by (simp add: matching_def lines_of_none)
next
  case (Cons n reads)
  obtain out p where g: "grep_scan pattern (kept @ n) = (out, p)" by (cases "grep_scan pattern (kept @ n)")
  have "0 \<notin> set (kept @ n)" using Cons.prems by simp
  note s = grep_scan_matching [OF this g]
  define kept' where "kept' = (if length p = length (kept @ n) then [] else p)"
  have k: "10 \<notin> set kept'" "0 \<notin> set kept'" using s [of "[]"] by (auto simp: kept'_def)
  have "grep_loop pattern kept' reads = matching pattern (kept' @ concat reads)"
    using Cons.IH [OF _ _ k] Cons.prems(1,2) by (cases reads) auto
  moreover have "matching pattern (kept' @ concat reads) = matching pattern (p @ concat reads)"
  proof (cases "reads = []")
    case True
    then show ?thesis using k s [of "[]"] by (simp add: matching_def lines_of_none)
  next
    case False
    then have "10 \<in> set (kept @ n)" using Cons.prems(1) by simp
    then have "length p \<noteq> length (kept @ n)" using s [of "[]"] by blast
    then show ?thesis unfolding kept'_def by simp
  qed
  moreover have "grep_loop pattern kept (n # reads) = out @ grep_loop pattern kept' reads"
    using Cons.prems(2) g by (simp add: Let_def kept'_def)
  ultimately show ?case using s [of "concat reads"] by simp
qed

text \<open>
  C26: as long as every read but the last one returns a line end (and the input has no NUL), \<^verbatim>\<open>grep\<close>
  prints exactly the terminated lines of its input that match, in order, wherever the boundaries
  of the reads fall inside a line.
\<close>

theorem grep_prints_matching_lines:
  assumes "\<forall>n \<in> set (butlast reads). 10 \<in> set n" "\<forall>n \<in> set reads. n \<noteq> [] \<and> 0 \<notin> set n"
  shows "grep pattern reads =
    concat (map (\<lambda>l. l @ [10]) (filter (match pattern) (lines_of [] (concat reads))))"
  using grep_loop_matching [OF assms, of "[]"] by (simp add: grep_def matching_def)

lemma grep_prints_matching_lines_witness:
  "grep (str ''b.*e$'') [str ''xbce'' @ [10] @ str ''b'', str ''de'' @ [10] @ str ''bed'' @ [10]] =
     str ''xbce'' @ [10] @ str ''bde'' @ [10]"
proof -
  have "grep (str ''b.*e$'') [str ''xbce'' @ [10] @ str ''b'', str ''de'' @ [10] @ str ''bed'' @ [10]] =
    concat (map (\<lambda>l. l @ [10]) (filter (match (str ''b.*e$''))
      (lines_of [] (concat [str ''xbce'' @ [10] @ str ''b'', str ''de'' @ [10] @ str ''bed'' @ [10]]))))"
    by (rule grep_prints_matching_lines) simp_all
  also have "\<dots> = str ''xbce'' @ [10] @ str ''bde'' @ [10]"
    by (simp add: match_eval)
  finally show ?thesis .
qed

text \<open>
  Without a line end in every read the result depends on how the input was split: the line
  of a first read without a line end is dropped.
\<close>

lemma grep_drops_split_line:
  "grep (str ''ab'') [str ''ab'' @ [10]] = str ''ab'' @ [10] \<and> grep (str ''ab'') [str ''a'', str ''b'' @ [10]] = []"
  by (simp add: grep_def grep_scan.simps match_eval)

subsection \<open>wc\<close>


definition wc_space :: "u8 \<Rightarrow> bool" where
  "wc_space b \<longleftrightarrow> b \<in> set (str '' '' @ [13, 9, 10, 11])"





text \<open>The positions where a word starts.\<close>

definition word_starts :: "u8 list \<Rightarrow> nat set" where
  "word_starts bs = {i. i < length bs \<and> \<not> wc_space (bs ! i) \<and> (i = 0 \<or> wc_space (bs ! (i - 1)))}"



lemma word_starts_fin [simp]: "finite (word_starts bs)" "length bs \<notin> word_starts bs"
  by (simp_all add: word_starts_def)






end
