(* ===== verification/Spec2Isabelle.thy ===== *)
theory Spec2Isabelle
  imports CallRefs Sh Grep
begin

text \<open>
  A verification of the xv6-based kernel under \<^verbatim>\<open>src/Assignment1\<close>.
\<close>

end
